(* ===== verification/Prelude.thy ===== *)
theory Prelude
  imports Main "HOL-Library.Word" "HOL-Library.Monad_Syntax"
begin

text \<open>
  Shared vocabulary of the development: the machine types of the C++ sources, byte
  strings, the little-endian and big-endian readings of a byte string, splitting a byte
  string into blocks, and the collections of facts the component theories use.
\<close>

unbundle bit_operations_syntax

type_synonym byte = "8 word"
type_synonym u16 = "16 word"
type_synonym u32 = "32 word"
type_synonym u64 = "64 word"
type_synonym bytes = "byte list"

named_theorems endian_simps \<open>lengths and round trips of fixed-width integer encodings\<close>
named_theorems hash_simps \<open>shape of hash states and digests\<close>
named_theorems script_simps \<open>evaluation of script opcodes and script readers\<close>

section \<open>Positional readings of byte strings\<close>

text \<open>
  \<open>le_bytes k n\<close> is the \<open>k\<close>-byte little-endian form of \<open>n\<close> modulo \<open>256 ^ k\<close>, and
  \<open>le_val\<close> the number a little-endian byte string stands for.
\<close>

fun le_bytes :: "nat \<Rightarrow> nat \<Rightarrow> bytes" where
  "le_bytes 0 n = []"
| "le_bytes (Suc k) n = of_nat (n mod 256) # le_bytes k (n div 256)"

fun le_val :: "bytes \<Rightarrow> nat" where
  "le_val [] = 0"
| "le_val (b # bs) = unat b + 256 * le_val bs"

lemma length_le_bytes [simp, endian_simps]: "length (le_bytes k n) = k"
  by (induction k arbitrary: n) auto

lemma unat_byte_less [simp]: "unat (b :: byte) < 256"
  using unsigned_less [of b, where ?'a = nat] by simp

lemma unat_of_nat_byte [simp]: "unat (of_nat (n mod 256) :: byte) = n mod 256"
  by (simp add: unat_of_nat)

lemma le_val_le_bytes: "le_val (le_bytes k n) = n mod 256 ^ k"
proof (induction k arbitrary: n)
  case 0
  then show ?case by simp
next
  case (Suc k)
  have "le_val (le_bytes (Suc k) n) = n mod 256 + 256 * (n div 256 mod 256 ^ k)"
    by (simp add: Suc.IH)
  also have "\<dots> = n mod (256 * 256 ^ k)"
    by (simp add: mod_mult2_eq)
  finally show ?case by simp
qed

lemma le_val_less: "le_val bs < 256 ^ length bs"
proof (induction bs)
  case Nil
  then show ?case by simp
next
  case (Cons b bs)
  have "unat b + 256 * le_val bs < 256 * (le_val bs + 1)"
    using unat_byte_less [of b] by simp
  also have "\<dots> \<le> 256 * 256 ^ length bs"
    using Cons.IH by (intro mult_le_mono) auto
  finally show ?case by simp
qed

lemma le_bytes_le_val: "le_bytes (length bs) (le_val bs) = bs"
proof (induction bs)
  case Nil
  then show ?case by simp
next
  case (Cons b bs)
  have "(unat b + 256 * le_val bs) mod 256 = unat b"
    using unat_byte_less [of b] by simp
  moreover have "(unat b + 256 * le_val bs) div 256 = le_val bs"
    using unat_byte_less [of b] by simp
  ultimately show ?case
    using Cons.IH by simp
qed

lemma le_val_inj: "length xs = length ys \<Longrightarrow> le_val xs = le_val ys \<Longrightarrow> xs = ys"
  by (metis le_bytes_le_val)

lemma le_val_append: "le_val (xs @ ys) = le_val xs + 256 ^ length xs * le_val ys"
  by (induction xs) (auto simp: algebra_simps)

section \<open>Blocks of a byte string\<close>

text \<open>
  \<open>chunks B m\<close> cuts \<open>m\<close> into its full blocks of \<open>B\<close> elements; a shorter rest at the
  end is dropped. A block size of 0 gives no block.
\<close>

function chunks :: "nat \<Rightarrow> 'a list \<Rightarrow> 'a list list" where
  "chunks B m = (if B = 0 \<or> length m < B then [] else take B m # chunks B (drop B m))"
  by pat_completeness auto
termination
  by (relation "measure (\<lambda>(B, m). length m)") auto

declare chunks.simps [simp del]

lemma chunks_short [simp]: "length m < B \<Longrightarrow> chunks B m = []"
  by (simp add: chunks.simps)

lemma chunks_step: "0 < B \<Longrightarrow> length b = B \<Longrightarrow> chunks B (b @ m) = b # chunks B m"
  by (subst chunks.simps) simp

lemma chunks_append:
  assumes "0 < B" and "B dvd length m"
  shows "chunks B (m @ d) = chunks B m @ chunks B d"
  using assms
proof (induction "length m" arbitrary: m rule: less_induct)
  case less
  show ?case
  proof (cases "m = []")
    case True
    with less.prems show ?thesis by simp
  next
    case False
    with less.prems have len: "B \<le> length m" by (simp add: dvd_imp_le)
    then have split: "m = take B m @ drop B m" and tl: "length (take B m) = B"
      by auto
    have "B dvd length (drop B m)"
      using less.prems len by (simp add: dvd_diff_nat)
    moreover have "length (drop B m) < length m"
      using less.prems len by simp
    ultimately have IH: "chunks B (drop B m @ d) = chunks B (drop B m) @ chunks B d"
      using less by blast
    have "chunks B (m @ d) = take B m # chunks B (drop B m @ d)"
      using chunks_step [OF less.prems(1) tl, of "drop B m @ d"] by (simp flip: append_assoc)
    moreover have "chunks B m = take B m # chunks B (drop B m)"
      using chunks_step [OF less.prems(1) tl, of "drop B m"] by simp
    ultimately show ?thesis using IH by simp
  qed
qed

lemma chunks_take_full:
  assumes "0 < B"
  shows "chunks B (take (B * (length m div B)) m) = chunks B m"
proof -
  let ?n = "B * (length m div B)"
  have n: "?n \<le> length m" by simp
  have "chunks B (take ?n m @ drop ?n m) = chunks B (take ?n m) @ chunks B (drop ?n m)"
    using assms n by (intro chunks_append) auto
  moreover have "length (drop ?n m) < B"
    using assms by (simp add: minus_mult_div_eq_mod)
  ultimately show ?thesis by simp
qed

lemma chunks_lengths: "b \<in> set (chunks B m) \<Longrightarrow> length b = B"
  by (induction B m rule: chunks.induct) (subst (asm) (2) chunks.simps, auto split: if_splits)

lemma concat_chunks:
  assumes "0 < B" and "B dvd length m"
  shows "concat (chunks B m) = m"
  using assms
proof (induction B m rule: chunks.induct)
  case (1 B m)
  show ?case
  proof (cases "length m < B")
    case True
    with "1.prems" have "m = []" by (metis dvd_imp_le length_greater_0_conv not_less)
    with True show ?thesis by simp
  next
    case False
    have "B dvd length (drop B m)"
      using "1.prems" False by (simp add: dvd_diff_nat)
    with 1 False have "concat (chunks B (drop B m)) = drop B m" by simp
    with False "1.prems" show ?thesis by (subst chunks.simps) simp
  qed
qed

section \<open>Positions modulo a ring size\<close>

lemma mod_distinct:
  fixes m i d :: nat
  assumes "m < i" and "i < m + d"
  shows "m mod d \<noteq> i mod d"
proof
  assume "m mod d = i mod d"
  then have "d dvd i - m"
    using assms(1) mod_eq_dvd_iff_nat [of m i d] by simp
  then show False
    using assms by (auto dest: dvd_imp_le)
qed

lemma mod_shift_inj:
  fixes j k m d :: nat
  assumes "j < d" and "k < d"
  shows "(j + m) mod d = (k + m) mod d \<longleftrightarrow> j = k"
  using mod_distinct [of "j + m" "k + m" d] mod_distinct [of "k + m" "j + m" d] assms
  by (cases j k rule: linorder_cases) auto

section \<open>Results\<close>

text \<open>A raised error is \<open>Inl\<close>, a normal return \<open>Inr\<close>; \<open>bind_result\<close> stops at the first error.\<close>

definition bind_result :: "'e + 'a \<Rightarrow> ('a \<Rightarrow> 'e + 'b) \<Rightarrow> 'e + 'b" where
  "bind_result r f = (case r of Inl e \<Rightarrow> Inl e | Inr a \<Rightarrow> f a)"

lemma bind_result_simps [simp]:
  "bind_result (Inl e) f = Inl e"
  "bind_result (Inr a) f = f a"
  by (simp_all add: bind_result_def)

lemma bind_result_Inr:
  "bind_result r f = Inr b \<longleftrightarrow> (\<exists>a. r = Inr a \<and> f a = Inr b)"
  by (cases r) auto

lemma bind_result_Inl:
  "bind_result r f = Inl e \<longleftrightarrow> r = Inl e \<or> (\<exists>a. r = Inr a \<and> f a = Inl e)"
  by (cases r) auto

end
