(* ===== verification/Endian.thy ===== *)
theory Endian
  imports Prelude
begin

text \<open>
  The fixed-width integer accessors of \<^verbatim>\<open>src/crypto/common.h\<close>. A read takes the bytes the
  pointer designates (the accessors read the first 2, 4 or 8 of them), a write returns
  the bytes stored. The \<open>endian_simps\<close> collection has their lengths and round trips.
\<close>

definition ReadLE16 :: "bytes \<Rightarrow> u16" where
  "ReadLE16 p = of_nat (le_val (take 2 p))"

definition ReadLE32 :: "bytes \<Rightarrow> u32" where
  "ReadLE32 p = of_nat (le_val (take 4 p))"

definition ReadLE64 :: "bytes \<Rightarrow> u64" where
  "ReadLE64 p = of_nat (le_val (take 8 p))"

definition WriteLE16 :: "u16 \<Rightarrow> bytes" where
  "WriteLE16 x = le_bytes 2 (unat x)"

definition WriteLE32 :: "u32 \<Rightarrow> bytes" where
  "WriteLE32 x = le_bytes 4 (unat x)"

definition WriteLE64 :: "u64 \<Rightarrow> bytes" where
  "WriteLE64 x = le_bytes 8 (unat x)"

definition ReadBE32 :: "bytes \<Rightarrow> u32" where
  "ReadBE32 p = of_nat (le_val (rev (take 4 p)))"

definition ReadBE64 :: "bytes \<Rightarrow> u64" where
  "ReadBE64 p = of_nat (le_val (rev (take 8 p)))"

definition WriteBE32 :: "u32 \<Rightarrow> bytes" where
  "WriteBE32 x = rev (le_bytes 4 (unat x))"

definition WriteBE64 :: "u64 \<Rightarrow> bytes" where
  "WriteBE64 x = rev (le_bytes 8 (unat x))"

lemmas endian_defs =
  ReadLE16_def ReadLE32_def ReadLE64_def WriteLE16_def WriteLE32_def WriteLE64_def
  ReadBE32_def ReadBE64_def WriteBE32_def WriteBE64_def

lemma length_Write [simp, endian_simps]:
  "length (WriteLE16 a) = 2" "length (WriteLE32 b) = 4" "length (WriteLE64 c) = 8"
  "length (WriteBE32 b) = 4" "length (WriteBE64 c) = 8"
  by (simp_all add: endian_defs)

lemma length_concat_Write [simp, endian_simps]:
  "length (concat (map WriteLE32 ws)) = 4 * length ws"
  "length (concat (map WriteBE32 ws)) = 4 * length ws"
  "length (concat (map WriteBE64 vs)) = 8 * length vs"
proof -
  show "length (concat (map WriteLE32 ws)) = 4 * length ws" by (induction ws) simp_all
  show "length (concat (map WriteBE32 ws)) = 4 * length ws" by (induction ws) simp_all
  show "length (concat (map WriteBE64 vs)) = 8 * length vs" by (induction vs) simp_all
qed

lemma of_nat_le_val_le_bytes:
  fixes w :: "'a::len word"
  assumes "2 ^ LENGTH('a) = (256 :: nat) ^ k"
  shows "of_nat (le_val (le_bytes k (unat w))) = w"
  using assms unsigned_less [of w, where ?'a = nat] by (simp add: le_val_le_bytes)

lemma le_bytes_unat_of_nat:
  assumes "2 ^ LENGTH('a::len) = (256 :: nat) ^ length bs"
  shows "le_bytes (length bs) (unat (of_nat (le_val bs) :: 'a word)) = bs"
  using assms le_val_less [of bs] le_bytes_le_val [of bs] by (simp add: unat_of_nat)

text \<open>Reading back what was written, with any bytes after it.\<close>

lemma Read_Write [simp, endian_simps]:
  "ReadLE16 (WriteLE16 a @ r) = a" "ReadLE32 (WriteLE32 b @ r) = b"
  "ReadLE64 (WriteLE64 c @ r) = c" "ReadBE32 (WriteBE32 b @ r) = b"
  "ReadBE64 (WriteBE64 c @ r) = c"
  by (simp_all add: endian_defs of_nat_le_val_le_bytes)

text \<open>Writing back what was read.\<close>

lemma Write_Read:
  "length x = 2 \<Longrightarrow> WriteLE16 (ReadLE16 x) = x"
  "length y = 4 \<Longrightarrow> WriteLE32 (ReadLE32 y) = y"
  "length z = 8 \<Longrightarrow> WriteLE64 (ReadLE64 z) = z"
  "length y = 4 \<Longrightarrow> WriteBE32 (ReadBE32 y) = y"
  "length z = 8 \<Longrightarrow> WriteBE64 (ReadBE64 z) = z"
  using le_bytes_unat_of_nat [of x, where ?'a = 16] le_bytes_unat_of_nat [of y, where ?'a = 32]
    le_bytes_unat_of_nat [of z, where ?'a = 64] le_bytes_unat_of_nat [of "rev y", where ?'a = 32]
    le_bytes_unat_of_nat [of "rev z", where ?'a = 64]
  by (simp_all add: endian_defs)

end
