(* ===== verification/Hash_Stream.thy ===== *)
theory Hash_Stream
  imports Endian
begin

text \<open>
  The streaming layer the hash classes of \<^verbatim>\<open>src/crypto/\<close> have in common: a chaining
  state \<open>s\<close>, a buffer of one block and a byte counter, \<open>Write\<close> and \<open>Finalize\<close>. The
  locale \<open>md_hash\<close> is the contract a class promises (every \<open>Write\<close> absorbs its data), and
  its lemmas are what clients of a hash class rely on.
\<close>

section \<open>State\<close>

record 's hasher =
  hs :: 's
  hbuf :: bytes
  hbytes :: u64

text \<open>\<open>memcpy(dst + off, src, length src)\<close>.\<close>

definition memcpy_at :: "bytes \<Rightarrow> nat \<Rightarrow> bytes \<Rightarrow> bytes" where
  "memcpy_at dst off src = take off dst @ src @ drop (off + length src) dst"

lemma length_memcpy_at [simp]:
  "off + length src \<le> length dst \<Longrightarrow> length (memcpy_at dst off src) = length dst"
  by (simp add: memcpy_at_def)

section \<open>The \<open>Write\<close> loop shared by the classes\<close>

text \<open>The loop over full chunks, read directly from the source.\<close>

function md_loop :: "nat \<Rightarrow> ('s \<Rightarrow> bytes \<Rightarrow> 's) \<Rightarrow> 's hasher \<Rightarrow> bytes \<Rightarrow> 's hasher \<times> bytes" where
  "md_loop B tr h data =
     (if 0 < B \<and> B \<le> length data
      then md_loop B tr (h\<lparr>hs := tr (hs h) (take B data), hbytes := hbytes h + of_nat B\<rparr>) (drop B data)
      else (h, data))"
  by pat_completeness auto
termination
  by (relation "measure (\<lambda>(B, tr, h, data). length data)") auto

declare md_loop.simps [simp del]

text \<open>Fill the buffer and process it when the data completes a block.\<close>

definition md_fill :: "nat \<Rightarrow> ('s \<Rightarrow> bytes \<Rightarrow> 's) \<Rightarrow> 's hasher \<Rightarrow> bytes
    \<Rightarrow> 's hasher \<times> bytes \<times> nat" where
  "md_fill B tr h data =
     (let bufsize = unat (hbytes h) mod B
      in if bufsize \<noteq> 0 \<and> B \<le> bufsize + length data
         then (let buf = memcpy_at (hbuf h) bufsize (take (B - bufsize) data)
               in (h\<lparr>hs := tr (hs h) buf, hbuf := buf, hbytes := hbytes h + of_nat (B - bufsize)\<rparr>,
                   drop (B - bufsize) data, 0))
         else (h, data, bufsize))"

text \<open>Fill the buffer with what remains.\<close>

definition md_rest :: "'s hasher \<Rightarrow> bytes \<Rightarrow> nat \<Rightarrow> 's hasher" where
  "md_rest h data bufsize =
     (if data \<noteq> []
      then h\<lparr>hbuf := memcpy_at (hbuf h) bufsize data, hbytes := hbytes h + of_nat (length data)\<rparr>
      else h)"

definition md_write :: "nat \<Rightarrow> ('s \<Rightarrow> bytes \<Rightarrow> 's) \<Rightarrow> 's hasher \<Rightarrow> bytes \<Rightarrow> 's hasher" where
  "md_write B tr h data =
     (case md_fill B tr h data of (h1, data1, bufsize) \<Rightarrow>
      case md_loop B tr h1 data1 of (h2, data2) \<Rightarrow>
      md_rest h2 data2 bufsize)"

section \<open>What a hash state represents\<close>

text \<open>
  \<open>absorbed B tr s0 h m\<close>: the object \<open>h\<close> has absorbed the message \<open>m\<close>, starting at the
  chaining value \<open>s0\<close>: its chaining state is the fold of the full blocks, its buffer
  starts with the rest, its counter is the length modulo \<open>2 ^ 64\<close>.
\<close>

definition absorbed :: "nat \<Rightarrow> ('s \<Rightarrow> bytes \<Rightarrow> 's) \<Rightarrow> 's \<Rightarrow> 's hasher \<Rightarrow> bytes \<Rightarrow> bool" where
  "absorbed B tr s0 h m \<longleftrightarrow>
     hbytes h = of_nat (length m) \<and> length (hbuf h) = B
     \<and> hs h = foldl tr s0 (chunks B m)
     \<and> take (length m mod B) (hbuf h) = drop (B * (length m div B)) m"

lemma absorbed_init:
  "0 < B \<Longrightarrow> length buf0 = B \<Longrightarrow> absorbed B tr s0 \<lparr>hs = s0, hbuf = buf0, hbytes = 0\<rparr> []"
  by (simp add: absorbed_def)

lemma absorbed_bufsize:
  assumes "absorbed B tr s0 h m" and "B dvd 2 ^ 64"
  shows "unat (hbytes h) mod B = length m mod B"
  using assms by (simp add: absorbed_def unat_of_nat mod_mod_cancel)

lemma chunks_complete:
  assumes "0 < B" and "length m mod B + length x = B"
  shows "chunks B (m @ x) = chunks B m @ [drop (B * (length m div B)) m @ x]"
proof -
  let ?n = "B * (length m div B)"
  have n: "?n \<le> length m" by simp
  have "chunks B (m @ x) = chunks B (take ?n m @ (drop ?n m @ x))"
    by (simp flip: append_assoc)
  also have "\<dots> = chunks B (take ?n m) @ chunks B (drop ?n m @ x)"
    using assms(1) n by (intro chunks_append) auto
  finally have "chunks B (m @ x) = chunks B (take ?n m) @ chunks B (drop ?n m @ x)" .
  moreover have "length (drop ?n m @ x) = B"
    using assms by (simp add: minus_mult_div_eq_mod)
  then have "chunks B (drop ?n m @ x) = [drop ?n m @ x]"
    using chunks_step [of B "drop ?n m @ x" "[]"] assms(1) by simp
  ultimately show ?thesis
    using chunks_take_full [OF assms(1), of m] by simp
qed

text \<open>The three ways \<open>Write\<close> moves data into the state.\<close>

lemma absorbed_fill:
  assumes abs: "absorbed B tr s0 h m" and "0 < B"
    and x: "length m mod B + length x = B"
    and buf: "buf = memcpy_at (hbuf h) (length m mod B) x"
  shows "absorbed B tr s0 (h\<lparr>hs := tr (hs h) buf, hbuf := buf, hbytes := hbytes h + of_nat (length x)\<rparr>) (m @ x)"
proof -
  have "buf = drop (B * (length m div B)) m @ x"
    using abs x by (simp add: buf memcpy_at_def absorbed_def)
  moreover have "length buf = B"
    using abs x by (simp add: buf absorbed_def)
  moreover have "(length m + length x) mod B = 0"
    using x by (metis mod_add_left_eq mod_self)
  ultimately show ?thesis
    using abs assms(2) x
    by (simp add: absorbed_def chunks_complete) (simp add: minus_mod_eq_mult_div [symmetric])
qed

lemma absorbed_blocks:
  assumes "absorbed B tr s0 h m" and "0 < B" and "B dvd length m" and "B dvd length x"
  shows "absorbed B tr s0 (h\<lparr>hs := foldl tr (hs h) (chunks B x), hbytes := hbytes h + of_nat (length x)\<rparr>) (m @ x)"
  using assms(1,2,3,4) by (auto simp: absorbed_def chunks_append distrib_left elim!: dvdE)

lemma absorbed_rest:
  assumes abs: "absorbed B tr s0 h m" and "0 < B" and x: "length m mod B + length x < B"
  shows "absorbed B tr s0 (md_rest h x (length m mod B)) (m @ x)"
proof -
  let ?k = "length m mod B" and ?n = "B * (length m div B)"
  have md: "(length m + length x) mod B = ?k + length x"
    using x by (metis mod_add_left_eq mod_less)
  have dv: "(length m + length x) div B = length m div B"
  proof -
    have "length m + length x = (?k + length x) + B * (length m div B)"
      by simp
    then have "(length m + length x) div B = (?k + length x) div B + length m div B"
      using assms(2) by (metis div_mult_self2 less_not_refl2 add.commute)
    then show ?thesis using x by simp
  qed
  have n: "?n \<le> length m" by simp
  have "chunks B (m @ x) = chunks B m"
    using chunks_take_full [OF assms(2), of "m @ x"] chunks_take_full [OF assms(2), of m] n dv by simp
  then show ?thesis
    using abs x md dv n by (auto simp: absorbed_def md_rest_def memcpy_at_def minus_mult_div_eq_mod)
qed

text \<open>The loop absorbs every full block of the data and returns what is left.\<close>

lemma md_loop_absorbed:
  assumes "absorbed B tr s0 h m" and "0 < B" and "B dvd length m"
  shows "\<exists>h' x r. md_loop B tr h data = (h', r) \<and> data = x @ r \<and> length r < B
    \<and> B dvd length (m @ x) \<and> absorbed B tr s0 h' (m @ x)"
  using assms
proof (induction B tr h data arbitrary: m rule: md_loop.induct)
  case (1 B tr h data)
  show ?case
  proof (cases "B \<le> length data")
    case True
    let ?b = "take B data"
    let ?h = "h\<lparr>hs := tr (hs h) ?b, hbytes := hbytes h + of_nat B\<rparr>"
    have b: "chunks B ?b = [?b]"
      using chunks_step [of B ?b "[]"] True 1(3) by simp
    have "absorbed B tr s0 (h\<lparr>hs := foldl tr (hs h) (chunks B ?b), hbytes := hbytes h + of_nat (length ?b)\<rparr>) (m @ ?b)"
      using 1 True by (intro absorbed_blocks) auto
    then have "absorbed B tr s0 ?h (m @ ?b)"
      using True b by (simp add: min_absorb2)
    moreover have "B dvd length (m @ ?b)"
      using 1 True by (simp add: min_def)
    ultimately obtain h' x r where "md_loop B tr ?h (drop B data) = (h', r)"
      and d: "drop B data = x @ r" and "length r < B"
      and "B dvd length ((m @ ?b) @ x)" and "absorbed B tr s0 h' ((m @ ?b) @ x)"
      using 1(1)[of "m @ ?b"] True 1(3) by blast
    moreover have "data = (?b @ x) @ r"
      using d by (metis append_assoc append_take_drop_id)
    ultimately show ?thesis
      using True 1(3) by (subst md_loop.simps) (metis append_assoc)
  next
    case False
    then show ?thesis
      using 1 by (subst md_loop.simps) auto
  qed
qed

text \<open>The loop as one bulk update, the way a transform of several blocks does it.\<close>

lemma md_loop_bulk:
  assumes "0 < B"
  shows "md_loop B tr h data =
    (h\<lparr>hs := foldl tr (hs h) (chunks B data), hbytes := hbytes h + of_nat (B * (length data div B))\<rparr>,
     drop (B * (length data div B)) data)"
  using assms
proof (induction B tr h data rule: md_loop.induct)
  case (1 B tr h data)
  show ?case
  proof (cases "B \<le> length data")
    case True
    then have d: "length data div B = Suc ((length data - B) div B)"
      using 1(2) by (simp add: le_div_geq)
    have c: "chunks B data = take B data # chunks B (drop B data)"
      using True 1(2) by (subst chunks.simps) simp
    show ?thesis
      using 1 True by (subst md_loop.simps) (simp add: d c algebra_simps)
  next
    case False
    then show ?thesis
      by (subst md_loop.simps) simp
  qed
qed

text \<open>Two transforms that agree on the states an invariant admits give the same \<open>Write\<close>.\<close>

lemma foldl_tr_cong:
  assumes "\<And>s b. I s \<Longrightarrow> tr s b = tr' s b" and "\<And>s b. I s \<Longrightarrow> I (tr' s b)" and "I s"
  shows "foldl tr s bs = foldl tr' s bs"
  using assms by (induction bs arbitrary: s) auto

lemma md_write_cong:
  assumes "\<And>s b. I s \<Longrightarrow> tr s b = tr' s b" and "\<And>s b. I s \<Longrightarrow> I (tr' s b)" and "I (hs h)" and "0 < B"
  shows "md_write B tr h data = md_write B tr' h data"
proof -
  have fill: "md_fill B tr h data = md_fill B tr' h data"
    using assms by (simp add: md_fill_def Let_def)
  moreover have "I (hs h1)" if "md_fill B tr' h data = (h1, d1, n)" for h1 d1 n
    using that assms by (auto simp: md_fill_def Let_def split: if_splits)
  ultimately show ?thesis
    using foldl_tr_cong [of I tr tr', OF assms(1,2)] assms(4)
    by (simp add: md_write_def md_loop_bulk split: prod.splits)
qed

lemma md_write_absorbed:
  assumes "absorbed B tr s0 h m" and "0 < B" and "B dvd 2 ^ 64"
  shows "absorbed B tr s0 (md_write B tr h data) (m @ data)"
proof -
  let ?k = "length m mod B"
  have k: "unat (hbytes h) mod B = ?k"
    using absorbed_bufsize [OF assms(1,3)] .
  have kB: "?k < B" using assms(2) by simp
  consider (short) "?k \<noteq> 0" "?k + length data < B" | (aligned) "?k = 0" | (fill) "?k \<noteq> 0" "B \<le> ?k + length data"
    by linarith
  then show ?thesis
  proof cases
    case short
    then have "md_write B tr h data = md_rest h data ?k"
      using k by (simp add: md_write_def md_fill_def md_loop.simps)
    then show ?thesis
      using absorbed_rest [OF assms(1,2)] short by simp
  next
    case aligned
    then obtain h' x r where "md_loop B tr h data = (h', r)" and d: "data = x @ r" "length r < B"
      and dv: "B dvd length (m @ x)" and "absorbed B tr s0 h' (m @ x)"
      using md_loop_absorbed [OF assms(1,2)] by (metis mod_eq_0_iff_dvd)
    moreover have "md_fill B tr h data = (h, data, 0)"
      using k aligned by (simp add: md_fill_def)
    moreover have "length (m @ x) mod B = 0" using dv by simp
    ultimately show ?thesis
      using absorbed_rest [of B tr s0 h' "m @ x" r] assms(2) by (simp add: md_write_def)
  next
    case fill
    let ?x = "take (B - ?k) data"
    let ?buf = "memcpy_at (hbuf h) ?k ?x"
    let ?h = "h\<lparr>hs := tr (hs h) ?buf, hbuf := ?buf, hbytes := hbytes h + of_nat (B - ?k)\<rparr>"
    have len: "length ?x = B - ?k" using fill by auto
    then have x: "?k + length ?x = B" using kB by simp
    have abs: "absorbed B tr s0 ?h (m @ ?x)"
      using absorbed_fill [OF assms(1,2) x refl] len by simp
    have "B dvd length (m @ ?x)"
      using x by (metis dvd_refl length_append mod_add_left_eq mod_eq_0_iff_dvd)
    then obtain h' y r where "md_loop B tr ?h (drop (B - ?k) data) = (h', r)"
      and d: "drop (B - ?k) data = y @ r" "length r < B"
      and dv: "B dvd length ((m @ ?x) @ y)" and abs': "absorbed B tr s0 h' ((m @ ?x) @ y)"
      using md_loop_absorbed [OF abs assms(2)] by blast
    moreover have "md_fill B tr h data = (?h, drop (B - ?k) data, 0)"
      using k fill by (simp add: md_fill_def Let_def)
    moreover have "data = ?x @ y @ r"
      using d by (metis append_take_drop_id)
    moreover have "length ((m @ ?x) @ y) mod B = 0" using dv by simp
    ultimately show ?thesis
      using absorbed_rest [OF abs' assms(2), of r] by (simp add: md_write_def)
  qed
qed

text \<open>
  A one byte, \<open>z\<close> zeros and an \<open>L\<close>-byte length complete the last block, when \<open>z\<close> is computed
  the way every \<open>Finalize\<close> does (119 for blocks of 64 bytes, 239 for blocks of 128).
\<close>

lemma padded_length:
  fixes B L n :: nat
  assumes "L < B" and "c = 2 * B - 1 - L"
  shows "B dvd n + 1 + (c - n mod B) mod B + L"
proof -
  let ?x = "c - n mod B"
  have r: "n mod B < B" using assms(1) by simp
  have "r + (1 + (c - r) + L) = 2 * B" if "r < B" for r
    using assms that by linarith
  then have "n mod B + (1 + ?x + L) = 2 * B" using r by blast
  moreover have "n + 1 + ?x + L = B * (n div B) + (n mod B + (1 + ?x + L))"
    using mult_div_mod_eq [of B n] by simp
  ultimately have "n + 1 + ?x + L = B * (n div B + 2)"
    by (simp only: distrib_left mult.commute)
  then have "(n + 1 + ?x + L) mod B = 0" by simp
  moreover have "(n + 1 + ?x mod B + L) mod B = (n + 1 + ?x + L) mod B"
    by (metis mod_add_left_eq mod_add_right_eq)
  ultimately show ?thesis by auto
qed

lemma push_bit_3_of_nat: "push_bit 3 (of_nat n :: u64) = of_nat (8 * n)"
  by (simp add: push_bit_eq_mult)

section \<open>The contract of a hash class\<close>

text \<open>
  A hash class offers its \<open>Write\<close> as \<open>wr\<close>; \<open>pad\<close> and \<open>sizedesc\<close> are the bytes its \<open>Finalize\<close> feeds to
  \<open>Write\<close>, as functions of the counter, and \<open>out\<close> serialises the chaining state. The
  contract is that \<open>wr\<close> absorbs its data and that padding completes the last block.
\<close>

locale md_hash =
  fixes B :: nat
    and tr :: "'s \<Rightarrow> bytes \<Rightarrow> 's"
    and s0 :: 's
    and wr :: "'s hasher \<Rightarrow> bytes \<Rightarrow> 's hasher"
    and pad :: "u64 \<Rightarrow> bytes"
    and sizedesc :: "u64 \<Rightarrow> bytes"
    and out :: "'s \<Rightarrow> bytes"
  assumes B_pos: "0 < B"
    and write_absorbs: "absorbed B tr s0 h m \<Longrightarrow> absorbed B tr s0 (wr h d) (m @ d)"
    and pad_completes: "B dvd length m + length (pad (of_nat (length m))) + length (sizedesc (of_nat (length m)))"
begin

lemma writes_absorb:
  "absorbed B tr s0 h m \<Longrightarrow> absorbed B tr s0 (foldl wr h ds) (m @ concat ds)"
proof (induction ds arbitrary: h m)
  case Nil
  then show ?case by simp
next
  case (Cons d ds)
  then show ?case
    using write_absorbs [of h m d] Cons.IH [of "wr h d" "m @ d"] by simp
qed

lemma final_state:
  assumes "absorbed B tr s0 h m"
  shows "hs (wr (wr h (pad (hbytes h))) (sizedesc (hbytes h)))
    = foldl tr s0 (chunks B (m @ pad (of_nat (length m)) @ sizedesc (of_nat (length m))))"
proof -
  have b: "hbytes h = of_nat (length m)" using assms by (simp add: absorbed_def)
  have "absorbed B tr s0 (wr (wr h (pad (hbytes h))) (sizedesc (hbytes h)))
    ((m @ pad (hbytes h)) @ sizedesc (hbytes h))"
    by (intro write_absorbs assms)
  then show ?thesis by (simp add: absorbed_def b)
qed

text \<open>
  Whatever the chunking of the message and whatever the uninitialised buffer holds, the
  final state is the fold of the compression function over the padded message, all of
  which is made of full blocks.
\<close>

lemma streamed_digest:
  assumes "length buf0 = B" and "h = foldl wr \<lparr>hs = s0, hbuf = buf0, hbytes = 0\<rparr> ds"
  shows "out (hs (wr (wr h (pad (hbytes h))) (sizedesc (hbytes h))))
    = out (foldl tr s0 (chunks B (concat ds @ pad (of_nat (length (concat ds))) @ sizedesc (of_nat (length (concat ds))))))"
  using final_state [of h "concat ds"] writes_absorb [OF absorbed_init [OF B_pos assms(1), of tr s0], of ds] assms(2)
  by simp

lemma padded_blocks:
  "concat (chunks B (m @ pad (of_nat (length m)) @ sizedesc (of_nat (length m))))
    = m @ pad (of_nat (length m)) @ sizedesc (of_nat (length m))"
  using pad_completes [of m] B_pos by (intro concat_chunks) (simp_all add: add.assoc)

end

end
