(* ===== verification/Sha2_Rounds.thy ===== *)
theory Sha2_Rounds
  imports Hash_Stream
begin

text \<open>
  The round structure SHA-256 and SHA-512 share. The sources unroll the rounds over
  eight registers that stay in place while their roles rotate, and keep only the last
  sixteen words of the message schedule. The reference is the textbook form: registers
  that shift by one place in every round, and a schedule with all its words. The locale
  \<open>sha2_rounds\<close> proves once that the first computes the second.
\<close>

section \<open>Reference form\<close>

type_synonym 'w regs8 = "'w \<times> 'w \<times> 'w \<times> 'w \<times> 'w \<times> 'w \<times> 'w \<times> 'w"

fun sha2_schedule :: "('a::len word \<Rightarrow> 'a word) \<Rightarrow> ('a word \<Rightarrow> 'a word) \<Rightarrow> (nat \<Rightarrow> 'a word) \<Rightarrow> nat \<Rightarrow> 'a word" where
  "sha2_schedule s0 s1 M t =
     (if t < 16 then M t
      else s1 (sha2_schedule s0 s1 M (t - 2)) + sha2_schedule s0 s1 M (t - 7)
         + s0 (sha2_schedule s0 s1 M (t - 15)) + sha2_schedule s0 s1 M (t - 16))"

declare sha2_schedule.simps [simp del]

fun sha2_ref_round :: "('a::len word \<Rightarrow> 'a word) \<Rightarrow> ('a word \<Rightarrow> 'a word) \<Rightarrow> 'a word \<Rightarrow> 'a word
    \<Rightarrow> 'a word regs8 \<Rightarrow> 'a word regs8" where
  "sha2_ref_round S0 S1 k w (a, b, c, d, e, f, g, h) =
     (let T1 = h + S1 e + ((e AND f) XOR (NOT e AND g)) + k + w;
          T2 = S0 a + ((a AND b) XOR (a AND c) XOR (b AND c))
      in (T1 + T2, a, b, c, d + T1, e, f, g))"

section \<open>Registers that stay in place\<close>

text \<open>In round \<open>i\<close> the role \<open>j\<close> (0 for \<open>a\<close>, 7 for \<open>h\<close>) is played by the register \<open>rot8 i j\<close>.\<close>

definition rot8 :: "nat \<Rightarrow> nat \<Rightarrow> nat" where
  "rot8 i j = (j + 7 * i) mod 8"

definition regs8 :: "nat \<Rightarrow> 'a list \<Rightarrow> 'a regs8" where
  "regs8 i v = (v ! rot8 i 0, v ! rot8 i 1, v ! rot8 i 2, v ! rot8 i 3,
                v ! rot8 i 4, v ! rot8 i 5, v ! rot8 i 6, v ! rot8 i 7)"

lemma rot8_less [simp]: "rot8 i j < 8"
  by (simp add: rot8_def)

lemma rot8_inj: "j < 8 \<Longrightarrow> k < 8 \<Longrightarrow> rot8 i j = rot8 i k \<longleftrightarrow> j = k"
  by (simp add: rot8_def mod_shift_inj)

lemma rot8_Suc: "rot8 (Suc i) j = rot8 i (j + 7)"
  by (simp add: rot8_def algebra_simps)

lemma rot8_mod: "rot8 i (j mod 8) = rot8 i j"
  by (simp add: rot8_def mod_add_left_eq)

lemma regs8_step:
  assumes "length v = 8" and "regs8 i v = (a, b, c, d, e, f, g, h)"
  shows "regs8 (Suc i) (v[rot8 i 3 := d', rot8 i 7 := h']) = (h', a, b, c, d', e, f, g)"
proof -
  have "rot8 i (1 + 7) = rot8 i 0" "rot8 i (2 + 7) = rot8 i 1" "rot8 i (3 + 7) = rot8 i 2"
    "rot8 i (4 + 7) = rot8 i 3" "rot8 i (5 + 7) = rot8 i 4" "rot8 i (6 + 7) = rot8 i 5"
    "rot8 i (7 + 7) = rot8 i 6"
    using rot8_mod [of i 8] rot8_mod [of i 9] rot8_mod [of i 10] rot8_mod [of i 11]
      rot8_mod [of i 12] rot8_mod [of i 13] rot8_mod [of i 14] by simp_all
  then show ?thesis
    using assms by (simp add: regs8_def rot8_Suc nth_list_update rot8_inj)
qed

lemma regs8_0: "i mod 8 = 0 \<Longrightarrow> regs8 i v = (v ! 0, v ! 1, v ! 2, v ! 3, v ! 4, v ! 5, v ! 6, v ! 7)"
proof -
  assume "i mod 8 = 0"
  then obtain q where "i = 8 * q" by (auto simp: mod_eq_0_iff_dvd elim: dvdE)
  then have "rot8 i j = j mod 8" for j
    using mod_mult_self2 [of j 8 "7 * q"] by (simp add: rot8_def)
  then show ?thesis by (simp add: regs8_def)
qed

lemma Ch_xor: "(g :: 'a::len word) XOR (e AND (f XOR g)) = (e AND f) XOR (NOT e AND g)"
  by (rule bit_word_eqI) (auto simp: bit_simps)

lemma Maj_xor: "((a :: 'a::len word) AND b) OR (c AND (a OR b)) = (a AND b) XOR (a AND c) XOR (b AND c)"
  by (rule bit_word_eqI) (auto simp: bit_simps)

text \<open>A rotation written with two shifts.\<close>

lemma rotr_shifts:
  fixes x :: "'a::len word"
  assumes "0 < k" and "k < LENGTH('a)" and "l = LENGTH('a) - k"
  shows "drop_bit k x OR push_bit l x = word_rotr k x"
proof (rule bit_word_eqI)
  fix n assume n: "n < LENGTH('a)"
  show "bit (drop_bit k x OR push_bit l x) n = bit (word_rotr k x) n"
  proof (cases "n + k < LENGTH('a)")
    case True
    with assms n show ?thesis
      by (auto simp: bit_simps bit_word_rotr_iff add.commute)
  next
    case False
    with assms n have "(n + k) mod LENGTH('a) = n - l" and "\<not> bit x (n + k)"
      by (auto simp: le_mod_geq dest: bit_imp_le_length)
    with assms n False show ?thesis
      by (auto simp: bit_simps bit_word_rotr_iff add.commute)
  qed
qed

section \<open>Equivalence of the two forms\<close>

locale sha2_rounds =
  fixes N :: nat
    and S0 S1 s0 s1 :: "'a::len word \<Rightarrow> 'a word"
    and K :: "'a word list"
    and rd :: "bytes \<Rightarrow> nat \<Rightarrow> 'a word"
    and step :: "bytes \<Rightarrow> nat \<Rightarrow> 'a word list \<times> 'a word list \<Rightarrow> 'a word list \<times> 'a word list"
  assumes N_rounds: "N mod 8 = 0"
    and step_word:
      "wi = (if i < 16 then rd chunk i
             else w ! (i mod 16) + (s1 (w ! ((i + 14) mod 16)) + w ! ((i + 9) mod 16) + s0 (w ! ((i + 1) mod 16)))) \<Longrightarrow>
       snd (step chunk i (v, w)) = (if i < N - 2 then w[i mod 16 := wi] else w)"
    and step_regs:
      "wi = (if i < 16 then rd chunk i
             else w ! (i mod 16) + (s1 (w ! ((i + 14) mod 16)) + w ! ((i + 9) mod 16) + s0 (w ! ((i + 1) mod 16)))) \<Longrightarrow>
       regs8 i v = (a, b, c, d, e, f, g, h) \<Longrightarrow>
       t1 = h + S1 e + (g XOR (e AND (f XOR g))) + K ! i + wi \<Longrightarrow>
       t2 = S0 a + ((a AND b) OR (c AND (a OR b))) \<Longrightarrow>
       fst (step chunk i (v, w)) = v[rot8 i 3 := d + t1, rot8 i 7 := t1 + t2]"
begin

abbreviation W :: "bytes \<Rightarrow> nat \<Rightarrow> 'a word" where
  "W chunk \<equiv> sha2_schedule s0 s1 (rd chunk)"

abbreviation ref :: "bytes \<Rightarrow> nat \<Rightarrow> 'a word regs8 \<Rightarrow> 'a word regs8" where
  "ref chunk n r \<equiv> foldl (\<lambda>r t. sha2_ref_round S0 S1 (K ! t) (W chunk t) r) r [0..<n]"

text \<open>The sixteen words kept are the last sixteen of the schedule.\<close>

definition window :: "bytes \<Rightarrow> nat \<Rightarrow> 'a word list \<Rightarrow> bool" where
  "window chunk i w \<longleftrightarrow> length w = 16 \<and>
     (\<forall>m. m < i \<and> m < N - 2 \<and> min i (N - 2) \<le> m + 16 \<longrightarrow> w ! (m mod 16) = W chunk m)"

lemma word_of_window:
  assumes "window chunk i w" and "i < N"
  shows "(if i < 16 then rd chunk i
      else w ! (i mod 16) + (s1 (w ! ((i + 14) mod 16)) + w ! ((i + 9) mod 16) + s0 (w ! ((i + 1) mod 16))))
    = W chunk i"
proof (cases "i < 16")
  case True
  then show ?thesis by (simp add: sha2_schedule.simps)
next
  case False
  have at: "w ! (m mod 16) = W chunk m" if "m < i" "i \<le> m + 16" "m < N - 2" for m
    using assms(1) that by (auto simp: window_def)
  have m: "i mod 16 = (i - 16) mod 16" "(i + 14) mod 16 = (i - 2) mod 16"
    "(i + 9) mod 16 = (i - 7) mod 16" "(i + 1) mod 16 = (i - 15) mod 16"
    using False mod_add_self2 [of "i - 16" 16] mod_add_self2 [of "i - 2" 16]
      mod_add_self2 [of "i - 7" 16] mod_add_self2 [of "i - 15" 16] by (simp_all add: add.commute)
  show ?thesis
    using False assms(2) unfolding m
    by (simp add: at sha2_schedule.simps [of s0 s1 "rd chunk" i])
qed

lemma window_step:
  assumes "window chunk i w" and "i < N"
  shows "window chunk (Suc i) (snd (step chunk i (v, w)))"
proof (cases "i < N - 2")
  case True
  have "snd (step chunk i (v, w)) = w[i mod 16 := W chunk i]"
    using step_word [OF word_of_window [OF assms, symmetric], of v] True by simp
  moreover have "i mod 16 \<noteq> m mod 16" if "m < i" "i \<le> 15 + m" for m
    using that mod_distinct [of m i 16] by simp
  ultimately show ?thesis
    using assms True by (auto simp: window_def nth_list_update less_Suc_eq)
next
  case False
  have "snd (step chunk i (v, w)) = w"
    using step_word [OF word_of_window [OF assms, symmetric], of v] False by simp
  then show ?thesis
    using assms False by (auto simp: window_def min_def)
qed

lemma rounds_equiv:
  assumes "length v = 8" and "length w = 16" and "n \<le> N"
  shows "\<exists>v' w'. foldl (\<lambda>vw i. step chunk i vw) (v, w) [0..<n] = (v', w') \<and> length v' = 8
    \<and> window chunk n w' \<and> regs8 n v' = ref chunk n (regs8 0 v)"
  using assms(3)
proof (induction n)
  case 0
  then show ?case using assms by (simp add: window_def)
next
  case (Suc n)
  then obtain v' w' where fold: "foldl (\<lambda>vw i. step chunk i vw) (v, w) [0..<n] = (v', w')"
    and len: "length v' = 8" and win: "window chunk n w'" and regs: "regs8 n v' = ref chunk n (regs8 0 v)"
    by auto
  obtain a b c d e f g h where r: "regs8 n v' = (a, b, c, d, e, f, g, h)"
    by (cases "regs8 n v'") auto
  define t1 where "t1 = h + S1 e + (g XOR (e AND (f XOR g))) + K ! n + W chunk n"
  define t2 where "t2 = S0 a + ((a AND b) OR (c AND (a OR b)))"
  have wi: "W chunk n = (if n < 16 then rd chunk n
      else w' ! (n mod 16) + (s1 (w' ! ((n + 14) mod 16)) + w' ! ((n + 9) mod 16) + s0 (w' ! ((n + 1) mod 16))))"
    using word_of_window [OF win] Suc.prems by simp
  have fst: "fst (step chunk n (v', w')) = v'[rot8 n 3 := d + t1, rot8 n 7 := t1 + t2]"
    using step_regs [OF wi r t1_def t2_def] .
  have "regs8 (Suc n) (fst (step chunk n (v', w'))) = (t1 + t2, a, b, c, d + t1, e, f, g)"
    unfolding fst using regs8_step [OF len r] .
  moreover have "ref chunk (Suc n) (regs8 0 v) = (t1 + t2, a, b, c, d + t1, e, f, g)"
    using trans [OF regs [symmetric] r] by (simp add: t1_def t2_def Ch_xor Maj_xor Let_def)
  moreover have "window chunk (Suc n) (snd (step chunk n (v', w')))"
    using window_step [OF win] Suc.prems by simp
  moreover have "length (fst (step chunk n (v', w'))) = 8"
    using fst len by simp
  ultimately show ?case
    using fold by (cases "step chunk n (v', w')") auto
qed

lemma all_rounds:
  assumes "length v = 8" and "length w = 16"
  shows "\<exists>a b c d e f g h. fst (foldl (\<lambda>vw i. step chunk i vw) (v, w) [0..<N]) = [a, b, c, d, e, f, g, h]
    \<and> ref chunk N (v ! 0, v ! 1, v ! 2, v ! 3, v ! 4, v ! 5, v ! 6, v ! 7) = (a, b, c, d, e, f, g, h)"
proof -
  obtain v' w' where fold: "foldl (\<lambda>vw i. step chunk i vw) (v, w) [0..<N] = (v', w')"
    and len: "length v' = 8" and regs: "regs8 N v' = ref chunk N (regs8 0 v)"
    using rounds_equiv [OF assms, of N] by blast
  from len obtain a b c d e f g h where v': "v' = [a, b, c, d, e, f, g, h]"
    by (auto simp: length_Suc_conv numeral_eq_Suc)
  with fold regs show ?thesis
    by (simp add: regs8_0 N_rounds)
qed

end

end
