(* ===== verification/Sha256.thy ===== *)
theory Sha256
  imports Sha2_Rounds
begin

text \<open>
  \<^verbatim>\<open>src/crypto/sha256.cpp\<close>: the portable \<open>sha256::Transform\<close> and the class \<open>CSHA256\<close>. The
  unrolled rounds of the source are the 64 steps of \<open>sha256_step\<close>: the same registers
  \<open>a..h\<close> and words \<open>w0..w15\<close> are updated in place, and the arguments of the call in round
  \<open>i\<close> are the registers \<open>rot8 i 0 .. rot8 i 7\<close>. The theorems: one block transform computes
  the compression function of the standard; \<open>Write\<close> and \<open>Finalize\<close> compute its digest of
  all the bytes written.
\<close>

section \<open>The block transform\<close>

definition sha256_Ch :: "u32 \<Rightarrow> u32 \<Rightarrow> u32 \<Rightarrow> u32" where
  "sha256_Ch x y z = z XOR (x AND (y XOR z))"

definition sha256_Maj :: "u32 \<Rightarrow> u32 \<Rightarrow> u32 \<Rightarrow> u32" where
  "sha256_Maj x y z = (x AND y) OR (z AND (x OR y))"

definition sha256_Sigma0 :: "u32 \<Rightarrow> u32" where
  "sha256_Sigma0 x = (drop_bit 2 x OR push_bit 30 x) XOR (drop_bit 13 x OR push_bit 19 x)
     XOR (drop_bit 22 x OR push_bit 10 x)"

definition sha256_Sigma1 :: "u32 \<Rightarrow> u32" where
  "sha256_Sigma1 x = (drop_bit 6 x OR push_bit 26 x) XOR (drop_bit 11 x OR push_bit 21 x)
     XOR (drop_bit 25 x OR push_bit 7 x)"

definition sha256_sigma0 :: "u32 \<Rightarrow> u32" where
  "sha256_sigma0 x = (drop_bit 7 x OR push_bit 25 x) XOR (drop_bit 18 x OR push_bit 14 x) XOR drop_bit 3 x"

definition sha256_sigma1 :: "u32 \<Rightarrow> u32" where
  "sha256_sigma1 x = (drop_bit 17 x OR push_bit 15 x) XOR (drop_bit 19 x OR push_bit 13 x) XOR drop_bit 10 x"

text \<open>\<open>Round\<close> returns the new values of its two reference parameters \<open>d\<close> and \<open>h\<close>.\<close>

definition sha256_Round :: "u32 \<Rightarrow> u32 \<Rightarrow> u32 \<Rightarrow> u32 \<Rightarrow> u32 \<Rightarrow> u32 \<Rightarrow> u32 \<Rightarrow> u32 \<Rightarrow> u32 \<Rightarrow> u32 \<Rightarrow> u32 \<times> u32" where
  "sha256_Round a b c d e f g h k w =
     (let t1 = h + sha256_Sigma1 e + sha256_Ch e f g + k + w;
          t2 = sha256_Sigma0 a + sha256_Maj a b c
      in (d + t1, t1 + t2))"

definition sha256_Initialize :: "u32 list" where
  "sha256_Initialize =
     [0x6a09e667, 0xbb67ae85, 0x3c6ef372, 0xa54ff53a, 0x510e527f, 0x9b05688c, 0x1f83d9ab, 0x5be0cd19]"

text \<open>The constants of the 64 calls of \<open>Round\<close>, in order; a row is one turn of the eight register names.\<close>

definition sha256_K :: "u32 list" where
  "sha256_K = concat
     [[0x428a2f98, 0x71374491, 0xb5c0fbcf, 0xe9b5dba5, 0x3956c25b, 0x59f111f1, 0x923f82a4, 0xab1c5ed5],
      [0xd807aa98, 0x12835b01, 0x243185be, 0x550c7dc3, 0x72be5d74, 0x80deb1fe, 0x9bdc06a7, 0xc19bf174],
      [0xe49b69c1, 0xefbe4786, 0x0fc19dc6, 0x240ca1cc, 0x2de92c6f, 0x4a7484aa, 0x5cb0a9dc, 0x76f988da],
      [0x983e5152, 0xa831c66d, 0xb00327c8, 0xbf597fc7, 0xc6e00bf3, 0xd5a79147, 0x06ca6351, 0x14292967],
      [0x27b70a85, 0x2e1b2138, 0x4d2c6dfc, 0x53380d13, 0x650a7354, 0x766a0abb, 0x81c2c92e, 0x92722c85],
      [0xa2bfe8a1, 0xa81a664b, 0xc24b8b70, 0xc76c51a3, 0xd192e819, 0xd6990624, 0xf40e3585, 0x106aa070],
      [0x19a4c116, 0x1e376c08, 0x2748774c, 0x34b0bcb5, 0x391c0cb3, 0x4ed8aa4a, 0x5b9cca4f, 0x682e6ff3],
      [0x748f82ee, 0x78a5636f, 0x84c87814, 0x8cc70208, 0x90befffa, 0xa4506ceb, 0xbef9a3f7, 0xc67178f2]]"

text \<open>
  The word argument of the call in round \<open>i\<close>: a word of the chunk in the first sixteen
  rounds, the updated schedule word after that. The last two rounds use the sum without
  storing it.
\<close>

definition sha256_word :: "bytes \<Rightarrow> nat \<Rightarrow> u32 list \<Rightarrow> u32" where
  "sha256_word chunk i w =
     (if i < 16 then ReadBE32 (drop (4 * i) chunk)
      else w ! (i mod 16) + (sha256_sigma1 (w ! ((i + 14) mod 16)) + w ! ((i + 9) mod 16)
             + sha256_sigma0 (w ! ((i + 1) mod 16))))"

definition sha256_step :: "bytes \<Rightarrow> nat \<Rightarrow> u32 list \<times> u32 list \<Rightarrow> u32 list \<times> u32 list" where
  "sha256_step chunk i vw =
     (case vw of (v, w) \<Rightarrow>
      let wi = sha256_word chunk i w;
          (d, h) = sha256_Round (v ! rot8 i 0) (v ! rot8 i 1) (v ! rot8 i 2) (v ! rot8 i 3)
                     (v ! rot8 i 4) (v ! rot8 i 5) (v ! rot8 i 6) (v ! rot8 i 7) (sha256_K ! i) wi
      in (v[rot8 i 3 := d, rot8 i 7 := h], if i < 62 then w[i mod 16 := wi] else w))"

text \<open>One pass of the loop of \<open>Transform\<close>, and the loop over \<open>blocks\<close> chunks.\<close>

definition sha256_block :: "u32 list \<Rightarrow> bytes \<Rightarrow> u32 list" where
  "sha256_block s chunk =
     (let v = fst (foldl (\<lambda>vw i. sha256_step chunk i vw) (s, replicate 16 0) [0..<64])
      in map2 (+) s v)"

fun sha256_Transform :: "u32 list \<Rightarrow> bytes \<Rightarrow> nat \<Rightarrow> u32 list" where
  "sha256_Transform s chunk 0 = s"
| "sha256_Transform s chunk (Suc blocks) = sha256_Transform (sha256_block s (take 64 chunk)) (drop 64 chunk) blocks"

section \<open>The class CSHA256\<close>

text \<open>
  The constructor leaves the buffer uninitialised: its contents are the argument \<open>buf0\<close>.
\<close>

definition CSHA256 :: "bytes \<Rightarrow> u32 list hasher" where
  "CSHA256 buf0 = \<lparr>hs = sha256_Initialize, hbuf = buf0, hbytes = 0\<rparr>"

text \<open>The three conditionals of \<open>Write\<close>: complete the buffer, process full blocks, keep the rest.\<close>

definition CSHA256_fill :: "u32 list hasher \<Rightarrow> bytes \<Rightarrow> u32 list hasher \<times> bytes \<times> nat" where
  "CSHA256_fill h data =
     (let bufsize = unat (hbytes h) mod 64
      in if bufsize \<noteq> 0 \<and> bufsize + length data \<ge> 64
         then let buf = memcpy_at (hbuf h) bufsize (take (64 - bufsize) data)
              in (h\<lparr>hs := sha256_Transform (hs h) buf 1, hbuf := buf, hbytes := hbytes h + of_nat (64 - bufsize)\<rparr>,
                  drop (64 - bufsize) data, 0)
         else (h, data, bufsize))"

definition CSHA256_blocks :: "u32 list hasher \<Rightarrow> bytes \<Rightarrow> u32 list hasher \<times> bytes" where
  "CSHA256_blocks h data =
     (if length data \<ge> 64
      then let blocks = length data div 64
           in (h\<lparr>hs := sha256_Transform (hs h) data blocks, hbytes := hbytes h + of_nat (64 * blocks)\<rparr>,
               drop (64 * blocks) data)
      else (h, data))"

definition CSHA256_Write :: "u32 list hasher \<Rightarrow> bytes \<Rightarrow> u32 list hasher" where
  "CSHA256_Write h data =
     (case CSHA256_fill h data of (h1, data1, bufsize) \<Rightarrow>
      case CSHA256_blocks h1 data1 of (h2, data2) \<Rightarrow>
      if length data2 > 0
      then h2\<lparr>hbuf := memcpy_at (hbuf h2) bufsize data2, hbytes := hbytes h2 + of_nat (length data2)\<rparr>
      else h2)"

definition CSHA256_pad :: bytes where
  "CSHA256_pad = 0x80 # replicate 63 0"

text \<open>\<open>Finalize\<close> returns the hash and the object as the two calls of \<open>Write\<close> leave it.\<close>

definition CSHA256_Finalize :: "u32 list hasher \<Rightarrow> bytes \<times> u32 list hasher" where
  "CSHA256_Finalize h =
     (let sizedesc = WriteBE64 (push_bit 3 (hbytes h));
          h1 = CSHA256_Write h (take (1 + ((119 - (unat (hbytes h) mod 64)) mod 64)) CSHA256_pad);
          h2 = CSHA256_Write h1 sizedesc
      in (WriteBE32 (hs h2 ! 0) @ WriteBE32 (hs h2 ! 1) @ WriteBE32 (hs h2 ! 2) @ WriteBE32 (hs h2 ! 3)
            @ WriteBE32 (hs h2 ! 4) @ WriteBE32 (hs h2 ! 5) @ WriteBE32 (hs h2 ! 6) @ WriteBE32 (hs h2 ! 7), h2))"

definition CSHA256_Reset :: "u32 list hasher \<Rightarrow> u32 list hasher" where
  "CSHA256_Reset h = h\<lparr>hbytes := 0, hs := sha256_Initialize\<rparr>"

section \<open>Reference: the standard's compression function and hash\<close>

definition sha256_ref_Sigma0 :: "u32 \<Rightarrow> u32" where
  "sha256_ref_Sigma0 x = word_rotr 2 x XOR word_rotr 13 x XOR word_rotr 22 x"

definition sha256_ref_Sigma1 :: "u32 \<Rightarrow> u32" where
  "sha256_ref_Sigma1 x = word_rotr 6 x XOR word_rotr 11 x XOR word_rotr 25 x"

definition sha256_ref_sigma0 :: "u32 \<Rightarrow> u32" where
  "sha256_ref_sigma0 x = word_rotr 7 x XOR word_rotr 18 x XOR drop_bit 3 x"

definition sha256_ref_sigma1 :: "u32 \<Rightarrow> u32" where
  "sha256_ref_sigma1 x = word_rotr 17 x XOR word_rotr 19 x XOR drop_bit 10 x"

definition sha256_ref_W :: "bytes \<Rightarrow> nat \<Rightarrow> u32" where
  "sha256_ref_W chunk = sha2_schedule sha256_ref_sigma0 sha256_ref_sigma1 (\<lambda>t. ReadBE32 (drop (4 * t) chunk))"

definition sha256_compress :: "u32 list \<Rightarrow> bytes \<Rightarrow> u32 list" where
  "sha256_compress s chunk =
     (case foldl (\<lambda>r t. sha2_ref_round sha256_ref_Sigma0 sha256_ref_Sigma1 (sha256_K ! t) (sha256_ref_W chunk t) r)
             (s ! 0, s ! 1, s ! 2, s ! 3, s ! 4, s ! 5, s ! 6, s ! 7) [0..<64] of
        (a, b, c, d, e, f, g, h) \<Rightarrow>
          [s ! 0 + a, s ! 1 + b, s ! 2 + c, s ! 3 + d, s ! 4 + e, s ! 5 + f, s ! 6 + g, s ! 7 + h])"

text \<open>The message, a one bit, zeros, and the length in bits as a 64-bit big-endian integer.\<close>

definition sha256_padding :: "nat \<Rightarrow> bytes" where
  "sha256_padding n = 0x80 # replicate ((119 - n mod 64) mod 64) 0 @ WriteBE64 (of_nat (8 * n))"

definition sha256 :: "bytes \<Rightarrow> bytes" where
  "sha256 m = concat (map WriteBE32 (foldl sha256_compress sha256_Initialize (chunks 64 (m @ sha256_padding (length m)))))"

section \<open>Correctness\<close>

lemma sha256_functions:
  "sha256_Sigma0 = sha256_ref_Sigma0" "sha256_Sigma1 = sha256_ref_Sigma1"
  "sha256_sigma0 = sha256_ref_sigma0" "sha256_sigma1 = sha256_ref_sigma1"
  by (simp_all add: fun_eq_iff sha256_Sigma0_def sha256_ref_Sigma0_def sha256_Sigma1_def sha256_ref_Sigma1_def
      sha256_sigma0_def sha256_ref_sigma0_def sha256_sigma1_def sha256_ref_sigma1_def rotr_shifts)

interpretation sha256: sha2_rounds 64 sha256_ref_Sigma0 sha256_ref_Sigma1 sha256_ref_sigma0 sha256_ref_sigma1
  sha256_K "\<lambda>chunk t. ReadBE32 (drop (4 * t) chunk)" sha256_step
proof
  show "(64 :: nat) mod 8 = 0" by simp
qed (simp_all add: sha256_step_def sha256_word_def sha256_Round_def sha256_Ch_def sha256_Maj_def
    sha256_functions regs8_def Let_def split: prod.splits)

lemma sha256_block_compress:
  assumes "length s = 8"
  shows "sha256_block s chunk = sha256_compress s chunk"
proof -
  obtain a b c d e f g h where
    "fst (foldl (\<lambda>vw i. sha256_step chunk i vw) (s, replicate 16 0) [0..<64]) = [a, b, c, d, e, f, g, h]"
    and "foldl (\<lambda>r t. sha2_ref_round sha256_ref_Sigma0 sha256_ref_Sigma1 (sha256_K ! t) (sha256_ref_W chunk t) r)
      (s ! 0, s ! 1, s ! 2, s ! 3, s ! 4, s ! 5, s ! 6, s ! 7) [0..<64] = (a, b, c, d, e, f, g, h)"
    using sha256.all_rounds [OF assms, of "replicate 16 0" chunk] by (auto simp: sha256_ref_W_def)
  moreover from assms obtain s0 s1 s2 s3 s4 s5 s6 s7 where "s = [s0, s1, s2, s3, s4, s5, s6, s7]"
    by (auto simp: length_Suc_conv numeral_eq_Suc)
  ultimately show ?thesis
    by (simp add: sha256_block_def sha256_compress_def)
qed

lemma length_sha256_compress [simp, hash_simps]: "length (sha256_compress s chunk) = 8"
  by (simp add: sha256_compress_def split: prod.splits)

lemma length_sha256_Initialize [simp, hash_simps]: "length sha256_Initialize = 8"
  by (simp add: sha256_Initialize_def)

lemma length_foldl_compress [simp, hash_simps]:
  "length s = 8 \<Longrightarrow> length (foldl sha256_compress s cs) = 8"
  by (induction cs arbitrary: s) auto

lemma sha256_Transform_compress:
  assumes "length s = 8" and "64 * blocks \<le> length chunk"
  shows "sha256_Transform s chunk blocks = foldl sha256_compress s (chunks 64 (take (64 * blocks) chunk))"
  using assms
proof (induction blocks arbitrary: s chunk)
  case 0
  then show ?case by simp
next
  case (Suc blocks)
  have "take (64 * Suc blocks) chunk = take 64 chunk @ take (64 * blocks) (drop 64 chunk)"
    using take_add [of 64 "64 * blocks" chunk] by simp
  then show ?case
    using Suc by (simp add: sha256_block_compress chunks_step)
qed

text \<open>\<open>CSHA256::Write\<close> absorbs its data, so the class fulfils the contract of a hash class.\<close>

lemma CSHA256_fill_md:
  assumes "length (hs h) = 8" and "length (hbuf h) = 64"
  shows "CSHA256_fill h data = md_fill 64 sha256_compress h data"
proof -
  have "sha256_Transform (hs h) buf 1 = sha256_compress (hs h) buf" if "length buf = 64" for buf
    using assms that by (simp add: sha256_block_compress)
  then show ?thesis
    using assms by (simp add: CSHA256_fill_def md_fill_def Let_def del: One_nat_def)
qed

lemma CSHA256_blocks_md:
  assumes "length (hs h) = 8"
  shows "CSHA256_blocks h data = md_loop 64 sha256_compress h data"
  using assms
  by (simp add: CSHA256_blocks_def md_loop_bulk sha256_Transform_compress chunks_take_full Let_def)

lemma md_fill_state: "md_fill B tr h d = (h1, d1, n) \<Longrightarrow> hs h1 = hs h \<or> (\<exists>b. hs h1 = tr (hs h) b)"
  by (auto simp: md_fill_def Let_def split: if_splits)

lemma CSHA256_Write_md:
  assumes "length (hs h) = 8" and "length (hbuf h) = 64"
  shows "CSHA256_Write h data = md_write 64 sha256_compress h data"
proof -
  obtain h1 d1 n where fill: "md_fill 64 sha256_compress h data = (h1, d1, n)"
    by (cases "md_fill 64 sha256_compress h data") auto
  then have "length (hs h1) = 8"
    using assms(1) by (auto dest!: md_fill_state)
  then show ?thesis
    by (simp add: CSHA256_Write_def md_write_def CSHA256_fill_md [OF assms] fill CSHA256_blocks_md md_rest_def)
qed

lemma CSHA256_Write_absorbs:
  assumes "absorbed 64 sha256_compress s0 h m" and "length s0 = 8"
  shows "absorbed 64 sha256_compress s0 (CSHA256_Write h data) (m @ data)"
proof -
  have "CSHA256_Write h data = md_write 64 sha256_compress h data"
    using assms by (intro CSHA256_Write_md) (simp_all add: absorbed_def)
  then show ?thesis
    using md_write_absorbed [OF assms(1)] by simp
qed

text \<open>The bytes \<open>Finalize\<close> feeds to \<open>Write\<close> are the padding of the standard.\<close>

lemma take_CSHA256_pad:
  assumes "k < 64"
  shows "take (1 + k) CSHA256_pad = 0x80 # replicate k 0"
  using assms by (simp add: CSHA256_pad_def min_def)

definition CSHA256_pad_of :: "u64 \<Rightarrow> bytes" where
  "CSHA256_pad_of n = take (1 + ((119 - (unat n mod 64)) mod 64)) CSHA256_pad"

definition CSHA256_sizedesc_of :: "u64 \<Rightarrow> bytes" where
  "CSHA256_sizedesc_of n = WriteBE64 (push_bit 3 n)"

definition CSHA256_out :: "u32 list \<Rightarrow> bytes" where
  "CSHA256_out s = WriteBE32 (s ! 0) @ WriteBE32 (s ! 1) @ WriteBE32 (s ! 2) @ WriteBE32 (s ! 3)
     @ WriteBE32 (s ! 4) @ WriteBE32 (s ! 5) @ WriteBE32 (s ! 6) @ WriteBE32 (s ! 7)"

lemma CSHA256_padding:
  "CSHA256_pad_of (of_nat n) @ CSHA256_sizedesc_of (of_nat n) = sha256_padding n"
proof -
  have "unat (of_nat n :: u64) mod 64 = n mod 64"
    by (simp add: unat_of_nat mod_mod_cancel)
  then show ?thesis
    using take_CSHA256_pad [of "(119 - n mod 64) mod 64"]
    by (simp add: CSHA256_pad_of_def CSHA256_sizedesc_of_def sha256_padding_def push_bit_3_of_nat)
qed

lemma length_sha256_padding: "64 dvd n + length (sha256_padding n)"
  using padded_length [of 8 64 119 n] by (simp add: sha256_padding_def add.commute add.left_commute)

interpretation csha256: md_hash 64 sha256_compress sha256_Initialize CSHA256_Write
  CSHA256_pad_of CSHA256_sizedesc_of CSHA256_out
proof
  fix m :: bytes
  have "length m + length (CSHA256_pad_of (of_nat (length m)) @ CSHA256_sizedesc_of (of_nat (length m)))
    = length m + length (sha256_padding (length m))"
    by (simp only: CSHA256_padding)
  then show "64 dvd length m + length (CSHA256_pad_of (of_nat (length m))) + length (CSHA256_sizedesc_of (of_nat (length m)))"
    using length_sha256_padding [of "length m"] by (simp add: add.assoc)
qed (simp_all add: CSHA256_Write_absorbs)

lemma CSHA256_Finalize_out:
  "fst (CSHA256_Finalize h) = CSHA256_out (hs (CSHA256_Write (CSHA256_Write h (CSHA256_pad_of (hbytes h))) (CSHA256_sizedesc_of (hbytes h))))"
  by (simp add: CSHA256_Finalize_def CSHA256_out_def CSHA256_pad_of_def CSHA256_sizedesc_of_def Let_def)

lemma CSHA256_out_concat: "length s = 8 \<Longrightarrow> CSHA256_out s = concat (map WriteBE32 s)"
  by (auto simp: CSHA256_out_def length_Suc_conv numeral_eq_Suc)

lemma CSHA256_Finalize_absorbed:
  assumes "absorbed 64 sha256_compress sha256_Initialize h m"
  shows "fst (CSHA256_Finalize h) = sha256 m"
  using csha256.final_state [OF assms]
  by (simp add: CSHA256_Finalize_out sha256_def CSHA256_padding CSHA256_out_concat)

lemma CSHA256_absorbed:
  "length buf0 = 64 \<Longrightarrow> absorbed 64 sha256_compress sha256_Initialize (CSHA256 buf0) []"
  by (simp add: CSHA256_def absorbed_init)

lemma CSHA256_Reset_absorbed:
  "length (hbuf h) = 64 \<Longrightarrow> absorbed 64 sha256_compress sha256_Initialize (CSHA256_Reset h) []"
  by (simp add: CSHA256_Reset_def absorbed_def)

lemma length_sha256 [simp, hash_simps]: "length (sha256 m) = 32"
  by (simp add: sha256_def)

section \<open>Properties\<close>

text \<open>
  The unrolled in-place block transform of \<^verbatim>\<open>sha256.cpp\<close>, run over any number of
  chunks, computes the SHA-256 compression function of the standard on each of them in
  turn: shifted registers, a 64-word message schedule, choice and majority in their
  defining form, rotations.
\<close>

theorem sha256_Transform_correct:
  assumes "length s = 8" and "64 * blocks \<le> length chunk"
  shows "sha256_Transform s chunk blocks = foldl sha256_compress s (chunks 64 (take (64 * blocks) chunk))"
  using assms by (rule sha256_Transform_compress)

theorem sha256_Transform_correct_witness:
  "length sha256_Initialize = 8 \<and> 64 * 2 \<le> length (replicate 130 (0 :: byte))
    \<and> sha256_Transform sha256_Initialize (replicate 130 0) 2
      = foldl sha256_compress sha256_Initialize (chunks 64 (take (64 * 2) (replicate 130 0)))"
  using sha256_Transform_correct [of sha256_Initialize 2 "replicate 130 0"] by simp

text \<open>
  C19. However a message is cut into calls of \<open>CSHA256::Write\<close>, and whatever bytes the
  uninitialised buffer of the object holds at first, \<open>Finalize\<close> returns the SHA-256 hash
  of the concatenation of the data.
\<close>

theorem CSHA256_streaming:
  assumes "length buf0 = 64"
  shows "fst (CSHA256_Finalize (foldl CSHA256_Write (CSHA256 buf0) ds)) = sha256 (concat ds)"
  using csha256.writes_absorb [OF CSHA256_absorbed [OF assms], of ds]
  by (simp add: CSHA256_Finalize_absorbed)

theorem CSHA256_streaming_witness:
  "length (replicate 64 (0xff :: byte)) = 64
    \<and> fst (CSHA256_Finalize (foldl CSHA256_Write (CSHA256 (replicate 64 0xff)) [[0x61], [], [0x62, 0x63]]))
      = sha256 [0x61, 0x62, 0x63]"
  using CSHA256_streaming [of "replicate 64 0xff" "[[0x61], [], [0x62, 0x63]]"] by simp

end
