(* ===== verification/Sha512.thy ===== *)
theory Sha512
  imports Sha2_Rounds
begin

text \<open>
  \<^verbatim>\<open>src/crypto/sha512.cpp\<close>: \<open>sha512::Transform\<close> and the class \<open>CSHA512\<close>, modelled the way
  \<open>Sha256\<close> models its sibling, with 64-bit words, 80 rounds, blocks of 128 bytes and a
  16-byte length field.
\<close>

section \<open>The block transform\<close>

definition sha512_Ch :: "u64 \<Rightarrow> u64 \<Rightarrow> u64 \<Rightarrow> u64" where
  "sha512_Ch x y z = z XOR (x AND (y XOR z))"

definition sha512_Maj :: "u64 \<Rightarrow> u64 \<Rightarrow> u64 \<Rightarrow> u64" where
  "sha512_Maj x y z = (x AND y) OR (z AND (x OR y))"

definition sha512_Sigma0 :: "u64 \<Rightarrow> u64" where
  "sha512_Sigma0 x = (drop_bit 28 x OR push_bit 36 x) XOR (drop_bit 34 x OR push_bit 30 x)
     XOR (drop_bit 39 x OR push_bit 25 x)"

definition sha512_Sigma1 :: "u64 \<Rightarrow> u64" where
  "sha512_Sigma1 x = (drop_bit 14 x OR push_bit 50 x) XOR (drop_bit 18 x OR push_bit 46 x)
     XOR (drop_bit 41 x OR push_bit 23 x)"

definition sha512_sigma0 :: "u64 \<Rightarrow> u64" where
  "sha512_sigma0 x = (drop_bit 1 x OR push_bit 63 x) XOR (drop_bit 8 x OR push_bit 56 x) XOR drop_bit 7 x"

definition sha512_sigma1 :: "u64 \<Rightarrow> u64" where
  "sha512_sigma1 x = (drop_bit 19 x OR push_bit 45 x) XOR (drop_bit 61 x OR push_bit 3 x) XOR drop_bit 6 x"

definition sha512_Round :: "u64 \<Rightarrow> u64 \<Rightarrow> u64 \<Rightarrow> u64 \<Rightarrow> u64 \<Rightarrow> u64 \<Rightarrow> u64 \<Rightarrow> u64 \<Rightarrow> u64 \<Rightarrow> u64 \<Rightarrow> u64 \<times> u64" where
  "sha512_Round a b c d e f g h k w =
     (let t1 = h + sha512_Sigma1 e + sha512_Ch e f g + k + w;
          t2 = sha512_Sigma0 a + sha512_Maj a b c
      in (d + t1, t1 + t2))"

definition sha512_Initialize :: "u64 list" where
  "sha512_Initialize =
     [0x6a09e667f3bcc908, 0xbb67ae8584caa73b, 0x3c6ef372fe94f82b, 0xa54ff53a5f1d36f1,
      0x510e527fade682d1, 0x9b05688c2b3e6c1f, 0x1f83d9abfb41bd6b, 0x5be0cd19137e2179]"

text \<open>The constants of the 80 calls of \<open>Round\<close>, in order; a row is one turn of the eight register names.\<close>

definition sha512_K :: "u64 list" where
  "sha512_K = concat
     [[0x428a2f98d728ae22, 0x7137449123ef65cd, 0xb5c0fbcfec4d3b2f, 0xe9b5dba58189dbbc,
       0x3956c25bf348b538, 0x59f111f1b605d019, 0x923f82a4af194f9b, 0xab1c5ed5da6d8118],
      [0xd807aa98a3030242, 0x12835b0145706fbe, 0x243185be4ee4b28c, 0x550c7dc3d5ffb4e2,
       0x72be5d74f27b896f, 0x80deb1fe3b1696b1, 0x9bdc06a725c71235, 0xc19bf174cf692694],
      [0xe49b69c19ef14ad2, 0xefbe4786384f25e3, 0x0fc19dc68b8cd5b5, 0x240ca1cc77ac9c65,
       0x2de92c6f592b0275, 0x4a7484aa6ea6e483, 0x5cb0a9dcbd41fbd4, 0x76f988da831153b5],
      [0x983e5152ee66dfab, 0xa831c66d2db43210, 0xb00327c898fb213f, 0xbf597fc7beef0ee4,
       0xc6e00bf33da88fc2, 0xd5a79147930aa725, 0x06ca6351e003826f, 0x142929670a0e6e70],
      [0x27b70a8546d22ffc, 0x2e1b21385c26c926, 0x4d2c6dfc5ac42aed, 0x53380d139d95b3df,
       0x650a73548baf63de, 0x766a0abb3c77b2a8, 0x81c2c92e47edaee6, 0x92722c851482353b],
      [0xa2bfe8a14cf10364, 0xa81a664bbc423001, 0xc24b8b70d0f89791, 0xc76c51a30654be30,
       0xd192e819d6ef5218, 0xd69906245565a910, 0xf40e35855771202a, 0x106aa07032bbd1b8],
      [0x19a4c116b8d2d0c8, 0x1e376c085141ab53, 0x2748774cdf8eeb99, 0x34b0bcb5e19b48a8,
       0x391c0cb3c5c95a63, 0x4ed8aa4ae3418acb, 0x5b9cca4f7763e373, 0x682e6ff3d6b2b8a3],
      [0x748f82ee5defb2fc, 0x78a5636f43172f60, 0x84c87814a1f0ab72, 0x8cc702081a6439ec,
       0x90befffa23631e28, 0xa4506cebde82bde9, 0xbef9a3f7b2c67915, 0xc67178f2e372532b],
      [0xca273eceea26619c, 0xd186b8c721c0c207, 0xeada7dd6cde0eb1e, 0xf57d4f7fee6ed178,
       0x06f067aa72176fba, 0x0a637dc5a2c898a6, 0x113f9804bef90dae, 0x1b710b35131c471b],
      [0x28db77f523047d84, 0x32caab7b40c72493, 0x3c9ebe0a15c9bebc, 0x431d67c49c100d4c,
       0x4cc5d4becb3e42b6, 0x597f299cfc657e2a, 0x5fcb6fab3ad6faec, 0x6c44198c4a475817]]"

definition sha512_word :: "bytes \<Rightarrow> nat \<Rightarrow> u64 list \<Rightarrow> u64" where
  "sha512_word chunk i w =
     (if i < 16 then ReadBE64 (drop (8 * i) chunk)
      else w ! (i mod 16) + (sha512_sigma1 (w ! ((i + 14) mod 16)) + w ! ((i + 9) mod 16)
             + sha512_sigma0 (w ! ((i + 1) mod 16))))"

definition sha512_step :: "bytes \<Rightarrow> nat \<Rightarrow> u64 list \<times> u64 list \<Rightarrow> u64 list \<times> u64 list" where
  "sha512_step chunk i vw =
     (case vw of (v, w) \<Rightarrow>
      let wi = sha512_word chunk i w;
          (d, h) = sha512_Round (v ! rot8 i 0) (v ! rot8 i 1) (v ! rot8 i 2) (v ! rot8 i 3)
                     (v ! rot8 i 4) (v ! rot8 i 5) (v ! rot8 i 6) (v ! rot8 i 7) (sha512_K ! i) wi
      in (v[rot8 i 3 := d, rot8 i 7 := h], if i < 78 then w[i mod 16 := wi] else w))"

definition sha512_Transform :: "u64 list \<Rightarrow> bytes \<Rightarrow> u64 list" where
  "sha512_Transform s chunk =
     (let v = fst (foldl (\<lambda>vw i. sha512_step chunk i vw) (s, replicate 16 0) [0..<80])
      in map2 (+) s v)"

section \<open>The class CSHA512\<close>

definition CSHA512 :: "bytes \<Rightarrow> u64 list hasher" where
  "CSHA512 buf0 = \<lparr>hs = sha512_Initialize, hbuf = buf0, hbytes = 0\<rparr>"

definition CSHA512_Write :: "u64 list hasher \<Rightarrow> bytes \<Rightarrow> u64 list hasher" where
  "CSHA512_Write h data = md_write 128 sha512_Transform h data"

definition CSHA512_pad :: bytes where
  "CSHA512_pad = 0x80 # replicate 127 0"

definition CSHA512_Finalize :: "u64 list hasher \<Rightarrow> bytes \<times> u64 list hasher" where
  "CSHA512_Finalize h =
     (let sizedesc = replicate 8 0 @ WriteBE64 (push_bit 3 (hbytes h));
          h1 = CSHA512_Write h (take (1 + ((239 - (unat (hbytes h) mod 128)) mod 128)) CSHA512_pad);
          h2 = CSHA512_Write h1 sizedesc
      in (WriteBE64 (hs h2 ! 0) @ WriteBE64 (hs h2 ! 1) @ WriteBE64 (hs h2 ! 2) @ WriteBE64 (hs h2 ! 3)
            @ WriteBE64 (hs h2 ! 4) @ WriteBE64 (hs h2 ! 5) @ WriteBE64 (hs h2 ! 6) @ WriteBE64 (hs h2 ! 7), h2))"

definition CSHA512_Reset :: "u64 list hasher \<Rightarrow> u64 list hasher" where
  "CSHA512_Reset h = h\<lparr>hbytes := 0, hs := sha512_Initialize\<rparr>"

section \<open>Reference: the standard's compression function and hash\<close>

definition sha512_ref_Sigma0 :: "u64 \<Rightarrow> u64" where
  "sha512_ref_Sigma0 x = word_rotr 28 x XOR word_rotr 34 x XOR word_rotr 39 x"

definition sha512_ref_Sigma1 :: "u64 \<Rightarrow> u64" where
  "sha512_ref_Sigma1 x = word_rotr 14 x XOR word_rotr 18 x XOR word_rotr 41 x"

definition sha512_ref_sigma0 :: "u64 \<Rightarrow> u64" where
  "sha512_ref_sigma0 x = word_rotr 1 x XOR word_rotr 8 x XOR drop_bit 7 x"

definition sha512_ref_sigma1 :: "u64 \<Rightarrow> u64" where
  "sha512_ref_sigma1 x = word_rotr 19 x XOR word_rotr 61 x XOR drop_bit 6 x"

definition sha512_ref_W :: "bytes \<Rightarrow> nat \<Rightarrow> u64" where
  "sha512_ref_W chunk = sha2_schedule sha512_ref_sigma0 sha512_ref_sigma1 (\<lambda>t. ReadBE64 (drop (8 * t) chunk))"

definition sha512_compress :: "u64 list \<Rightarrow> bytes \<Rightarrow> u64 list" where
  "sha512_compress s chunk =
     (case foldl (\<lambda>r t. sha2_ref_round sha512_ref_Sigma0 sha512_ref_Sigma1 (sha512_K ! t) (sha512_ref_W chunk t) r)
             (s ! 0, s ! 1, s ! 2, s ! 3, s ! 4, s ! 5, s ! 6, s ! 7) [0..<80] of
        (a, b, c, d, e, f, g, h) \<Rightarrow>
          [s ! 0 + a, s ! 1 + b, s ! 2 + c, s ! 3 + d, s ! 4 + e, s ! 5 + f, s ! 6 + g, s ! 7 + h])"

text \<open>The length field has 16 bytes; the code fills its upper half with zeros.\<close>

definition sha512_padding :: "nat \<Rightarrow> bytes" where
  "sha512_padding n = 0x80 # replicate ((239 - n mod 128) mod 128) 0 @ replicate 8 0 @ WriteBE64 (of_nat (8 * n))"

definition sha512 :: "bytes \<Rightarrow> bytes" where
  "sha512 m = concat (map WriteBE64 (foldl sha512_compress sha512_Initialize (chunks 128 (m @ sha512_padding (length m)))))"

section \<open>Correctness\<close>

lemma sha512_functions:
  "sha512_Sigma0 = sha512_ref_Sigma0" "sha512_Sigma1 = sha512_ref_Sigma1"
  "sha512_sigma0 = sha512_ref_sigma0" "sha512_sigma1 = sha512_ref_sigma1"
  by (simp_all add: fun_eq_iff sha512_Sigma0_def sha512_ref_Sigma0_def sha512_Sigma1_def sha512_ref_Sigma1_def
      sha512_sigma0_def sha512_ref_sigma0_def sha512_sigma1_def sha512_ref_sigma1_def rotr_shifts)

interpretation sha512: sha2_rounds 80 sha512_ref_Sigma0 sha512_ref_Sigma1 sha512_ref_sigma0 sha512_ref_sigma1
  sha512_K "\<lambda>chunk t. ReadBE64 (drop (8 * t) chunk)" sha512_step
proof
  show "(80 :: nat) mod 8 = 0" by simp
qed (simp_all add: sha512_step_def sha512_word_def sha512_Round_def sha512_Ch_def sha512_Maj_def
    sha512_functions regs8_def Let_def split: prod.splits)

lemma sha512_Transform_compress:
  assumes "length s = 8"
  shows "sha512_Transform s chunk = sha512_compress s chunk"
proof -
  obtain a b c d e f g h where
    "fst (foldl (\<lambda>vw i. sha512_step chunk i vw) (s, replicate 16 0) [0..<80]) = [a, b, c, d, e, f, g, h]"
    and "foldl (\<lambda>r t. sha2_ref_round sha512_ref_Sigma0 sha512_ref_Sigma1 (sha512_K ! t) (sha512_ref_W chunk t) r)
      (s ! 0, s ! 1, s ! 2, s ! 3, s ! 4, s ! 5, s ! 6, s ! 7) [0..<80] = (a, b, c, d, e, f, g, h)"
    using sha512.all_rounds [OF assms, of "replicate 16 0" chunk] by (auto simp: sha512_ref_W_def)
  moreover from assms obtain s0 s1 s2 s3 s4 s5 s6 s7 where "s = [s0, s1, s2, s3, s4, s5, s6, s7]"
    by (auto simp: length_Suc_conv numeral_eq_Suc)
  ultimately show ?thesis
    by (simp add: sha512_Transform_def sha512_compress_def)
qed

lemma length_sha512_compress [simp, hash_simps]: "length (sha512_compress s chunk) = 8"
  by (simp add: sha512_compress_def split: prod.splits)

lemma length_sha512_Initialize [simp, hash_simps]: "length sha512_Initialize = 8"
  by (simp add: sha512_Initialize_def)

lemma length_foldl_sha512_compress [simp, hash_simps]:
  "length s = 8 \<Longrightarrow> length (foldl sha512_compress s cs) = 8"
  by (induction cs arbitrary: s) auto

lemma CSHA512_Write_absorbs:
  assumes "absorbed 128 sha512_compress s0 h m" and "length s0 = 8"
  shows "absorbed 128 sha512_compress s0 (CSHA512_Write h data) (m @ data)"
proof -
  have "CSHA512_Write h data = md_write 128 sha512_compress h data"
    unfolding CSHA512_Write_def
    by (rule md_write_cong [where I = "\<lambda>s. length s = 8"])
      (use assms in \<open>simp_all add: sha512_Transform_compress absorbed_def\<close>)
  then show ?thesis
    using md_write_absorbed [OF assms(1)] by simp
qed

definition CSHA512_pad_of :: "u64 \<Rightarrow> bytes" where
  "CSHA512_pad_of n = take (1 + ((239 - (unat n mod 128)) mod 128)) CSHA512_pad"

definition CSHA512_sizedesc_of :: "u64 \<Rightarrow> bytes" where
  "CSHA512_sizedesc_of n = replicate 8 0 @ WriteBE64 (push_bit 3 n)"

definition CSHA512_out :: "u64 list \<Rightarrow> bytes" where
  "CSHA512_out s = WriteBE64 (s ! 0) @ WriteBE64 (s ! 1) @ WriteBE64 (s ! 2) @ WriteBE64 (s ! 3)
     @ WriteBE64 (s ! 4) @ WriteBE64 (s ! 5) @ WriteBE64 (s ! 6) @ WriteBE64 (s ! 7)"

lemma take_CSHA512_pad: "k < 128 \<Longrightarrow> take (1 + k) CSHA512_pad = 0x80 # replicate k 0"
  by (simp add: CSHA512_pad_def min_def)

lemma CSHA512_padding:
  "CSHA512_pad_of (of_nat n) @ CSHA512_sizedesc_of (of_nat n) = sha512_padding n"
proof -
  have "unat (of_nat n :: u64) mod 128 = n mod 128"
    by (simp add: unat_of_nat mod_mod_cancel)
  then show ?thesis
    using take_CSHA512_pad [of "(239 - n mod 128) mod 128"]
    by (simp add: CSHA512_pad_of_def CSHA512_sizedesc_of_def sha512_padding_def push_bit_3_of_nat)
qed

lemma length_sha512_padding: "128 dvd n + length (sha512_padding n)"
  using padded_length [of 16 128 239 n] by (simp add: sha512_padding_def add.commute add.left_commute)

interpretation csha512: md_hash 128 sha512_compress sha512_Initialize CSHA512_Write
  CSHA512_pad_of CSHA512_sizedesc_of CSHA512_out
proof
  fix m :: bytes
  have "length m + length (CSHA512_pad_of (of_nat (length m)) @ CSHA512_sizedesc_of (of_nat (length m)))
    = length m + length (sha512_padding (length m))"
    by (simp only: CSHA512_padding)
  then show "128 dvd length m + length (CSHA512_pad_of (of_nat (length m))) + length (CSHA512_sizedesc_of (of_nat (length m)))"
    using length_sha512_padding [of "length m"] by (simp add: add.assoc)
qed (simp_all add: CSHA512_Write_absorbs)

lemma CSHA512_Finalize_out:
  "fst (CSHA512_Finalize h) = CSHA512_out (hs (CSHA512_Write (CSHA512_Write h (CSHA512_pad_of (hbytes h))) (CSHA512_sizedesc_of (hbytes h))))"
  by (simp add: CSHA512_Finalize_def CSHA512_out_def CSHA512_pad_of_def CSHA512_sizedesc_of_def Let_def)

lemma CSHA512_out_concat: "length s = 8 \<Longrightarrow> CSHA512_out s = concat (map WriteBE64 s)"
  by (auto simp: CSHA512_out_def length_Suc_conv numeral_eq_Suc)

lemma CSHA512_Finalize_absorbed:
  assumes "absorbed 128 sha512_compress sha512_Initialize h m"
  shows "fst (CSHA512_Finalize h) = sha512 m"
  using csha512.final_state [OF assms]
  by (simp add: CSHA512_Finalize_out sha512_def CSHA512_padding CSHA512_out_concat)

lemma CSHA512_absorbed:
  "length buf0 = 128 \<Longrightarrow> absorbed 128 sha512_compress sha512_Initialize (CSHA512 buf0) []"
  by (simp add: CSHA512_def absorbed_init)

lemma length_sha512 [simp, hash_simps]: "length (sha512 m) = 64"
  by (simp add: sha512_def)

section \<open>Properties\<close>

text \<open>
  However a message is cut into calls of \<open>CSHA512::Write\<close>, and whatever the
  uninitialised buffer holds at first, \<open>Finalize\<close> returns the SHA-512 hash of the
  concatenation of the data.
\<close>

theorem CSHA512_streaming:
  assumes "length buf0 = 128"
  shows "fst (CSHA512_Finalize (foldl CSHA512_Write (CSHA512 buf0) ds)) = sha512 (concat ds)"
  using csha512.writes_absorb [OF CSHA512_absorbed [OF assms], of ds]
  by (simp add: CSHA512_Finalize_absorbed)

theorem CSHA512_streaming_witness:
  "length (replicate 128 (0xff :: byte)) = 128
    \<and> fst (CSHA512_Finalize (foldl CSHA512_Write (CSHA512 (replicate 128 0xff)) [[0x61], [], [0x62, 0x63]]))
      = sha512 [0x61, 0x62, 0x63]"
  using CSHA512_streaming [of "replicate 128 0xff" "[[0x61], [], [0x62, 0x63]]"] by simp

end
