(* ===== verification/Registers5.thy ===== *)
theory Registers5
  imports Hash_Stream
begin

text \<open>
  Five registers that stay in place while their roles rotate, as in the unrolled rounds
  of SHA-1 and RIPEMD-160, and rotations to the left written with two shifts.
\<close>

type_synonym 'w regs5 = "'w \<times> 'w \<times> 'w \<times> 'w \<times> 'w"

text \<open>In round \<open>i\<close> the role \<open>j\<close> (0 for \<open>a\<close>, 4 for \<open>e\<close>) is played by the register \<open>rot5 i j\<close>.\<close>

definition rot5 :: "nat \<Rightarrow> nat \<Rightarrow> nat" where
  "rot5 i j = (j + 4 * i) mod 5"

definition regs5 :: "nat \<Rightarrow> 'a list \<Rightarrow> 'a regs5" where
  "regs5 i v = (v ! rot5 i 0, v ! rot5 i 1, v ! rot5 i 2, v ! rot5 i 3, v ! rot5 i 4)"

lemma rot5_less [simp]: "rot5 i j < 5"
  by (simp add: rot5_def)

lemma rot5_inj: "j < 5 \<Longrightarrow> k < 5 \<Longrightarrow> rot5 i j = rot5 i k \<longleftrightarrow> j = k"
  by (simp add: rot5_def mod_shift_inj)

lemma rot5_Suc: "rot5 (Suc i) j = rot5 i ((j + 4) mod 5)"
  by (simp add: rot5_def mod_add_left_eq add.assoc)

lemma regs5_Suc: "regs5 i v = (a, b, c, d, e) \<Longrightarrow> regs5 (Suc i) v = (e, a, b, c, d)"
  by (simp add: regs5_def rot5_Suc)

lemma regs5_update:
  assumes "length v = 5" and "regs5 i v = (a, b, c, d, e)"
  shows "regs5 i (v[rot5 i 0 := x]) = (x, b, c, d, e)"
    and "regs5 i (v[rot5 i 1 := x]) = (a, x, c, d, e)"
    and "regs5 i (v[rot5 i 2 := x]) = (a, b, x, d, e)"
    and "regs5 i (v[rot5 i 4 := x]) = (a, b, c, d, x)"
  using assms by (simp_all add: regs5_def nth_list_update rot5_inj)

lemma regs5_start: "i mod 5 = 0 \<Longrightarrow> regs5 i v = (v ! 0, v ! 1, v ! 2, v ! 3, v ! 4)"
proof -
  assume "i mod 5 = 0"
  then obtain q where "i = 5 * q" by (auto simp: mod_eq_0_iff_dvd elim: dvdE)
  then have "rot5 i j = j mod 5" for j
    using mod_mult_self2 [of j 5 "4 * q"] by (simp add: rot5_def)
  then show ?thesis by (simp add: regs5_def)
qed

lemma list5: "length v = 5 \<Longrightarrow> \<exists>a b c d e. v = [a, b, c, d, e]"
  by (auto simp: length_Suc_conv numeral_eq_Suc)

lemma rotl_shifts:
  fixes x :: "'a::len word"
  assumes "0 < k" and "k < LENGTH('a)" and "l = LENGTH('a) - k"
  shows "push_bit k x OR drop_bit l x = word_rotl k x"
proof (rule bit_word_eqI)
  fix n assume n: "n < LENGTH('a)"
  show "bit (push_bit k x OR drop_bit l x) n = bit (word_rotl k x) n"
  proof (cases "k \<le> n")
    case True
    with assms n have "(n + (LENGTH('a) - k)) mod LENGTH('a) = n - k" and "\<not> bit x (n + l)"
      by (auto simp: le_mod_geq dest: bit_imp_le_length)
    with assms n True show ?thesis
      by (auto simp: bit_simps bit_word_rotl_iff add.commute)
  next
    case False
    with assms n have "(n + (LENGTH('a) - k)) mod LENGTH('a) = n + l"
      by simp
    with assms n False show ?thesis
      by (auto simp: bit_simps bit_word_rotl_iff add.commute)
  qed
qed

end
