(* ===== verification/Sha1.thy ===== *)
theory Sha1
  imports Registers5
begin

text \<open>
  \<^verbatim>\<open>src/crypto/sha1.cpp\<close>: \<open>sha1::Transform\<close> and the class \<open>CSHA1\<close>. The 80 unrolled calls of
  \<open>Round\<close> are the steps of \<open>sha1_step\<close>.
\<close>

section \<open>The block transform\<close>

text \<open>\<open>Round\<close> returns the new values of its reference parameters \<open>b\<close> and \<open>e\<close>.\<close>

definition sha1_Round :: "u32 \<Rightarrow> u32 \<Rightarrow> u32 \<Rightarrow> u32 \<Rightarrow> u32 \<Rightarrow> u32 \<Rightarrow> u32 \<Rightarrow> u32 \<Rightarrow> u32 \<times> u32" where
  "sha1_Round a b c d e f k w =
     (push_bit 30 b OR drop_bit 2 b, e + ((push_bit 5 a OR drop_bit 27 a) + f + k + w))"

definition sha1_f1 :: "u32 \<Rightarrow> u32 \<Rightarrow> u32 \<Rightarrow> u32" where
  "sha1_f1 b c d = d XOR (b AND (c XOR d))"

definition sha1_f2 :: "u32 \<Rightarrow> u32 \<Rightarrow> u32 \<Rightarrow> u32" where
  "sha1_f2 b c d = b XOR c XOR d"

definition sha1_f3 :: "u32 \<Rightarrow> u32 \<Rightarrow> u32 \<Rightarrow> u32" where
  "sha1_f3 b c d = (b AND c) OR (d AND (b OR c))"

definition sha1_left :: "u32 \<Rightarrow> u32" where
  "sha1_left x = push_bit 1 x OR drop_bit 31 x"

definition sha1_Initialize :: "u32 list" where
  "sha1_Initialize = [0x67452301, 0xEFCDAB89, 0x98BADCFE, 0x10325476, 0xC3D2E1F0]"

text \<open>The function and the constant of the call in round \<open>i\<close>.\<close>

definition sha1_f :: "nat \<Rightarrow> u32 \<Rightarrow> u32 \<Rightarrow> u32 \<Rightarrow> u32" where
  "sha1_f i = (if i < 20 then sha1_f1 else if i < 40 then sha1_f2 else if i < 60 then sha1_f3 else sha1_f2)"

definition sha1_k :: "nat \<Rightarrow> u32" where
  "sha1_k i = (if i < 20 then 0x5A827999 else if i < 40 then 0x6ED9EBA1
     else if i < 60 then 0x8F1BBCDC else 0xCA62C1D6)"

definition sha1_word :: "bytes \<Rightarrow> nat \<Rightarrow> u32 list \<Rightarrow> u32" where
  "sha1_word chunk i w =
     (if i < 16 then ReadBE32 (drop (4 * i) chunk)
      else sha1_left (w ! (i mod 16) XOR w ! ((i + 13) mod 16) XOR w ! ((i + 8) mod 16) XOR w ! ((i + 2) mod 16)))"

text \<open>The last three rounds use the word without storing it.\<close>

definition sha1_step :: "bytes \<Rightarrow> nat \<Rightarrow> u32 list \<times> u32 list \<Rightarrow> u32 list \<times> u32 list" where
  "sha1_step chunk i vw =
     (case vw of (v, w) \<Rightarrow>
      let wi = sha1_word chunk i w;
          b = v ! rot5 i 1; c = v ! rot5 i 2; d = v ! rot5 i 3;
          (b', e') = sha1_Round (v ! rot5 i 0) b c d (v ! rot5 i 4) (sha1_f i b c d) (sha1_k i) wi
      in (v[rot5 i 1 := b', rot5 i 4 := e'], if i < 77 then w[i mod 16 := wi] else w))"

definition sha1_Transform :: "u32 list \<Rightarrow> bytes \<Rightarrow> u32 list" where
  "sha1_Transform s chunk =
     (let v = fst (foldl (\<lambda>vw i. sha1_step chunk i vw) (s, replicate 16 0) [0..<80])
      in map2 (+) s v)"

section \<open>The class CSHA1\<close>

definition CSHA1 :: "bytes \<Rightarrow> u32 list hasher" where
  "CSHA1 buf0 = \<lparr>hs = sha1_Initialize, hbuf = buf0, hbytes = 0\<rparr>"

definition CSHA1_Write :: "u32 list hasher \<Rightarrow> bytes \<Rightarrow> u32 list hasher" where
  "CSHA1_Write h data = md_write 64 sha1_Transform h data"

definition CSHA1_pad :: bytes where
  "CSHA1_pad = 0x80 # replicate 63 0"

definition CSHA1_Finalize :: "u32 list hasher \<Rightarrow> bytes \<times> u32 list hasher" where
  "CSHA1_Finalize h =
     (let sizedesc = WriteBE64 (push_bit 3 (hbytes h));
          h1 = CSHA1_Write h (take (1 + ((119 - (unat (hbytes h) mod 64)) mod 64)) CSHA1_pad);
          h2 = CSHA1_Write h1 sizedesc
      in (WriteBE32 (hs h2 ! 0) @ WriteBE32 (hs h2 ! 1) @ WriteBE32 (hs h2 ! 2) @ WriteBE32 (hs h2 ! 3)
            @ WriteBE32 (hs h2 ! 4), h2))"

definition CSHA1_Reset :: "u32 list hasher \<Rightarrow> u32 list hasher" where
  "CSHA1_Reset h = h\<lparr>hbytes := 0, hs := sha1_Initialize\<rparr>"

section \<open>Reference: the standard's compression function and hash\<close>

fun sha1_ref_W :: "bytes \<Rightarrow> nat \<Rightarrow> u32" where
  "sha1_ref_W chunk t =
     (if t < 16 then ReadBE32 (drop (4 * t) chunk)
      else word_rotl 1 (sha1_ref_W chunk (t - 3) XOR sha1_ref_W chunk (t - 8)
             XOR sha1_ref_W chunk (t - 14) XOR sha1_ref_W chunk (t - 16)))"

declare sha1_ref_W.simps [simp del]

definition sha1_ref_f :: "nat \<Rightarrow> u32 \<Rightarrow> u32 \<Rightarrow> u32 \<Rightarrow> u32" where
  "sha1_ref_f t x y z =
     (if t < 20 then (x AND y) XOR (NOT x AND z)
      else if 40 \<le> t \<and> t < 60 then (x AND y) XOR (x AND z) XOR (y AND z)
      else x XOR y XOR z)"

fun sha1_ref_round :: "bytes \<Rightarrow> nat \<Rightarrow> u32 regs5 \<Rightarrow> u32 regs5" where
  "sha1_ref_round chunk t (a, b, c, d, e) =
     (word_rotl 5 a + sha1_ref_f t b c d + e + sha1_k t + sha1_ref_W chunk t, a, word_rotl 30 b, c, d)"

definition sha1_compress :: "u32 list \<Rightarrow> bytes \<Rightarrow> u32 list" where
  "sha1_compress s chunk =
     (case foldl (\<lambda>r t. sha1_ref_round chunk t r) (s ! 0, s ! 1, s ! 2, s ! 3, s ! 4) [0..<80] of
        (a, b, c, d, e) \<Rightarrow> [s ! 0 + a, s ! 1 + b, s ! 2 + c, s ! 3 + d, s ! 4 + e])"

definition sha1_padding :: "nat \<Rightarrow> bytes" where
  "sha1_padding n = 0x80 # replicate ((119 - n mod 64) mod 64) 0 @ WriteBE64 (of_nat (8 * n))"

definition sha1 :: "bytes \<Rightarrow> bytes" where
  "sha1 m = concat (map WriteBE32 (foldl sha1_compress sha1_Initialize (chunks 64 (m @ sha1_padding (length m)))))"

section \<open>Correctness\<close>

lemma sha1_f_ref: "sha1_f t x y z = sha1_ref_f t x y z"
proof -
  have "z XOR (x AND (y XOR z)) = (x AND y) XOR (NOT x AND z)"
    and "(x AND y) OR (z AND (x OR y)) = (x AND y) XOR (x AND z) XOR (y AND z)"
    by (rule bit_word_eqI, auto simp: bit_simps)+
  then show ?thesis
    by (auto simp: sha1_f_def sha1_ref_f_def sha1_f1_def sha1_f2_def sha1_f3_def)
qed

lemma sha1_left_rotl: "sha1_left x = word_rotl 1 x"
  unfolding sha1_left_def by (rule rotl_shifts) simp_all

definition sha1_window :: "bytes \<Rightarrow> nat \<Rightarrow> u32 list \<Rightarrow> bool" where
  "sha1_window chunk i w \<longleftrightarrow> length w = 16 \<and>
     (\<forall>m. m < i \<and> m < 77 \<and> min i 77 \<le> m + 16 \<longrightarrow> w ! (m mod 16) = sha1_ref_W chunk m)"

lemma sha1_word_window:
  assumes "sha1_window chunk i w" and "i < 80"
  shows "sha1_word chunk i w = sha1_ref_W chunk i"
proof (cases "i < 16")
  case True
  then show ?thesis by (simp add: sha1_word_def sha1_ref_W.simps)
next
  case False
  have at: "w ! (m mod 16) = sha1_ref_W chunk m" if "m < i" "i \<le> m + 16" "m < 77" for m
    using assms(1) that by (auto simp: sha1_window_def)
  have m: "i mod 16 = (i - 16) mod 16" "(i + 13) mod 16 = (i - 3) mod 16"
    "(i + 8) mod 16 = (i - 8) mod 16" "(i + 2) mod 16 = (i - 14) mod 16"
    using False mod_add_self2 [of "i - 16" 16] mod_add_self2 [of "i - 3" 16]
      mod_add_self2 [of "i - 8" 16] mod_add_self2 [of "i - 14" 16] by (simp_all add: add.commute)
  show ?thesis
    using False assms(2) unfolding sha1_word_def m sha1_left_rotl
    by (simp add: at sha1_ref_W.simps [of chunk i] xor.assoc xor.left_commute xor.commute)
qed

lemma sha1_window_step:
  assumes "sha1_window chunk i w" and "i < 80"
  shows "sha1_window chunk (Suc i) (if i < 77 then w[i mod 16 := sha1_ref_W chunk i] else w)"
proof -
  have "i mod 16 \<noteq> m mod 16" if "m < i" "i \<le> 15 + m" for m
    using that mod_distinct [of m i 16] by simp
  then show ?thesis
    using assms by (auto simp: sha1_window_def nth_list_update less_Suc_eq min_def)
qed

lemma sha1_step_ref:
  assumes "length v = 5" and "regs5 i v = r" and "sha1_window chunk i w" and "i < 80"
    and "sha1_step chunk i (v, w) = (v', w')"
  shows "length v' = 5 \<and> regs5 (Suc i) v' = sha1_ref_round chunk i r \<and> sha1_window chunk (Suc i) w'"
proof -
  obtain a b c d e where r: "r = (a, b, c, d, e)" by (cases r) auto
  let ?b = "word_rotl 30 b" and ?e = "e + (word_rotl 5 a + sha1_ref_f i b c d + sha1_k i + sha1_ref_W chunk i)"
  have v': "v' = v[rot5 i 1 := ?b, rot5 i 4 := ?e]"
    and w': "w' = (if i < 77 then w[i mod 16 := sha1_ref_W chunk i] else w)"
    using assms r sha1_word_window [OF assms(3,4)]
    by (auto simp: sha1_step_def sha1_Round_def sha1_f_ref rotl_shifts regs5_def Let_def)
  have "regs5 i (v[rot5 i 1 := ?b]) = (a, ?b, c, d, e)"
    using assms(1,2) r by (simp only: regs5_update)
  then have "regs5 i v' = (a, ?b, c, d, ?e)"
    unfolding v' using regs5_update(4) [of "v[rot5 i 1 := ?b]"] assms(1) by simp
  then have "regs5 (Suc i) v' = (?e, a, ?b, c, d)"
    by (rule regs5_Suc)
  then show ?thesis
    using sha1_window_step [OF assms(3,4)] assms(1) r by (simp add: v' w' algebra_simps)
qed

lemma sha1_rounds:
  assumes "length v = 5" and "length w = 16" and "n \<le> 80"
  shows "\<exists>v' w'. foldl (\<lambda>vw i. sha1_step chunk i vw) (v, w) [0..<n] = (v', w') \<and> length v' = 5
    \<and> sha1_window chunk n w' \<and> regs5 n v' = foldl (\<lambda>r t. sha1_ref_round chunk t r) (regs5 0 v) [0..<n]"
  using assms(3)
proof (induction n)
  case 0
  then show ?case using assms by (simp add: sha1_window_def)
next
  case (Suc n)
  then obtain v' w' where *: "foldl (\<lambda>vw i. sha1_step chunk i vw) (v, w) [0..<n] = (v', w')"
    "length v' = 5" "regs5 n v' = foldl (\<lambda>r t. sha1_ref_round chunk t r) (regs5 0 v) [0..<n]" "sha1_window chunk n w'"
    by auto
  obtain v'' w'' where st: "sha1_step chunk n (v', w') = (v'', w'')" by (cases "sha1_step chunk n (v', w')") auto
  from sha1_step_ref [OF *(2,3,4) _ st] Suc.prems * st show ?case by simp
qed

lemma sha1_Transform_compress:
  assumes "length s = 5"
  shows "sha1_Transform s chunk = sha1_compress s chunk"
proof -
  obtain v w where "foldl (\<lambda>vw i. sha1_step chunk i vw) (s, replicate 16 0) [0..<80] = (v, w)"
    and v: "length v = 5" "foldl (\<lambda>r t. sha1_ref_round chunk t r) (regs5 0 s) [0..<80] = regs5 80 v"
    using sha1_rounds [OF assms, of "replicate 16 0" 80 chunk] by (metis length_replicate order_refl)
  moreover obtain a b c d e where "v = [a, b, c, d, e]" using list5 [OF v(1)] by auto
  moreover obtain a b c d e where "s = [a, b, c, d, e]" using list5 [OF assms] by auto
  ultimately show ?thesis
    by (simp add: sha1_Transform_def sha1_compress_def regs5_start)
qed

lemma length_sha1_compress [simp, hash_simps]: "length (sha1_compress s chunk) = 5"
  by (simp add: sha1_compress_def split: prod.splits)

lemma length_sha1_Initialize [simp, hash_simps]: "length sha1_Initialize = 5"
  by (simp add: sha1_Initialize_def)

lemma length_foldl_sha1_compress [simp, hash_simps]:
  "length s = 5 \<Longrightarrow> length (foldl sha1_compress s cs) = 5"
  by (induction cs arbitrary: s) auto

lemma CSHA1_Write_absorbs:
  assumes "absorbed 64 sha1_compress s0 h m" and "length s0 = 5"
  shows "absorbed 64 sha1_compress s0 (CSHA1_Write h data) (m @ data)"
proof -
  have "CSHA1_Write h data = md_write 64 sha1_compress h data"
    unfolding CSHA1_Write_def
    by (rule md_write_cong [where I = "\<lambda>s. length s = 5"])
      (use assms in \<open>simp_all add: sha1_Transform_compress absorbed_def\<close>)
  then show ?thesis
    using md_write_absorbed [OF assms(1)] by simp
qed

definition CSHA1_pad_of :: "u64 \<Rightarrow> bytes" where
  "CSHA1_pad_of n = take (1 + ((119 - (unat n mod 64)) mod 64)) CSHA1_pad"

definition CSHA1_sizedesc_of :: "u64 \<Rightarrow> bytes" where
  "CSHA1_sizedesc_of n = WriteBE64 (push_bit 3 n)"

definition CSHA1_out :: "u32 list \<Rightarrow> bytes" where
  "CSHA1_out s = WriteBE32 (s ! 0) @ WriteBE32 (s ! 1) @ WriteBE32 (s ! 2) @ WriteBE32 (s ! 3) @ WriteBE32 (s ! 4)"

lemma take_CSHA1_pad: "k < 64 \<Longrightarrow> take (1 + k) CSHA1_pad = 0x80 # replicate k 0"
  by (simp add: CSHA1_pad_def min_def)

lemma CSHA1_padding:
  "CSHA1_pad_of (of_nat n) @ CSHA1_sizedesc_of (of_nat n) = sha1_padding n"
proof -
  have "unat (of_nat n :: u64) mod 64 = n mod 64"
    by (simp add: unat_of_nat mod_mod_cancel)
  then show ?thesis
    using take_CSHA1_pad [of "(119 - n mod 64) mod 64"]
    by (simp add: CSHA1_pad_of_def CSHA1_sizedesc_of_def sha1_padding_def push_bit_3_of_nat)
qed

lemma length_sha1_padding: "64 dvd n + length (sha1_padding n)"
  using padded_length [of 8 64 119 n] by (simp add: sha1_padding_def add.commute add.left_commute)

interpretation csha1: md_hash 64 sha1_compress sha1_Initialize CSHA1_Write
  CSHA1_pad_of CSHA1_sizedesc_of CSHA1_out
proof
  fix m :: bytes
  have "length m + length (CSHA1_pad_of (of_nat (length m)) @ CSHA1_sizedesc_of (of_nat (length m)))
    = length m + length (sha1_padding (length m))"
    by (simp only: CSHA1_padding)
  then show "64 dvd length m + length (CSHA1_pad_of (of_nat (length m))) + length (CSHA1_sizedesc_of (of_nat (length m)))"
    using length_sha1_padding [of "length m"] by (simp add: add.assoc)
qed (simp_all add: CSHA1_Write_absorbs)

lemma CSHA1_Finalize_out:
  "fst (CSHA1_Finalize h) = CSHA1_out (hs (CSHA1_Write (CSHA1_Write h (CSHA1_pad_of (hbytes h))) (CSHA1_sizedesc_of (hbytes h))))"
  by (simp add: CSHA1_Finalize_def CSHA1_out_def CSHA1_pad_of_def CSHA1_sizedesc_of_def Let_def)

lemma CSHA1_out_concat: "length s = 5 \<Longrightarrow> CSHA1_out s = concat (map WriteBE32 s)"
  by (auto simp: CSHA1_out_def length_Suc_conv numeral_eq_Suc)

lemma CSHA1_Finalize_absorbed:
  assumes "absorbed 64 sha1_compress sha1_Initialize h m"
  shows "fst (CSHA1_Finalize h) = sha1 m"
  using csha1.final_state [OF assms]
  by (simp add: CSHA1_Finalize_out sha1_def CSHA1_padding CSHA1_out_concat)

lemma CSHA1_absorbed:
  "length buf0 = 64 \<Longrightarrow> absorbed 64 sha1_compress sha1_Initialize (CSHA1 buf0) []"
  by (simp add: CSHA1_def absorbed_init)

lemma length_sha1 [simp, hash_simps]: "length (sha1 m) = 20"
  by (simp add: sha1_def)

section \<open>Properties\<close>

text \<open>
  However a message is cut into calls of \<open>CSHA1::Write\<close>, and whatever the uninitialised
  buffer holds at first, \<open>Finalize\<close> returns the SHA-1 hash of the concatenation of the data;
  the hash is the one of the standard, with shifted registers and a full message schedule.
\<close>

theorem CSHA1_streaming:
  assumes "length buf0 = 64"
  shows "fst (CSHA1_Finalize (foldl CSHA1_Write (CSHA1 buf0) ds)) = sha1 (concat ds)"
  using csha1.writes_absorb [OF CSHA1_absorbed [OF assms], of ds]
  by (simp add: CSHA1_Finalize_absorbed)

theorem CSHA1_streaming_witness:
  "length (replicate 64 (0xff :: byte)) = 64
    \<and> fst (CSHA1_Finalize (foldl CSHA1_Write (CSHA1 (replicate 64 0xff)) [[0x61], [], [0x62, 0x63]]))
      = sha1 [0x61, 0x62, 0x63]"
  using CSHA1_streaming [of "replicate 64 0xff" "[[0x61], [], [0x62, 0x63]]"] by simp

end
