(* ===== verification/Ripemd160.thy ===== *)
theory Ripemd160
  imports Registers5
begin

text \<open>
  \<^verbatim>\<open>src/crypto/ripemd160.cpp\<close>: \<open>ripemd160::Transform\<close>, whose 160 unrolled calls interleave
  two lines of 80 rounds, and the class \<open>CRIPEMD160\<close>. The tables give, for each call of a
  line in order, the message word and the shift the source passes.
\<close>

section \<open>The block transform\<close>

definition ripemd160_f1 :: "u32 \<Rightarrow> u32 \<Rightarrow> u32 \<Rightarrow> u32" where
  "ripemd160_f1 x y z = x XOR y XOR z"

definition ripemd160_f2 :: "u32 \<Rightarrow> u32 \<Rightarrow> u32 \<Rightarrow> u32" where
  "ripemd160_f2 x y z = (x AND y) OR (NOT x AND z)"

definition ripemd160_f3 :: "u32 \<Rightarrow> u32 \<Rightarrow> u32 \<Rightarrow> u32" where
  "ripemd160_f3 x y z = (x OR NOT y) XOR z"

definition ripemd160_f4 :: "u32 \<Rightarrow> u32 \<Rightarrow> u32 \<Rightarrow> u32" where
  "ripemd160_f4 x y z = (x AND z) OR (y AND NOT z)"

definition ripemd160_f5 :: "u32 \<Rightarrow> u32 \<Rightarrow> u32 \<Rightarrow> u32" where
  "ripemd160_f5 x y z = x XOR (y OR NOT z)"

definition ripemd160_Initialize :: "u32 list" where
  "ripemd160_Initialize = [0x67452301, 0xEFCDAB89, 0x98BADCFE, 0x10325476, 0xC3D2E1F0]"

definition ripemd160_rol :: "u32 \<Rightarrow> nat \<Rightarrow> u32" where
  "ripemd160_rol x i = push_bit i x OR drop_bit (32 - i) x"

text \<open>\<open>Round\<close> returns the new values of its reference parameters \<open>a\<close> and \<open>c\<close>.\<close>

definition ripemd160_Round :: "u32 \<Rightarrow> u32 \<Rightarrow> u32 \<Rightarrow> u32 \<Rightarrow> u32 \<Rightarrow> u32 \<Rightarrow> u32 \<Rightarrow> u32 \<Rightarrow> nat \<Rightarrow> u32 \<times> u32" where
  "ripemd160_Round a b c d e f x k r = (ripemd160_rol (a + f + x + k) r + e, ripemd160_rol c 10)"

text \<open>
  \<open>R11\<close>, \<open>R21\<close>, ..., \<open>R51\<close> are the functions of the five groups of sixteen rounds of the
  first line, \<open>R12\<close>, ..., \<open>R52\<close> those of the second.
\<close>

definition ripemd160_R1 :: "nat \<Rightarrow> u32 \<Rightarrow> u32 \<Rightarrow> u32 \<Rightarrow> u32 \<Rightarrow> u32 \<Rightarrow> u32 \<Rightarrow> nat \<Rightarrow> u32 \<times> u32" where
  "ripemd160_R1 i a b c d e x r =
     (if i < 16 then ripemd160_Round a b c d e (ripemd160_f1 b c d) x 0 r
      else if i < 32 then ripemd160_Round a b c d e (ripemd160_f2 b c d) x 0x5A827999 r
      else if i < 48 then ripemd160_Round a b c d e (ripemd160_f3 b c d) x 0x6ED9EBA1 r
      else if i < 64 then ripemd160_Round a b c d e (ripemd160_f4 b c d) x 0x8F1BBCDC r
      else ripemd160_Round a b c d e (ripemd160_f5 b c d) x 0xA953FD4E r)"

definition ripemd160_R2 :: "nat \<Rightarrow> u32 \<Rightarrow> u32 \<Rightarrow> u32 \<Rightarrow> u32 \<Rightarrow> u32 \<Rightarrow> u32 \<Rightarrow> nat \<Rightarrow> u32 \<times> u32" where
  "ripemd160_R2 i a b c d e x r =
     (if i < 16 then ripemd160_Round a b c d e (ripemd160_f5 b c d) x 0x50A28BE6 r
      else if i < 32 then ripemd160_Round a b c d e (ripemd160_f4 b c d) x 0x5C4DD124 r
      else if i < 48 then ripemd160_Round a b c d e (ripemd160_f3 b c d) x 0x6D703EF3 r
      else if i < 64 then ripemd160_Round a b c d e (ripemd160_f2 b c d) x 0x7A6D76E9 r
      else ripemd160_Round a b c d e (ripemd160_f1 b c d) x 0 r)"

text \<open>Message word and shift of the calls of the first and of the second line.\<close>

definition ripemd160_line1 :: "(nat \<times> nat) list" where
  "ripemd160_line1 =
    [(0, 11), (1, 14), (2, 15), (3, 12), (4, 5), (5, 8), (6, 7), (7, 9),
     (8, 11), (9, 13), (10, 14), (11, 15), (12, 6), (13, 7), (14, 9), (15, 8),
     (7, 7), (4, 6), (13, 8), (1, 13), (10, 11), (6, 9), (15, 7), (3, 15),
     (12, 7), (0, 12), (9, 15), (5, 9), (2, 11), (14, 7), (11, 13), (8, 12),
     (3, 11), (10, 13), (14, 6), (4, 7), (9, 14), (15, 9), (8, 13), (1, 15),
     (2, 14), (7, 8), (0, 13), (6, 6), (13, 5), (11, 12), (5, 7), (12, 5),
     (1, 11), (9, 12), (11, 14), (10, 15), (0, 14), (8, 15), (12, 9), (4, 8),
     (13, 9), (3, 14), (7, 5), (15, 6), (14, 8), (5, 6), (6, 5), (2, 12),
     (4, 9), (0, 15), (5, 5), (9, 11), (7, 6), (12, 8), (2, 13), (10, 12),
     (14, 5), (1, 12), (3, 13), (8, 14), (11, 11), (6, 8), (15, 5), (13, 6)]"

definition ripemd160_line2 :: "(nat \<times> nat) list" where
  "ripemd160_line2 =
    [(5, 8), (14, 9), (7, 9), (0, 11), (9, 13), (2, 15), (11, 15), (4, 5),
     (13, 7), (6, 7), (15, 8), (8, 11), (1, 14), (10, 14), (3, 12), (12, 6),
     (6, 9), (11, 13), (3, 15), (7, 7), (0, 12), (13, 8), (5, 9), (10, 11),
     (14, 7), (15, 7), (8, 12), (12, 7), (4, 6), (9, 15), (1, 13), (2, 11),
     (15, 9), (5, 7), (1, 15), (3, 11), (7, 8), (14, 6), (6, 6), (9, 14),
     (11, 12), (8, 13), (12, 5), (2, 14), (10, 13), (0, 13), (4, 7), (13, 5),
     (8, 15), (6, 5), (4, 8), (1, 11), (3, 14), (11, 14), (15, 6), (0, 14),
     (5, 6), (12, 9), (2, 12), (13, 9), (9, 12), (7, 5), (10, 15), (14, 8),
     (12, 8), (15, 5), (10, 12), (4, 9), (1, 12), (5, 5), (8, 14), (7, 6),
     (6, 8), (2, 13), (13, 6), (14, 5), (0, 15), (3, 13), (9, 11), (11, 11)]"

text \<open>The two calls of round \<open>i\<close> on the registers \<open>a1..e1\<close> and \<open>a2..e2\<close>.\<close>

definition ripemd160_step :: "u32 list \<Rightarrow> nat \<Rightarrow> u32 list \<times> u32 list \<Rightarrow> u32 list \<times> u32 list" where
  "ripemd160_step w i vv =
     (case vv of (v1, v2) \<Rightarrow>
      let (a1, c1) = ripemd160_R1 i (v1 ! rot5 i 0) (v1 ! rot5 i 1) (v1 ! rot5 i 2) (v1 ! rot5 i 3) (v1 ! rot5 i 4)
                       (w ! fst (ripemd160_line1 ! i)) (snd (ripemd160_line1 ! i));
          (a2, c2) = ripemd160_R2 i (v2 ! rot5 i 0) (v2 ! rot5 i 1) (v2 ! rot5 i 2) (v2 ! rot5 i 3) (v2 ! rot5 i 4)
                       (w ! fst (ripemd160_line2 ! i)) (snd (ripemd160_line2 ! i))
      in (v1[rot5 i 0 := a1, rot5 i 2 := c1], v2[rot5 i 0 := a2, rot5 i 2 := c2]))"

definition ripemd160_Transform :: "u32 list \<Rightarrow> bytes \<Rightarrow> u32 list" where
  "ripemd160_Transform s chunk =
     (let w = map (\<lambda>j. ReadLE32 (drop (4 * j) chunk)) [0..<16];
          (v1, v2) = foldl (\<lambda>vv i. ripemd160_step w i vv) (s, s) [0..<80]
      in [s ! 1 + v1 ! 2 + v2 ! 3, s ! 2 + v1 ! 3 + v2 ! 4, s ! 3 + v1 ! 4 + v2 ! 0,
          s ! 4 + v1 ! 0 + v2 ! 1, s ! 0 + v1 ! 1 + v2 ! 2])"

section \<open>The class CRIPEMD160\<close>

definition CRIPEMD160 :: "bytes \<Rightarrow> u32 list hasher" where
  "CRIPEMD160 buf0 = \<lparr>hs = ripemd160_Initialize, hbuf = buf0, hbytes = 0\<rparr>"

definition CRIPEMD160_Write :: "u32 list hasher \<Rightarrow> bytes \<Rightarrow> u32 list hasher" where
  "CRIPEMD160_Write h data = md_write 64 ripemd160_Transform h data"

definition CRIPEMD160_pad :: bytes where
  "CRIPEMD160_pad = 0x80 # replicate 63 0"

definition CRIPEMD160_Finalize :: "u32 list hasher \<Rightarrow> bytes \<times> u32 list hasher" where
  "CRIPEMD160_Finalize h =
     (let sizedesc = WriteLE64 (push_bit 3 (hbytes h));
          h1 = CRIPEMD160_Write h (take (1 + ((119 - (unat (hbytes h) mod 64)) mod 64)) CRIPEMD160_pad);
          h2 = CRIPEMD160_Write h1 sizedesc
      in (WriteLE32 (hs h2 ! 0) @ WriteLE32 (hs h2 ! 1) @ WriteLE32 (hs h2 ! 2) @ WriteLE32 (hs h2 ! 3)
            @ WriteLE32 (hs h2 ! 4), h2))"

definition CRIPEMD160_Reset :: "u32 list hasher \<Rightarrow> u32 list hasher" where
  "CRIPEMD160_Reset h = h\<lparr>hbytes := 0, hs := ripemd160_Initialize\<rparr>"

section \<open>Reference: two shift registers and a final combination\<close>

text \<open>
  One round on a shift register: \<open>T = rol s (A + f + X + K) + E\<close>, then \<open>A := E\<close>, \<open>E := D\<close>,
  \<open>D := rol 10 C\<close>, \<open>C := B\<close>, \<open>B := T\<close>. The left line uses the functions in the order
  \<open>f1 .. f5\<close>, the right line in the order \<open>f5 .. f1\<close>.
\<close>

definition ripemd160_f :: "nat \<Rightarrow> u32 \<Rightarrow> u32 \<Rightarrow> u32 \<Rightarrow> u32" where
  "ripemd160_f g = [ripemd160_f1, ripemd160_f2, ripemd160_f3, ripemd160_f4, ripemd160_f5] ! g"

definition ripemd160_K1 :: "u32 list" where
  "ripemd160_K1 = [0, 0x5A827999, 0x6ED9EBA1, 0x8F1BBCDC, 0xA953FD4E]"

definition ripemd160_K2 :: "u32 list" where
  "ripemd160_K2 = [0x50A28BE6, 0x5C4DD124, 0x6D703EF3, 0x7A6D76E9, 0]"

fun ripemd160_ref_round :: "(u32 \<Rightarrow> u32 \<Rightarrow> u32 \<Rightarrow> u32) \<Rightarrow> u32 \<Rightarrow> u32 \<Rightarrow> nat \<Rightarrow> u32 regs5 \<Rightarrow> u32 regs5" where
  "ripemd160_ref_round f K X s (A, B, C, D, E) =
     (E, word_rotl s (A + f B C D + X + K) + E, B, word_rotl 10 C, D)"

definition ripemd160_ref_left :: "u32 list \<Rightarrow> nat \<Rightarrow> u32 regs5 \<Rightarrow> u32 regs5" where
  "ripemd160_ref_left w j = ripemd160_ref_round (ripemd160_f (j div 16)) (ripemd160_K1 ! (j div 16))
     (w ! fst (ripemd160_line1 ! j)) (snd (ripemd160_line1 ! j))"

definition ripemd160_ref_right :: "u32 list \<Rightarrow> nat \<Rightarrow> u32 regs5 \<Rightarrow> u32 regs5" where
  "ripemd160_ref_right w j = ripemd160_ref_round (ripemd160_f (4 - j div 16)) (ripemd160_K2 ! (j div 16))
     (w ! fst (ripemd160_line2 ! j)) (snd (ripemd160_line2 ! j))"

definition ripemd160_compress :: "u32 list \<Rightarrow> bytes \<Rightarrow> u32 list" where
  "ripemd160_compress s chunk =
     (let w = map (\<lambda>j. ReadLE32 (drop (4 * j) chunk)) [0..<16];
          r = (s ! 0, s ! 1, s ! 2, s ! 3, s ! 4);
          (A, B, C, D, E) = foldl (\<lambda>r j. ripemd160_ref_left w j r) r [0..<80];
          (A', B', C', D', E') = foldl (\<lambda>r j. ripemd160_ref_right w j r) r [0..<80]
      in [s ! 1 + C + D', s ! 2 + D + E', s ! 3 + E + A', s ! 4 + A + B', s ! 0 + B + C'])"

definition ripemd160_padding :: "nat \<Rightarrow> bytes" where
  "ripemd160_padding n = 0x80 # replicate ((119 - n mod 64) mod 64) 0 @ WriteLE64 (of_nat (8 * n))"

definition ripemd160 :: "bytes \<Rightarrow> bytes" where
  "ripemd160 m = concat (map WriteLE32
     (foldl ripemd160_compress ripemd160_Initialize (chunks 64 (m @ ripemd160_padding (length m)))))"

section \<open>Correctness\<close>

lemma ripemd160_shifts:
  assumes "i < 80"
  shows "0 < snd (ripemd160_line1 ! i) \<and> snd (ripemd160_line1 ! i) < 32
    \<and> 0 < snd (ripemd160_line2 ! i) \<and> snd (ripemd160_line2 ! i) < 32"
proof -
  have "\<forall>p \<in> set ripemd160_line1. 0 < snd p \<and> snd p < 32" "length ripemd160_line1 = 80"
    and "\<forall>p \<in> set ripemd160_line2. 0 < snd p \<and> snd p < 32" "length ripemd160_line2 = 80"
    by (simp_all add: ripemd160_line1_def ripemd160_line2_def)
  with assms show ?thesis by (metis nth_mem)
qed

lemma ripemd160_rol_rotl: "0 < k \<Longrightarrow> k < 32 \<Longrightarrow> ripemd160_rol x k = word_rotl k x"
  unfolding ripemd160_rol_def by (rule rotl_shifts) simp_all

lemma ripemd160_group:
  fixes i :: nat
  assumes "i < 80"
  shows "i div 16 = (if i < 16 then 0 else if i < 32 then 1 else if i < 48 then 2 else if i < 64 then 3 else 4)"
  using assms by (auto intro!: div_nat_eqI)

lemma ripemd160_R_ref:
  assumes "i < 80"
  shows "ripemd160_R1 i a b c d e x r
      = ripemd160_Round a b c d e (ripemd160_f (i div 16) b c d) x (ripemd160_K1 ! (i div 16)) r"
    and "ripemd160_R2 i a b c d e x r
      = ripemd160_Round a b c d e (ripemd160_f (4 - i div 16) b c d) x (ripemd160_K2 ! (i div 16)) r"
  by (simp_all add: ripemd160_group [OF assms] ripemd160_R1_def ripemd160_R2_def ripemd160_f_def
      ripemd160_K1_def ripemd160_K2_def)

text \<open>One in-place round on a line is one round of the shift register.\<close>

lemma ripemd160_line_step:
  assumes "length v = 5" and "regs5 i v = (a, b, c, d, e)" and "0 < s" and "s < 32"
    and "ripemd160_Round a b c d e (f b c d) X K s = (a', c')"
  shows "regs5 (Suc i) (v[rot5 i 0 := a', rot5 i 2 := c']) = ripemd160_ref_round f K X s (a, b, c, d, e)"
proof -
  have "regs5 i (v[rot5 i 0 := a']) = (a', b, c, d, e)"
    using assms(1,2) by (simp only: regs5_update)
  then have "regs5 i (v[rot5 i 0 := a', rot5 i 2 := c']) = (a', b, c', d, e)"
    using assms(1) by (simp only: regs5_update length_list_update)
  then have "regs5 (Suc i) (v[rot5 i 0 := a', rot5 i 2 := c']) = (e, a', b, c', d)"
    by (rule regs5_Suc)
  then show ?thesis
    using assms(3,4,5) by (auto simp: ripemd160_Round_def ripemd160_rol_rotl)
qed

lemma ripemd160_step_ref:
  assumes "length v1 = 5" and "length v2 = 5" and "i < 80" and "ripemd160_step w i (v1, v2) = (u1, u2)"
  shows "length u1 = 5 \<and> length u2 = 5 \<and> regs5 (Suc i) u1 = ripemd160_ref_left w i (regs5 i v1)
    \<and> regs5 (Suc i) u2 = ripemd160_ref_right w i (regs5 i v2)"
proof -
  obtain a1 b1 c1 d1 e1 where r1: "regs5 i v1 = (a1, b1, c1, d1, e1)" by (cases "regs5 i v1") auto
  obtain a2 b2 c2 d2 e2 where r2: "regs5 i v2 = (a2, b2, c2, d2, e2)" by (cases "regs5 i v2") auto
  let ?X1 = "w ! fst (ripemd160_line1 ! i)" and ?s1 = "snd (ripemd160_line1 ! i)"
  let ?X2 = "w ! fst (ripemd160_line2 ! i)" and ?s2 = "snd (ripemd160_line2 ! i)"
  obtain a1' c1' where c1: "ripemd160_Round a1 b1 c1 d1 e1 (ripemd160_f (i div 16) b1 c1 d1) ?X1 (ripemd160_K1 ! (i div 16)) ?s1 = (a1', c1')"
    by (cases "ripemd160_Round a1 b1 c1 d1 e1 (ripemd160_f (i div 16) b1 c1 d1) ?X1 (ripemd160_K1 ! (i div 16)) ?s1") auto
  obtain a2' c2' where c2: "ripemd160_Round a2 b2 c2 d2 e2 (ripemd160_f (4 - i div 16) b2 c2 d2) ?X2 (ripemd160_K2 ! (i div 16)) ?s2 = (a2', c2')"
    by (cases "ripemd160_Round a2 b2 c2 d2 e2 (ripemd160_f (4 - i div 16) b2 c2 d2) ?X2 (ripemd160_K2 ! (i div 16)) ?s2") auto
  have "u1 = v1[rot5 i 0 := a1', rot5 i 2 := c1']" and "u2 = v2[rot5 i 0 := a2', rot5 i 2 := c2']"
    using assms(4) r1 r2 c1 c2
    by (auto simp: ripemd160_step_def ripemd160_R_ref [OF assms(3)] regs5_def Let_def)
  then show ?thesis
    using ripemd160_line_step [where f = "ripemd160_f (i div 16)", OF assms(1) r1 _ _ c1]
      ripemd160_line_step [where f = "ripemd160_f (4 - i div 16)", OF assms(2) r2 _ _ c2]
      ripemd160_shifts [OF assms(3)] assms(1,2) r1 r2
    by (simp add: ripemd160_ref_left_def ripemd160_ref_right_def)
qed

lemma ripemd160_rounds:
  assumes "length s = 5" and "n \<le> 80"
  shows "\<exists>v1 v2. foldl (\<lambda>vv i. ripemd160_step w i vv) (s, s) [0..<n] = (v1, v2) \<and> length v1 = 5 \<and> length v2 = 5
    \<and> foldl (\<lambda>r j. ripemd160_ref_left w j r) (regs5 0 s) [0..<n] = regs5 n v1
    \<and> foldl (\<lambda>r j. ripemd160_ref_right w j r) (regs5 0 s) [0..<n] = regs5 n v2"
  using assms(2)
proof (induction n)
  case 0
  then show ?case using assms by simp
next
  case (Suc n)
  then obtain v1 v2 where *: "foldl (\<lambda>vv i. ripemd160_step w i vv) (s, s) [0..<n] = (v1, v2)"
    "length v1 = 5" "length v2 = 5"
    "foldl (\<lambda>r j. ripemd160_ref_left w j r) (regs5 0 s) [0..<n] = regs5 n v1"
    "foldl (\<lambda>r j. ripemd160_ref_right w j r) (regs5 0 s) [0..<n] = regs5 n v2"
    by auto
  obtain u1 u2 where st: "ripemd160_step w n (v1, v2) = (u1, u2)" by (cases "ripemd160_step w n (v1, v2)") auto
  from ripemd160_step_ref [OF *(2,3) _ st] Suc.prems * st show ?case by simp
qed

lemma ripemd160_Transform_compress:
  assumes "length s = 5"
  shows "ripemd160_Transform s chunk = ripemd160_compress s chunk"
proof -
  let ?w = "map (\<lambda>j. ReadLE32 (drop (4 * j) chunk)) [0..<16]"
  obtain v1 v2 where "foldl (\<lambda>vv i. ripemd160_step ?w i vv) (s, s) [0..<80] = (v1, v2)"
    "foldl (\<lambda>r j. ripemd160_ref_left ?w j r) (regs5 0 s) [0..<80] = regs5 80 v1"
    "foldl (\<lambda>r j. ripemd160_ref_right ?w j r) (regs5 0 s) [0..<80] = regs5 80 v2"
    using ripemd160_rounds [OF assms, of 80 ?w] by auto
  then show ?thesis
    by (simp add: ripemd160_Transform_def ripemd160_compress_def regs5_start Let_def)
qed

lemma length_ripemd160_compress [simp, hash_simps]: "length (ripemd160_compress s chunk) = 5"
  by (simp add: ripemd160_compress_def Let_def split: prod.splits)

lemma length_ripemd160_Initialize [simp, hash_simps]: "length ripemd160_Initialize = 5"
  by (simp add: ripemd160_Initialize_def)

lemma length_foldl_ripemd160_compress [simp, hash_simps]:
  "length s = 5 \<Longrightarrow> length (foldl ripemd160_compress s cs) = 5"
  by (induction cs arbitrary: s) auto

lemma CRIPEMD160_Write_absorbs:
  assumes "absorbed 64 ripemd160_compress s0 h m" and "length s0 = 5"
  shows "absorbed 64 ripemd160_compress s0 (CRIPEMD160_Write h data) (m @ data)"
proof -
  have "CRIPEMD160_Write h data = md_write 64 ripemd160_compress h data"
    unfolding CRIPEMD160_Write_def
    by (rule md_write_cong [where I = "\<lambda>s. length s = 5"])
      (use assms in \<open>simp_all add: ripemd160_Transform_compress absorbed_def\<close>)
  then show ?thesis
    using md_write_absorbed [OF assms(1)] by simp
qed

definition CRIPEMD160_pad_of :: "u64 \<Rightarrow> bytes" where
  "CRIPEMD160_pad_of n = take (1 + ((119 - (unat n mod 64)) mod 64)) CRIPEMD160_pad"

definition CRIPEMD160_sizedesc_of :: "u64 \<Rightarrow> bytes" where
  "CRIPEMD160_sizedesc_of n = WriteLE64 (push_bit 3 n)"

definition CRIPEMD160_out :: "u32 list \<Rightarrow> bytes" where
  "CRIPEMD160_out s = WriteLE32 (s ! 0) @ WriteLE32 (s ! 1) @ WriteLE32 (s ! 2) @ WriteLE32 (s ! 3) @ WriteLE32 (s ! 4)"

lemma take_CRIPEMD160_pad: "k < 64 \<Longrightarrow> take (1 + k) CRIPEMD160_pad = 0x80 # replicate k 0"
  by (simp add: CRIPEMD160_pad_def min_def)

lemma CRIPEMD160_padding:
  "CRIPEMD160_pad_of (of_nat n) @ CRIPEMD160_sizedesc_of (of_nat n) = ripemd160_padding n"
proof -
  have "unat (of_nat n :: u64) mod 64 = n mod 64"
    by (simp add: unat_of_nat mod_mod_cancel)
  then show ?thesis
    using take_CRIPEMD160_pad [of "(119 - n mod 64) mod 64"]
    by (simp add: CRIPEMD160_pad_of_def CRIPEMD160_sizedesc_of_def ripemd160_padding_def push_bit_3_of_nat)
qed

lemma length_ripemd160_padding: "64 dvd n + length (ripemd160_padding n)"
  using padded_length [of 8 64 119 n] by (simp add: ripemd160_padding_def add.commute add.left_commute)

interpretation cripemd160: md_hash 64 ripemd160_compress ripemd160_Initialize CRIPEMD160_Write
  CRIPEMD160_pad_of CRIPEMD160_sizedesc_of CRIPEMD160_out
proof
  fix m :: bytes
  have "length m + length (CRIPEMD160_pad_of (of_nat (length m)) @ CRIPEMD160_sizedesc_of (of_nat (length m)))
    = length m + length (ripemd160_padding (length m))"
    by (simp only: CRIPEMD160_padding)
  then show "64 dvd length m + length (CRIPEMD160_pad_of (of_nat (length m))) + length (CRIPEMD160_sizedesc_of (of_nat (length m)))"
    using length_ripemd160_padding [of "length m"] by (simp add: add.assoc)
qed (simp_all add: CRIPEMD160_Write_absorbs)

lemma CRIPEMD160_Finalize_out:
  "fst (CRIPEMD160_Finalize h) = CRIPEMD160_out (hs (CRIPEMD160_Write (CRIPEMD160_Write h (CRIPEMD160_pad_of (hbytes h))) (CRIPEMD160_sizedesc_of (hbytes h))))"
  by (simp add: CRIPEMD160_Finalize_def CRIPEMD160_out_def CRIPEMD160_pad_of_def CRIPEMD160_sizedesc_of_def Let_def)

lemma CRIPEMD160_out_concat: "length s = 5 \<Longrightarrow> CRIPEMD160_out s = concat (map WriteLE32 s)"
  by (auto simp: CRIPEMD160_out_def length_Suc_conv numeral_eq_Suc)

lemma CRIPEMD160_Finalize_absorbed:
  assumes "absorbed 64 ripemd160_compress ripemd160_Initialize h m"
  shows "fst (CRIPEMD160_Finalize h) = ripemd160 m"
  using cripemd160.final_state [OF assms]
  by (simp add: CRIPEMD160_Finalize_out ripemd160_def CRIPEMD160_padding CRIPEMD160_out_concat)

lemma CRIPEMD160_absorbed:
  "length buf0 = 64 \<Longrightarrow> absorbed 64 ripemd160_compress ripemd160_Initialize (CRIPEMD160 buf0) []"
  by (simp add: CRIPEMD160_def absorbed_init)

lemma length_ripemd160 [simp, hash_simps]: "length (ripemd160 m) = 20"
  by (simp add: ripemd160_def)

section \<open>Properties\<close>

text \<open>
  However a message is cut into calls of \<open>CRIPEMD160::Write\<close>, and whatever the uninitialised
  buffer holds at first, \<open>Finalize\<close> returns the RIPEMD-160 hash of the concatenation of the data;
  the hash is the one of the published algorithm, with two shift registers.
\<close>

theorem CRIPEMD160_streaming:
  assumes "length buf0 = 64"
  shows "fst (CRIPEMD160_Finalize (foldl CRIPEMD160_Write (CRIPEMD160 buf0) ds)) = ripemd160 (concat ds)"
  using cripemd160.writes_absorb [OF CRIPEMD160_absorbed [OF assms], of ds]
  by (simp add: CRIPEMD160_Finalize_absorbed)

theorem CRIPEMD160_streaming_witness:
  "length (replicate 64 (0xff :: byte)) = 64
    \<and> fst (CRIPEMD160_Finalize (foldl CRIPEMD160_Write (CRIPEMD160 (replicate 64 0xff)) [[0x61], [], [0x62, 0x63]]))
      = ripemd160 [0x61, 0x62, 0x63]"
  using CRIPEMD160_streaming [of "replicate 64 0xff" "[[0x61], [], [0x62, 0x63]]"] by simp

end
