(* ===== verification/Hashes.thy ===== *)
theory Hashes
  imports Sha256 Sha512 Sha1 Ripemd160
begin

text \<open>
  The hash front ends built on the digest classes: \<open>CHash256\<close>, \<open>CHash160\<close> and the free functions
  of \<^verbatim>\<open>src/hash.h\<close>, the keyed hashes of \<^verbatim>\<open>src/crypto/hmac_sha256.cpp\<close> and
  \<^verbatim>\<open>hmac_sha512.cpp\<close>, and the SipHash of \<^verbatim>\<open>src/hash.cpp\<close>. What they need of a digest class is the
  locale \<open>stream_hash\<close>, interpreted on each of the four classes.
\<close>

section \<open>What a client relies on\<close>

locale stream_hash =
  fixes B L :: nat
    and ctor :: "bytes \<Rightarrow> 's hasher"
    and wr :: "'s hasher \<Rightarrow> bytes \<Rightarrow> 's hasher"
    and fin :: "'s hasher \<Rightarrow> bytes \<times> 's hasher"
    and H :: "bytes \<Rightarrow> bytes"
  assumes digest: "length buf0 = B \<Longrightarrow> fst (fin (foldl wr (ctor buf0) ds)) = H (concat ds)"
    and length_H: "length (H m) = L"
    and L_le: "L \<le> B"
begin

lemma digest1: "length buf0 = B \<Longrightarrow> fst (fin (wr (ctor buf0) d)) = H d"
  using digest [of buf0 "[d]"] by simp

lemma digest_after:
  "length buf0 = B \<Longrightarrow> fst (fin (foldl wr (wr (ctor buf0) k) ds)) = H (k @ concat ds)"
  using digest [of buf0 "k # ds"] by simp

end

interpretation sha256: stream_hash 64 32 CSHA256 CSHA256_Write CSHA256_Finalize sha256
  using csha256.writes_absorb [OF CSHA256_absorbed]
  by unfold_locales (simp_all add: CSHA256_Finalize_absorbed)

interpretation sha512: stream_hash 128 64 CSHA512 CSHA512_Write CSHA512_Finalize sha512
  using csha512.writes_absorb [OF CSHA512_absorbed]
  by unfold_locales (simp_all add: CSHA512_Finalize_absorbed)

interpretation sha1: stream_hash 64 20 CSHA1 CSHA1_Write CSHA1_Finalize sha1
  using csha1.writes_absorb [OF CSHA1_absorbed]
  by unfold_locales (simp_all add: CSHA1_Finalize_absorbed)

interpretation ripemd160: stream_hash 64 20 CRIPEMD160 CRIPEMD160_Write CRIPEMD160_Finalize ripemd160
  using cripemd160.writes_absorb [OF CRIPEMD160_absorbed]
  by unfold_locales (simp_all add: CRIPEMD160_Finalize_absorbed)

text \<open>
  The buffers of the digest objects are uninitialised in C++. The digests do not depend on them, so the
  client theories fix their contents.
\<close>

definition fresh_buf :: bytes where
  "fresh_buf = replicate 64 0"

lemma length_fresh_buf [simp]: "length fresh_buf = 64"
  by (simp add: fresh_buf_def)

section \<open>CHash256 and CHash160\<close>

text \<open>
  An object is its member \<open>sha\<close>. The contents of the uninitialised buffer of the
  \<open>CRIPEMD160\<close> that \<open>CHash160::Finalize\<close> creates are the argument \<open>buf1\<close>.
\<close>

type_synonym chash = "u32 list hasher"

definition CHash256_Write :: "chash \<Rightarrow> bytes \<Rightarrow> chash" where
  "CHash256_Write sha data = CSHA256_Write sha data"

definition CHash256_Finalize :: "chash \<Rightarrow> bytes \<times> chash" where
  "CHash256_Finalize sha =
     (case CSHA256_Finalize sha of (buf, sha') \<Rightarrow>
      CSHA256_Finalize (CSHA256_Write (CSHA256_Reset sha') buf))"

definition CHash256_Reset :: "chash \<Rightarrow> chash" where
  "CHash256_Reset sha = CSHA256_Reset sha"

definition CHash160_Write :: "chash \<Rightarrow> bytes \<Rightarrow> chash" where
  "CHash160_Write sha data = CSHA256_Write sha data"

definition CHash160_Finalize :: "bytes \<Rightarrow> chash \<Rightarrow> bytes \<times> chash" where
  "CHash160_Finalize buf1 sha =
     (case CSHA256_Finalize sha of (buf, sha') \<Rightarrow>
      (fst (CRIPEMD160_Finalize (CRIPEMD160_Write (CRIPEMD160 buf1) buf)), sha'))"

definition CHash160_Reset :: "chash \<Rightarrow> chash" where
  "CHash160_Reset sha = CSHA256_Reset sha"

text \<open>The free functions \<open>Hash\<close> of one to six ranges, and \<open>Hash160\<close>.\<close>

definition Hash :: "bytes \<Rightarrow> bytes list \<Rightarrow> bytes" where
  "Hash buf0 ds = fst (CHash256_Finalize (foldl CHash256_Write (CSHA256 buf0) ds))"

definition Hash160 :: "bytes \<Rightarrow> bytes \<Rightarrow> bytes \<Rightarrow> bytes" where
  "Hash160 buf0 buf1 vch = fst (CHash160_Finalize buf1 (CHash160_Write (CSHA256 buf0) vch))"

text \<open>The writer stream \<open>CHashWriter\<close>: the serialised bytes go to a \<open>CHash256\<close>.\<close>

definition CHashWriter_write :: "chash \<Rightarrow> bytes \<Rightarrow> chash" where
  "CHashWriter_write ctx pch = CHash256_Write ctx pch"

definition CHashWriter_GetHash :: "chash \<Rightarrow> bytes" where
  "CHashWriter_GetHash ctx = fst (CHash256_Finalize ctx)"

subsection \<open>Correctness\<close>

abbreviation hash256 :: "bytes \<Rightarrow> bytes" where
  "hash256 m \<equiv> sha256 (sha256 m)"

abbreviation hash160 :: "bytes \<Rightarrow> bytes" where
  "hash160 m \<equiv> ripemd160 (sha256 m)"

lemma CSHA256_Finalize_object:
  assumes "absorbed 64 sha256_compress sha256_Initialize h m"
  shows "length (hbuf (snd (CSHA256_Finalize h))) = 64"
proof -
  have "absorbed 64 sha256_compress sha256_Initialize (snd (CSHA256_Finalize h))
    ((m @ take (1 + ((119 - (unat (hbytes h) mod 64)) mod 64)) CSHA256_pad) @ WriteBE64 (push_bit 3 (hbytes h)))"
    unfolding CSHA256_Finalize_def Let_def snd_conv
    by (intro csha256.write_absorbs assms)
  then show ?thesis by (simp add: absorbed_def)
qed

lemma CHash256_Finalize_absorbed:
  assumes "absorbed 64 sha256_compress sha256_Initialize h m"
  shows "fst (CHash256_Finalize h) = hash256 m"
proof -
  obtain buf h' where f: "CSHA256_Finalize h = (buf, h')" by fastforce
  then have "length (hbuf h') = 64" and "buf = sha256 m"
    using CSHA256_Finalize_object [OF assms] CSHA256_Finalize_absorbed [OF assms] by simp_all
  then show ?thesis
    using csha256.write_absorbs [OF CSHA256_Reset_absorbed, of h' buf] f
    by (simp add: CHash256_Finalize_def CSHA256_Finalize_absorbed)
qed

lemma CHash160_Finalize_absorbed:
  assumes "absorbed 64 sha256_compress sha256_Initialize h m" and "length buf1 = 64"
  shows "fst (CHash160_Finalize buf1 h) = hash160 m"
proof (cases "CSHA256_Finalize h")
  case (Pair buf h')
  then show ?thesis
    using CSHA256_Finalize_absorbed [OF assms(1)] ripemd160.digest1 [OF assms(2)]
    by (simp add: CHash160_Finalize_def)
qed

interpretation chash256: stream_hash 64 32 CSHA256 CHash256_Write CHash256_Finalize hash256
proof
  fix buf0 :: bytes and ds
  assume "length buf0 = 64"
  moreover have "CHash256_Write = CSHA256_Write" by (intro ext) (simp add: CHash256_Write_def)
  ultimately show "fst (CHash256_Finalize (foldl CHash256_Write (CSHA256 buf0) ds)) = hash256 (concat ds)"
    using CHash256_Finalize_absorbed csha256.writes_absorb [OF CSHA256_absorbed, of buf0 ds] by simp
qed simp_all

lemma Hash_eq [simp, hash_simps]: "length buf0 = 64 \<Longrightarrow> Hash buf0 ds = hash256 (concat ds)"
  by (simp add: Hash_def chash256.digest)

lemma Hash160_eq [simp, hash_simps]:
  "length buf0 = 64 \<Longrightarrow> length buf1 = 64 \<Longrightarrow> Hash160 buf0 buf1 vch = hash160 vch"
  using CHash160_Finalize_absorbed [OF csha256.write_absorbs [OF CSHA256_absorbed]]
  by (simp add: Hash160_def CHash160_Write_def)

section \<open>HMAC\<close>

text \<open>
  \<open>CHMAC_SHA256\<close> and \<open>CHMAC_SHA512\<close> have the same text, so the object and its operations are
  written once over the digest class: \<open>B\<close> is the size of \<open>rkey\<close>, \<open>L\<close> the digest size, and
  \<open>ub\<close> gives the uninitialised buffers of the digest objects a constructor creates.
\<close>

record 's hmac =
  outer :: "'s hasher"
  inner :: "'s hasher"

definition hmac_rkey ::
  "nat \<Rightarrow> nat \<Rightarrow> (bytes \<Rightarrow> 's hasher) \<Rightarrow> ('s hasher \<Rightarrow> bytes \<Rightarrow> 's hasher) \<Rightarrow> ('s hasher \<Rightarrow> bytes \<times> 's hasher)
    \<Rightarrow> bytes \<Rightarrow> bytes \<Rightarrow> bytes" where
  "hmac_rkey B L ctor wr fin ub key =
     (if length key \<le> B then key @ replicate (B - length key) 0
      else fst (fin (wr (ctor ub) key)) @ replicate (B - L) 0)"

definition hmac_init ::
  "nat \<Rightarrow> nat \<Rightarrow> (bytes \<Rightarrow> 's hasher) \<Rightarrow> ('s hasher \<Rightarrow> bytes \<Rightarrow> 's hasher) \<Rightarrow> ('s hasher \<Rightarrow> bytes \<times> 's hasher)
    \<Rightarrow> bytes \<Rightarrow> bytes \<Rightarrow> 's hmac" where
  "hmac_init B L ctor wr fin ub key =
     (let rkey = map (\<lambda>b. b XOR 0x5c) (hmac_rkey B L ctor wr fin ub key);
          out = wr (ctor ub) rkey;
          rkey' = map (\<lambda>b. b XOR (0x5c XOR 0x36)) rkey
      in \<lparr>outer = out, inner = wr (ctor ub) rkey'\<rparr>)"

definition hmac_Write :: "('s hasher \<Rightarrow> bytes \<Rightarrow> 's hasher) \<Rightarrow> 's hmac \<Rightarrow> bytes \<Rightarrow> 's hmac" where
  "hmac_Write wr h data = h\<lparr>inner := wr (inner h) data\<rparr>"

definition hmac_Finalize ::
  "('s hasher \<Rightarrow> bytes \<Rightarrow> 's hasher) \<Rightarrow> ('s hasher \<Rightarrow> bytes \<times> 's hasher) \<Rightarrow> 's hmac \<Rightarrow> bytes \<times> 's hmac" where
  "hmac_Finalize wr fin h =
     (case fin (inner h) of (temp, i) \<Rightarrow>
      case fin (wr (outer h) temp) of (hash, out) \<Rightarrow> (hash, \<lparr>outer = out, inner = i\<rparr>))"

definition CHMAC_SHA256 :: "bytes \<Rightarrow> bytes \<Rightarrow> u32 list hmac" where
  "CHMAC_SHA256 ub key = hmac_init 64 32 CSHA256 CSHA256_Write CSHA256_Finalize ub key"

definition CHMAC_SHA256_Write :: "u32 list hmac \<Rightarrow> bytes \<Rightarrow> u32 list hmac" where
  "CHMAC_SHA256_Write = hmac_Write CSHA256_Write"

definition CHMAC_SHA256_Finalize :: "u32 list hmac \<Rightarrow> bytes \<times> u32 list hmac" where
  "CHMAC_SHA256_Finalize = hmac_Finalize CSHA256_Write CSHA256_Finalize"

definition CHMAC_SHA512 :: "bytes \<Rightarrow> bytes \<Rightarrow> u64 list hmac" where
  "CHMAC_SHA512 ub key = hmac_init 128 64 CSHA512 CSHA512_Write CSHA512_Finalize ub key"

definition CHMAC_SHA512_Write :: "u64 list hmac \<Rightarrow> bytes \<Rightarrow> u64 list hmac" where
  "CHMAC_SHA512_Write = hmac_Write CSHA512_Write"

definition CHMAC_SHA512_Finalize :: "u64 list hmac \<Rightarrow> bytes \<times> u64 list hmac" where
  "CHMAC_SHA512_Finalize = hmac_Finalize CSHA512_Write CSHA512_Finalize"

text \<open>The key derivation hash of BIP 32 in \<^verbatim>\<open>hash.cpp\<close>; the result is written to \<open>output[64]\<close>.\<close>

definition BIP32Hash :: "bytes \<Rightarrow> bytes \<Rightarrow> u32 \<Rightarrow> byte \<Rightarrow> bytes \<Rightarrow> bytes" where
  "BIP32Hash ub chainCode nChild header data =
     (let num = [ucast (drop_bit 24 nChild AND 0xFF), ucast (drop_bit 16 nChild AND 0xFF),
                 ucast (drop_bit 8 nChild AND 0xFF), ucast (nChild AND 0xFF)]
      in fst (CHMAC_SHA512_Finalize
           (CHMAC_SHA512_Write (CHMAC_SHA512_Write (CHMAC_SHA512_Write (CHMAC_SHA512 ub chainCode) [header]) data) num)))"

text \<open>HMAC as RFC 2104 defines it, over a hash function \<open>H\<close> with blocks of \<open>B\<close> bytes.\<close>

definition hmac_ref :: "nat \<Rightarrow> (bytes \<Rightarrow> bytes) \<Rightarrow> bytes \<Rightarrow> bytes \<Rightarrow> bytes" where
  "hmac_ref B H key m =
     (let k = (if length key \<le> B then key else H key);
          K = k @ replicate (B - length k) 0
      in H (map (\<lambda>b. b XOR 0x5c) K @ H (map (\<lambda>b. b XOR 0x36) K @ m)))"

lemma xor_opad_ipad [simp]: "(b XOR 0x5c) XOR 0x6a = b XOR (0x36 :: byte)"
proof -
  have "(0x6a :: byte) = 0x5c XOR 0x36" by simp
  then show ?thesis by (metis xor.assoc xor.left_neutral xor_self_eq)
qed

lemma outer_foldl_hmac_Write [simp]: "outer (foldl (hmac_Write wr) h ds) = outer h"
  by (induction ds arbitrary: h) (simp_all add: hmac_Write_def)

lemma inner_foldl_hmac_Write [simp]: "inner (foldl (hmac_Write wr) h ds) = foldl wr (inner h) ds"
  by (induction ds arbitrary: h) (simp_all add: hmac_Write_def)

lemma hmac_Finalize_hash:
  "fst (hmac_Finalize wr fin h) = fst (fin (wr (outer h) (fst (fin (inner h)))))"
  by (simp add: hmac_Finalize_def split: prod.splits)

context stream_hash
begin

lemma hmac_key:
  assumes "length ub = B"
  shows "hmac_rkey B L ctor wr fin ub key
    = (let k = (if length key \<le> B then key else H key) in k @ replicate (B - length k) 0)"
  using digest1 [OF assms] by (simp add: hmac_rkey_def length_H Let_def)

lemma hmac_streaming:
  assumes "length ub = B"
  shows "fst (hmac_Finalize wr fin (foldl (hmac_Write wr) (hmac_init B L ctor wr fin ub key) ds))
    = hmac_ref B H key (concat ds)"
  using digest_after [OF assms] digest_after [OF assms, of _ "[d]" for d]
  by (simp add: hmac_Finalize_hash hmac_init_def hmac_ref_def hmac_key [OF assms] Let_def o_def)

end

section \<open>Properties\<close>

text \<open>
  The double hash and the address hash: however the data is split into \<open>Write\<close>s and
  whatever the uninitialised buffers hold, \<open>CHash256\<close> returns SHA-256 of SHA-256 of the whole
  message and \<open>CHash160\<close> returns RIPEMD-160 of its SHA-256; the \<open>Reset\<close> between the two passes
  leaves nothing of the first one behind.
\<close>

theorem CHash_front_ends:
  assumes "length buf0 = 64" and "length buf1 = 64"
  shows "fst (CHash256_Finalize (foldl CHash256_Write (CSHA256 buf0) ds)) = sha256 (sha256 (concat ds))
    \<and> fst (CHash160_Finalize buf1 (foldl CHash160_Write (CSHA256 buf0) ds)) = ripemd160 (sha256 (concat ds))"
proof -
  have "CHash160_Write = CSHA256_Write" by (intro ext) (simp add: CHash160_Write_def)
  then have "absorbed 64 sha256_compress sha256_Initialize (foldl CHash160_Write (CSHA256 buf0) ds) (concat ds)"
    using csha256.writes_absorb [OF CSHA256_absorbed [OF assms(1)], of ds] by simp
  then show ?thesis
    using chash256.digest [OF assms(1)] CHash160_Finalize_absorbed [OF _ assms(2)] by simp
qed

theorem CHash_front_ends_witness:
  "length (replicate 64 (0xff :: byte)) = 64
    \<and> fst (CHash256_Finalize (foldl CHash256_Write (CSHA256 (replicate 64 0xff)) [[1], [2, 3]])) = sha256 (sha256 [1, 2, 3])
    \<and> fst (CHash160_Finalize (replicate 64 5) (foldl CHash160_Write (CSHA256 (replicate 64 0xff)) [[1], [2, 3]]))
      = ripemd160 (sha256 [1, 2, 3])"
  using CHash_front_ends [of "replicate 64 0xff" "replicate 64 5" "[[1], [2, 3]]"] by simp

text \<open>
  C24. \<open>CHMAC_SHA256\<close> and \<open>CHMAC_SHA512\<close> compute the HMAC of RFC 2104 over SHA-256 and SHA-512,
  for keys of every length (short keys are padded, long ones hashed first) and for every way
  of splitting the message, although the code turns the outer pad into the inner one in place.
\<close>

theorem CHMAC_correct:
  assumes "length ub = 64" and "length ub' = 128"
  shows "fst (CHMAC_SHA256_Finalize (foldl CHMAC_SHA256_Write (CHMAC_SHA256 ub key) ds)) = hmac_ref 64 sha256 key (concat ds)
    \<and> fst (CHMAC_SHA512_Finalize (foldl CHMAC_SHA512_Write (CHMAC_SHA512 ub' key) ds)) = hmac_ref 128 sha512 key (concat ds)"
  using sha256.hmac_streaming [OF assms(1)] sha512.hmac_streaming [OF assms(2)]
  by (simp add: CHMAC_SHA256_def CHMAC_SHA256_Write_def CHMAC_SHA256_Finalize_def
      CHMAC_SHA512_def CHMAC_SHA512_Write_def CHMAC_SHA512_Finalize_def)

theorem CHMAC_correct_witness:
  "length (replicate 64 (1 :: byte)) = 64 \<and> length (replicate 128 (1 :: byte)) = 128
    \<and> fst (CHMAC_SHA256_Finalize (foldl CHMAC_SHA256_Write (CHMAC_SHA256 (replicate 64 1) (replicate 70 2)) [[3], [4]]))
      = hmac_ref 64 sha256 (replicate 70 2) [3, 4]"
  using CHMAC_correct [of "replicate 64 1" "replicate 128 1" "replicate 70 2" "[[3], [4]]"] by simp

end
