(* ===== verification/SipHash.thy ===== *)
theory SipHash
  imports Endian
begin

text \<open>
  SipHash-2-4 of \<^verbatim>\<open>src/hash.cpp\<close> and \<^verbatim>\<open>src/hash.h\<close>: the incremental class \<open>CSipHasher\<close> with its two
  \<open>Write\<close>s, and the unrolled \<open>SipHashUint256\<close> and \<open>SipHashUint256Extra\<close>, which the header says are
  identical to it.
\<close>

section \<open>The code\<close>

text \<open>The macros: \<open>SIPROUND\<close> updates the four local variables \<open>v0\<close> to \<open>v3\<close> in place.\<close>

type_synonym sip_state = "u64 \<times> u64 \<times> u64 \<times> u64"

definition ROTL :: "u64 \<Rightarrow> nat \<Rightarrow> u64" where
  "ROTL x b = push_bit b x OR drop_bit (64 - b) x"

fun SIPROUND :: "sip_state \<Rightarrow> sip_state" where
  "SIPROUND (v0, v1, v2, v3) =
     (let v0 = v0 + v1; v1 = ROTL v1 13; v1 = v1 XOR v0;
          v0 = ROTL v0 32;
          v2 = v2 + v3; v3 = ROTL v3 16; v3 = v3 XOR v2;
          v0 = v0 + v3; v3 = ROTL v3 21; v3 = v3 XOR v0;
          v2 = v2 + v1; v1 = ROTL v1 17; v1 = v1 XOR v2;
          v2 = ROTL v2 32
      in (v0, v1, v2, v3))"

text \<open>
  The three assignments that recur between the rounds: \<open>v3 ^= d\<close>, \<open>v0 ^= d\<close> and \<open>v2 ^= 0xFF\<close>, and the returned sum.
\<close>

fun sip_v3 :: "u64 \<Rightarrow> sip_state \<Rightarrow> sip_state" where
  "sip_v3 d (v0, v1, v2, v3) = (v0, v1, v2, v3 XOR d)"

fun sip_v0 :: "u64 \<Rightarrow> sip_state \<Rightarrow> sip_state" where
  "sip_v0 d (v0, v1, v2, v3) = (v0 XOR d, v1, v2, v3)"

fun sip_v2 :: "sip_state \<Rightarrow> sip_state" where
  "sip_v2 (v0, v1, v2, v3) = (v0, v1, v2 XOR 0xFF, v3)"

fun sip_sum :: "sip_state \<Rightarrow> u64" where
  "sip_sum (v0, v1, v2, v3) = v0 XOR v1 XOR v2 XOR v3"

text \<open>
  The member \<open>count\<close> is an \<open>int\<close> that starts at 0 and only grows; the model keeps it as a natural
  number (the code is undefined once more than \<open>2^31 - 1\<close> bytes are written).
\<close>

record sip =
  sv :: sip_state
  stmp :: u64
  scount :: nat

definition CSipHasher :: "u64 \<Rightarrow> u64 \<Rightarrow> sip" where
  "CSipHasher k0 k1 =
     \<lparr>sv = (0x736f6d6570736575 XOR k0, 0x646f72616e646f6d XOR k1,
            0x6c7967656e657261 XOR k0, 0x7465646279746573 XOR k1),
      stmp = 0, scount = 0\<rparr>"

text \<open>\<open>Write(uint64_t)\<close> asserts that whole words were written before: \<open>None\<close> is the failed assertion.\<close>

definition CSipHasher_Write64 :: "sip \<Rightarrow> u64 \<Rightarrow> sip option" where
  "CSipHasher_Write64 h data =
     (if scount h mod 8 = 0
      then Some (h\<lparr>sv := sip_v0 data (SIPROUND (SIPROUND (sip_v3 data (sv h)))), scount := scount h + 8\<rparr>)
      else None)"

text \<open>\<open>Write(data, size)\<close>: one turn of its loop, and the loop.\<close>

definition CSipHasher_byte :: "sip \<Rightarrow> byte \<Rightarrow> sip" where
  "CSipHasher_byte h b =
     (let t = stmp h OR push_bit (8 * (scount h mod 8)) (ucast b);
          c = scount h + 1
      in if c mod 8 = 0
         then \<lparr>sv = sip_v0 t (SIPROUND (SIPROUND (sip_v3 t (sv h)))), stmp = 0, scount = c\<rparr>
         else \<lparr>sv = sv h, stmp = t, scount = c\<rparr>)"

definition CSipHasher_Write :: "sip \<Rightarrow> bytes \<Rightarrow> sip" where
  "CSipHasher_Write h data = foldl CSipHasher_byte h data"

definition CSipHasher_Finalize :: "sip \<Rightarrow> u64" where
  "CSipHasher_Finalize h =
     (let t = stmp h OR push_bit 56 (of_nat (scount h));
          v = sip_v2 (sip_v0 t (SIPROUND (SIPROUND (sip_v3 t (sv h)))))
      in sip_sum (SIPROUND (SIPROUND (SIPROUND (SIPROUND v)))))"

text \<open>\<open>uint256::GetUint64\<close>, on the 32 bytes of the value.\<close>

definition GetUint64 :: "bytes \<Rightarrow> nat \<Rightarrow> u64" where
  "GetUint64 val pos =
     (let ptr = drop (pos * 8) val
      in ucast (ptr ! 0) OR push_bit 8 (ucast (ptr ! 1)) OR push_bit 16 (ucast (ptr ! 2))
         OR push_bit 24 (ucast (ptr ! 3)) OR push_bit 32 (ucast (ptr ! 4)) OR push_bit 40 (ucast (ptr ! 5))
         OR push_bit 48 (ucast (ptr ! 6)) OR push_bit 56 (ucast (ptr ! 7)))"

definition SipHashUint256 :: "u64 \<Rightarrow> u64 \<Rightarrow> bytes \<Rightarrow> u64" where
  "SipHashUint256 k0 k1 val =
     (let d = GetUint64 val 0;
          v = (0x736f6d6570736575 XOR k0, 0x646f72616e646f6d XOR k1,
               0x6c7967656e657261 XOR k0, (0x7465646279746573 XOR k1) XOR d);
          v = sip_v0 d (SIPROUND (SIPROUND v));
          d = GetUint64 val 1;
          v = sip_v0 d (SIPROUND (SIPROUND (sip_v3 d v)));
          d = GetUint64 val 2;
          v = sip_v0 d (SIPROUND (SIPROUND (sip_v3 d v)));
          d = GetUint64 val 3;
          v = sip_v0 d (SIPROUND (SIPROUND (sip_v3 d v)));
          v = sip_v0 (push_bit 59 4) (SIPROUND (SIPROUND (sip_v3 (push_bit 59 4) v)));
          v = sip_v2 v
      in sip_sum (SIPROUND (SIPROUND (SIPROUND (SIPROUND v)))))"

definition SipHashUint256Extra :: "u64 \<Rightarrow> u64 \<Rightarrow> bytes \<Rightarrow> u32 \<Rightarrow> u64" where
  "SipHashUint256Extra k0 k1 val extra =
     (let d = GetUint64 val 0;
          v = (0x736f6d6570736575 XOR k0, 0x646f72616e646f6d XOR k1,
               0x6c7967656e657261 XOR k0, (0x7465646279746573 XOR k1) XOR d);
          v = sip_v0 d (SIPROUND (SIPROUND v));
          d = GetUint64 val 1;
          v = sip_v0 d (SIPROUND (SIPROUND (sip_v3 d v)));
          d = GetUint64 val 2;
          v = sip_v0 d (SIPROUND (SIPROUND (sip_v3 d v)));
          d = GetUint64 val 3;
          v = sip_v0 d (SIPROUND (SIPROUND (sip_v3 d v)));
          d = push_bit 56 36 OR ucast extra;
          v = sip_v0 d (SIPROUND (SIPROUND (sip_v3 d v)));
          v = sip_v2 v
      in sip_sum (SIPROUND (SIPROUND (SIPROUND (SIPROUND v)))))"

section \<open>Bytes and words\<close>

text \<open>The state of a hasher into which whole words were written.\<close>

definition sip_aligned :: "sip \<Rightarrow> bool" where
  "sip_aligned h \<longleftrightarrow> scount h mod 8 = 0 \<and> stmp h = 0"

lemma sip_aligned_CSipHasher [simp]: "sip_aligned (CSipHasher k0 k1)"
  by (simp add: sip_aligned_def CSipHasher_def)

lemma sip_aligned_Write64: "sip_aligned h \<Longrightarrow> CSipHasher_Write64 h d = Some h' \<Longrightarrow> sip_aligned h'"
  by (auto simp: sip_aligned_def CSipHasher_Write64_def split: if_splits)

lemma CSipHasher_Write_append [simp]:
  "CSipHasher_Write h (a @ b) = CSipHasher_Write (CSipHasher_Write h a) b"
  by (simp add: CSipHasher_Write_def)

lemma sip_byte_mid:
  assumes "scount h = 8 * q + i" and "i < 7"
  shows "CSipHasher_byte h b = \<lparr>sv = sv h, stmp = stmp h OR push_bit (8 * i) (ucast b), scount = 8 * q + (i + 1)\<rparr>"
proof -
  have "(8 * q + i) mod 8 = i" "(8 * q + i + 1) mod 8 = i + 1" using assms(2) by (simp_all add: add.assoc)
  then show ?thesis using assms(1) by (simp add: CSipHasher_byte_def)
qed

lemma sip_byte_last:
  assumes "scount h = 8 * q + 7" and "t = stmp h OR push_bit 56 (ucast b)"
  shows "CSipHasher_byte h b
    = \<lparr>sv = sip_v0 t (SIPROUND (SIPROUND (sip_v3 t (sv h)))), stmp = 0, scount = 8 * q + 8\<rparr>"
proof -
  have "(8 * q + 7) mod 8 = 7" "(8 * q + 7 + 1) mod 8 = 0" by (simp_all add: add.assoc)
  then show ?thesis using assms by (simp add: CSipHasher_byte_def Let_def)
qed

lemma sip_word_of_bytes:
  assumes "length ptr = 8" and "sip_aligned h"
  shows "CSipHasher_Write64 h (GetUint64 ptr 0) = Some (CSipHasher_Write h ptr)"
proof -
  obtain a b c d e f g i where p: "ptr = [a, b, c, d, e, f, g, i]"
    using assms(1) by (auto simp: length_Suc_conv numeral_eq_Suc)
  obtain q where q: "scount h = 8 * q + 0" and t: "stmp h = 0"
    using assms(2) by (auto simp: sip_aligned_def mod_eq_0_iff_dvd elim: dvdE)
  note step = sip_byte_mid [where q = q and i = 0] sip_byte_mid [where q = q and i = 1]
    sip_byte_mid [where q = q and i = 2] sip_byte_mid [where q = q and i = 3]
    sip_byte_mid [where q = q and i = 4] sip_byte_mid [where q = q and i = 5] sip_byte_mid [where q = q and i = 6]
    sip_byte_last [where q = q, OF _ refl]
  have "CSipHasher_Write h ptr = h\<lparr>sv := sip_v0 (GetUint64 ptr 0) (SIPROUND (SIPROUND (sip_v3 (GetUint64 ptr 0) (sv h)))),
    scount := 8 * q + 8\<rparr>"
    using q t by (simp add: p CSipHasher_Write_def step GetUint64_def or.assoc)
  then show ?thesis
    using q by (simp add: CSipHasher_Write64_def)
qed

lemma GetUint64_drop: "GetUint64 val pos = GetUint64 (take 8 (drop (pos * 8) val)) 0"
  by (simp add: GetUint64_def Let_def)

text \<open>The four bytes of a 32-bit word, put together by shifts, are the word.\<close>

lemma byte_of_nat_unat: "(of_nat (unat x div 2 ^ i mod 256) :: byte) = ucast (drop_bit i (x :: 'w::len word))"
proof -
  have "unat (of_nat (unat x div 2 ^ i mod 256) :: byte) = unat x div 2 ^ i mod 256"
    by (simp add: unsigned_of_nat take_bit_eq_mod)
  moreover have "unat (drop_bit i x) = unat x div 2 ^ i"
    unfolding unsigned_drop_bit_eq using unsigned_less [of x, where ?'a = nat]
    by (simp add: drop_bit_eq_div take_bit_nat_eq_self)
  then have "unat (ucast (drop_bit i x) :: byte) = unat x div 2 ^ i mod 256"
    by (simp only: unsigned_ucast_eq) (simp add: take_bit_eq_mod)
  ultimately show ?thesis by (metis unsigned_word_eqI)
qed

lemma WriteLE32_ucast: "WriteLE32 x = [ucast x, ucast (drop_bit 8 x), ucast (drop_bit 16 x), ucast (drop_bit 24 x)]"
proof -
  have p: "(2::nat) ^ 0 = 1" "(2::nat) ^ 8 = 256" "(2::nat) ^ 16 = 256 * 256" "(2::nat) ^ 24 = 256 * 256 * 256" by simp_all
  have "WriteLE32 x = le_bytes (Suc (Suc (Suc (Suc 0)))) (unat x)"
    by (simp only: WriteLE32_def numeral_eq_Suc pred_numeral_simps BitM.simps numeral_One)
  also have "\<dots> = [of_nat (unat x div 2 ^ 0 mod 256), of_nat (unat x div 2 ^ 8 mod 256),
      of_nat (unat x div 2 ^ 16 mod 256), of_nat (unat x div 2 ^ 24 mod 256)]"
    by (simp only: le_bytes.simps p div_mult2_eq div_by_1)
  finally show ?thesis by (simp only: byte_of_nat_unat drop_bit_0 id_apply)
qed

lemma u32_of_bytes:
  "ucast (ucast x :: byte) OR push_bit 8 (ucast (ucast (drop_bit 8 x) :: byte))
    OR push_bit 16 (ucast (ucast (drop_bit 16 x) :: byte)) OR push_bit 24 (ucast (ucast (drop_bit 24 x) :: byte))
   = (ucast (x :: u32) :: u64)"
proof (rule bit_word_eqI)
  fix n
  have "bit x n \<Longrightarrow> n < 32" using bit_imp_le_length [of x n] by simp
  moreover have "n < 8 \<or> 8 \<le> n \<and> n < 16 \<or> 16 \<le> n \<and> n < 24 \<or> 24 \<le> n \<and> n < 32 \<or> 32 \<le> n" by arith
  ultimately show "bit (ucast (ucast x :: byte) OR push_bit 8 (ucast (ucast (drop_bit 8 x) :: byte))
    OR push_bit 16 (ucast (ucast (drop_bit 16 x) :: byte)) OR push_bit 24 (ucast (ucast (drop_bit 24 x) :: byte)) :: u64) n
    = bit (ucast x :: u64) n"
    by (elim disjE) (auto simp: bit_simps)
qed

lemma sip_absorb_word:
  assumes "length ptr = 8" and "sip_aligned h"
  shows "CSipHasher_Write h ptr = h\<lparr>sv := sip_v0 (GetUint64 ptr 0) (SIPROUND (SIPROUND (sip_v3 (GetUint64 ptr 0) (sv h)))),
      scount := scount h + 8\<rparr>"
    and "sip_aligned (CSipHasher_Write h ptr)"
  using sip_word_of_bytes [OF assms] sip_aligned_Write64 [OF assms(2)]
  by (auto simp: CSipHasher_Write64_def split: if_splits)

lemma sip_absorb_uint256:
  assumes "length val = 32" and "sip_aligned h"
  shows "(CSipHasher_Write64 h (GetUint64 val 0) \<bind> (\<lambda>h. CSipHasher_Write64 h (GetUint64 val 1))
     \<bind> (\<lambda>h. CSipHasher_Write64 h (GetUint64 val 2)) \<bind> (\<lambda>h. CSipHasher_Write64 h (GetUint64 val 3)))
    = Some (CSipHasher_Write h val)"
proof -
  define p where "p = (\<lambda>i. take 8 (drop (i * 8) val))"
  have v: "val = p 0 @ p 1 @ p 2 @ p 3"
    using assms(1) by (simp add: p_def take_add [symmetric] drop_drop [symmetric] flip: append_assoc)
  have len: "length (p i) = 8" if "i < 4" for i using assms(1) that by (simp add: p_def)
  have w: "CSipHasher_Write64 g (GetUint64 val i) = Some (CSipHasher_Write g (p i))" if "i < 4" "sip_aligned g" for g i
    using sip_word_of_bytes [OF len [OF that(1)] that(2)] GetUint64_drop [of val i] by (simp add: p_def)
  note al = sip_absorb_word(2) [OF len]
  have "CSipHasher_Write h val
    = CSipHasher_Write (CSipHasher_Write (CSipHasher_Write (CSipHasher_Write h (p 0)) (p 1)) (p 2)) (p 3)"
    by (subst v) (simp only: CSipHasher_Write_append)
  then show ?thesis
    using assms(2) by (simp add: w al)
qed

lemma sip_absorbed_uint256:
  assumes "length val = 32"
  defines "w \<equiv> (\<lambda>i v. sip_v0 (GetUint64 val i) (SIPROUND (SIPROUND (sip_v3 (GetUint64 val i) v))))"
  shows "CSipHasher_Write (CSipHasher k0 k1) val
    = \<lparr>sv = w 3 (w 2 (w 1 (w 0 (sv (CSipHasher k0 k1))))), stmp = 0, scount = 32\<rparr>"
proof -
  have "CSipHasher_Write64 h (GetUint64 val i) = Some (h\<lparr>sv := w i (sv h), scount := scount h + 8\<rparr>)"
    if "scount h mod 8 = 0" for h i
    using that by (simp add: CSipHasher_Write64_def w_def)
  then show ?thesis
    using sip_absorb_uint256 [OF assms(1) sip_aligned_CSipHasher, of k0 k1]
    by (simp add: CSipHasher_def)
qed

lemma sip_start_word:
  "sip_v3 d (sv (CSipHasher k0 k1)) = (0x736f6d6570736575 XOR k0, 0x646f72616e646f6d XOR k1,
     0x6c7967656e657261 XOR k0, (0x7465646279746573 XOR k1) XOR d)"
  by (simp add: CSipHasher_def)

lemma sip_write_extra:
  assumes "sip_aligned h"
  shows "CSipHasher_Write h (WriteLE32 extra) = h\<lparr>stmp := ucast extra, scount := scount h + 4\<rparr>"
proof -
  obtain q where q: "scount h = 8 * q + 0" and t: "stmp h = 0"
    using assms by (auto simp: sip_aligned_def mod_eq_0_iff_dvd elim: dvdE)
  note step = sip_byte_mid [where q = q and i = 0] sip_byte_mid [where q = q and i = 1]
    sip_byte_mid [where q = q and i = 2] sip_byte_mid [where q = q and i = 3]
  show ?thesis
    using q t u32_of_bytes [of extra] by (simp add: WriteLE32_ucast CSipHasher_Write_def step or.assoc)
qed

section \<open>Properties\<close>

text \<open>
  C23. The unrolled \<open>SipHashUint256\<close> is what its header says: the hash that \<open>CSipHasher\<close>
  computes from the four 64-bit words of the value (and no assertion of \<open>Write(uint64_t)\<close> fails
  on the way), and also the one it computes from the 32 bytes.
\<close>

theorem SipHashUint256_identical:
  assumes "length val = 32"
  shows "(CSipHasher_Write64 (CSipHasher k0 k1) (GetUint64 val 0) \<bind> (\<lambda>h. CSipHasher_Write64 h (GetUint64 val 1))
     \<bind> (\<lambda>h. CSipHasher_Write64 h (GetUint64 val 2)) \<bind> (\<lambda>h. CSipHasher_Write64 h (GetUint64 val 3))
     \<bind> (\<lambda>h. Some (CSipHasher_Finalize h))) = Some (SipHashUint256 k0 k1 val)
    \<and> CSipHasher_Finalize (CSipHasher_Write (CSipHasher k0 k1) val) = SipHashUint256 k0 k1 val"
proof -
  have "CSipHasher_Finalize (CSipHasher_Write (CSipHasher k0 k1) val) = SipHashUint256 k0 k1 val"
    by (simp add: sip_absorbed_uint256 [OF assms] CSipHasher_Finalize_def SipHashUint256_def Let_def sip_start_word
        del: SIPROUND.simps)
  then show ?thesis
    using sip_absorb_uint256 [OF assms, of "CSipHasher k0 k1"] by simp
qed

theorem SipHashUint256_identical_witness:
  "length (replicate 32 (7 :: byte)) = 32
    \<and> CSipHasher_Finalize (CSipHasher_Write (CSipHasher 1 2) (replicate 32 7)) = SipHashUint256 1 2 (replicate 32 7)"
  using SipHashUint256_identical [of "replicate 32 7" 1 2] by simp

text \<open>
  \<open>SipHashUint256Extra\<close> is the hash \<open>CSipHasher\<close> computes from the 32 bytes of the value
  followed by the four little-endian bytes of \<open>extra\<close>, a tail that does not fill a word.
\<close>

theorem SipHashUint256Extra_identical:
  assumes "length val = 32"
  shows "CSipHasher_Finalize (CSipHasher_Write (CSipHasher k0 k1) (val @ WriteLE32 extra)) = SipHashUint256Extra k0 k1 val extra"
proof -
  have "sip_aligned (CSipHasher_Write (CSipHasher k0 k1) val)"
    by (simp add: sip_absorbed_uint256 [OF assms] sip_aligned_def)
  then have "CSipHasher_Write (CSipHasher k0 k1) (val @ WriteLE32 extra)
    = (CSipHasher_Write (CSipHasher k0 k1) val)\<lparr>stmp := ucast extra, scount := 36\<rparr>"
    by (simp add: sip_write_extra sip_absorbed_uint256 [OF assms])
  then show ?thesis
    by (simp add: sip_absorbed_uint256 [OF assms] CSipHasher_Finalize_def SipHashUint256Extra_def Let_def sip_start_word
        or.commute del: SIPROUND.simps)
qed

theorem SipHashUint256Extra_identical_witness:
  "length (replicate 32 (7 :: byte)) = 32
    \<and> CSipHasher_Finalize (CSipHasher_Write (CSipHasher 1 2) (replicate 32 7 @ WriteLE32 9)) = SipHashUint256Extra 1 2 (replicate 32 7) 9"
  using SipHashUint256Extra_identical [of "replicate 32 7" 1 2 9] by simp

end
