(* ===== verification/Serialize.thy ===== *)
theory Serialize
  imports Endian
begin

text \<open>
  The wire format of \<^verbatim>\<open>src/serialize.h\<close>: fixed-width integers, compact sizes, variable-length
  integers, opaque byte vectors and vectors of serialisable elements. A writer is the byte
  string it appends to the stream; a reader takes the unread bytes and returns the value with
  the bytes it leaves, or the exception the code throws. The locale \<open>codec\<close> is the contract of
  a type with \<open>Serialize\<close> and \<open>Unserialize\<close>; it is interpreted on every type modelled.
\<close>

section \<open>Streams of bytes\<close>

datatype ser_error = EndOfData | NonCanonicalCompactSize | CompactSizeTooLarge | StringLimitExceeded

type_synonym 'a reader = "bytes \<Rightarrow> ser_error + 'a \<times> bytes"

text \<open>\<open>s.read(pch, nSize)\<close> on the unread bytes.\<close>

definition ser_read :: "nat \<Rightarrow> bytes reader" where
  "ser_read nSize s = (if length s < nSize then Inl EndOfData else Inr (take nSize s, drop nSize s))"

definition ser_writedata8 :: "byte \<Rightarrow> bytes" where
  "ser_writedata8 obj = [obj]"

definition ser_writedata16 :: "u16 \<Rightarrow> bytes" where
  "ser_writedata16 obj = WriteLE16 obj"

definition ser_writedata32 :: "u32 \<Rightarrow> bytes" where
  "ser_writedata32 obj = WriteLE32 obj"

definition ser_writedata32be :: "u32 \<Rightarrow> bytes" where
  "ser_writedata32be obj = WriteBE32 obj"

definition ser_writedata64 :: "u64 \<Rightarrow> bytes" where
  "ser_writedata64 obj = WriteLE64 obj"

definition ser_readdata8 :: "byte reader" where
  "ser_readdata8 s = bind_result (ser_read 1 s) (\<lambda>(obj, r). Inr (hd obj, r))"

definition ser_readdata16 :: "u16 reader" where
  "ser_readdata16 s = bind_result (ser_read 2 s) (\<lambda>(obj, r). Inr (ReadLE16 obj, r))"

definition ser_readdata32 :: "u32 reader" where
  "ser_readdata32 s = bind_result (ser_read 4 s) (\<lambda>(obj, r). Inr (ReadLE32 obj, r))"

definition ser_readdata32be :: "u32 reader" where
  "ser_readdata32be s = bind_result (ser_read 4 s) (\<lambda>(obj, r). Inr (ReadBE32 obj, r))"

definition ser_readdata64 :: "u64 reader" where
  "ser_readdata64 s = bind_result (ser_read 8 s) (\<lambda>(obj, r). Inr (ReadLE64 obj, r))"

section \<open>Compact sizes\<close>

definition MAX_SIZE :: nat where
  "MAX_SIZE = 0x02000000"

definition GetSizeOfCompactSize :: "u64 \<Rightarrow> nat" where
  "GetSizeOfCompactSize nSize =
     (if nSize < 253 then 1
      else if nSize \<le> 0xffff then 1 + 2
      else if nSize \<le> 0xffffffff then 1 + 4
      else 1 + 8)"

definition WriteCompactSize :: "u64 \<Rightarrow> bytes" where
  "WriteCompactSize nSize =
     (if nSize < 253 then ser_writedata8 (ucast nSize)
      else if nSize \<le> 0xffff then ser_writedata8 253 @ ser_writedata16 (ucast nSize)
      else if nSize \<le> 0xffffffff then ser_writedata8 254 @ ser_writedata32 (ucast nSize)
      else ser_writedata8 255 @ ser_writedata64 nSize)"

text \<open>The two final tests of \<open>ReadCompactSize\<close>, for a form whose smallest canonical value is \<open>lo\<close>.\<close>

definition check_compact :: "nat \<Rightarrow> u64 \<times> bytes \<Rightarrow> ser_error + u64 \<times> bytes" where
  "check_compact lo p =
     (if unat (fst p) < lo then Inl NonCanonicalCompactSize
      else if MAX_SIZE < unat (fst p) then Inl CompactSizeTooLarge
      else Inr p)"

definition ReadCompactSize :: "u64 reader" where
  "ReadCompactSize s =
     bind_result (ser_readdata8 s) (\<lambda>(chSize, r).
       if chSize < 253 then check_compact 0 (ucast chSize, r)
       else if chSize = 253 then
         bind_result (ser_readdata16 r) (\<lambda>(n, r). check_compact 253 (ucast n, r))
       else if chSize = 254 then
         bind_result (ser_readdata32 r) (\<lambda>(n, r). check_compact 0x10000 (ucast n, r))
       else
         bind_result (ser_readdata64 r) (\<lambda>(n, r). check_compact 0x100000000 (n, r)))"

section \<open>Variable-length integers\<close>

text \<open>
  The digits a \<open>WriteVarInt\<close> stores in \<open>tmp\<close>, from \<open>tmp[len]\<close> on. The template is used at
  unsigned types, here words of any width.
\<close>

function varint_tmp :: "nat \<Rightarrow> 'w::len word \<Rightarrow> bytes" where
  "varint_tmp len n =
     (ucast (n AND 0x7F) OR (if len = 0 then 0x00 else 0x80)) #
     (if unat n \<le> 0x7F then [] else varint_tmp (len + 1) (drop_bit 7 n - 1))"
  by pat_completeness auto

lemma unat_drop_bit: "unat (drop_bit i (n :: 'w::len word)) = unat n div 2 ^ i"
  unfolding unsigned_drop_bit_eq using unsigned_less [of n, where ?'a = nat]
  by (simp add: drop_bit_eq_div take_bit_nat_eq_self)

lemma unat_varint_next:
  assumes "0x7F < unat (n :: 'w::len word)"
  shows "unat (drop_bit 7 n - 1) = unat n div 128 - 1"
proof -
  have "1 \<le> unat (drop_bit 7 n)" using assms by (simp add: unat_drop_bit)
  then have "(1 :: 'w word) \<le> drop_bit 7 n" by (auto simp: word_le_nat_alt)
  then show ?thesis by (simp add: unat_sub unat_drop_bit)
qed

termination varint_tmp
  by (relation "measure (\<lambda>(len, n). unat n)") (auto simp: unat_varint_next not_le)

declare varint_tmp.simps [simp del]

definition WriteVarInt :: "'w::len word \<Rightarrow> bytes" where
  "WriteVarInt n = rev (varint_tmp 0 n)"

definition GetSizeOfVarInt :: "'w::len word \<Rightarrow> nat" where
  "GetSizeOfVarInt n = length (varint_tmp 0 n)"

fun ReadVarInt_loop :: "'w::len word \<Rightarrow> 'w word reader" where
  "ReadVarInt_loop n [] = Inl EndOfData"
| "ReadVarInt_loop n (chData # s) =
     (let n = push_bit 7 n OR ucast (chData AND 0x7F)
      in if chData AND 0x80 \<noteq> 0 then ReadVarInt_loop (n + 1) s else Inr (n, s))"

definition ReadVarInt :: "'w::len word reader" where
  "ReadVarInt s = ReadVarInt_loop 0 s"

section \<open>Vectors\<close>

text \<open>Opaque byte vectors; the reader takes at most 5000000 bytes at a time.\<close>

definition Serialize_bytes :: "bytes \<Rightarrow> bytes" where
  "Serialize_bytes v = WriteCompactSize (of_nat (length v)) @ v"

function read_blks :: "nat \<Rightarrow> nat \<Rightarrow> bytes \<Rightarrow> bytes reader" where
  "read_blks nSize i v s =
     (if i < nSize then
        let blk = min (nSize - i) (1 + 4999999) in
        bind_result (ser_read blk s) (\<lambda>(b, r). read_blks nSize (i + blk) (v @ b) r)
      else Inr (v, s))"
  by pat_completeness auto
termination by (relation "measure (\<lambda>(nSize, i, v, s). nSize - i)") auto

declare read_blks.simps [simp del]

definition Unserialize_bytes :: "bytes reader" where
  "Unserialize_bytes s = bind_result (ReadCompactSize s) (\<lambda>(nSize, r). read_blks (unat nSize) 0 [] r)"

text \<open>\<open>LimitedString\<close> adds a bound to the declared length.\<close>

definition Unserialize_limited :: "nat \<Rightarrow> bytes reader" where
  "Unserialize_limited Limit s =
     bind_result (ReadCompactSize s) (\<lambda>(size, r).
       if Limit < unat size then Inl StringLimitExceeded
       else if size \<noteq> 0 then ser_read (unat size) r else Inr ([], r))"

text \<open>
  Vectors of elements: the reader allocates room for \<open>K = 5000000 / sizeof(T)\<close> more elements at
  a time (\<open>nMid\<close>) and fills it.
\<close>

definition Serialize_vec :: "('a \<Rightarrow> bytes) \<Rightarrow> 'a list \<Rightarrow> bytes" where
  "Serialize_vec ser v = WriteCompactSize (of_nat (length v)) @ concat (map ser v)"

fun read_elems :: "'a reader \<Rightarrow> nat \<Rightarrow> 'a list \<Rightarrow> 'a list reader" where
  "read_elems unser 0 v s = Inr (v, s)"
| "read_elems unser (Suc k) v s = bind_result (unser s) (\<lambda>(x, r). read_elems unser k (v @ [x]) r)"

function read_mids :: "'a reader \<Rightarrow> nat \<Rightarrow> nat \<Rightarrow> nat \<Rightarrow> 'a list \<Rightarrow> 'a list reader" where
  "read_mids unser K nSize nMid v s =
     (if nMid < nSize \<and> 0 < K then
        let nMid' = (if nSize < nMid + K then nSize else nMid + K) in
        bind_result (read_elems unser (nMid' - nMid) v s) (\<lambda>(v, r). read_mids unser K nSize nMid' v r)
      else Inr (v, s))"
  by pat_completeness auto
termination by (relation "measure (\<lambda>(unser, K, nSize, nMid, v, s). nSize - nMid)") auto

declare read_mids.simps [simp del]

definition Unserialize_vec :: "'a reader \<Rightarrow> nat \<Rightarrow> 'a list reader" where
  "Unserialize_vec unser sizeofT s =
     bind_result (ReadCompactSize s) (\<lambda>(nSize, r). read_mids unser (5000000 div sizeofT) (unat nSize) 0 [] r)"

section \<open>The contract of a serialisable type\<close>

text \<open>
  \<open>ok\<close> holds of the values the format can carry. Reading back what was written returns the
  value and leaves what follows; what a reader accepts is exactly what the writer writes.
\<close>

locale codec =
  fixes ser :: "'a \<Rightarrow> bytes" and unser :: "'a reader" and ok :: "'a \<Rightarrow> bool"
  assumes unser_ser: "ok x \<Longrightarrow> unser (ser x @ r) = Inr (x, r)"
    and ser_unser: "unser s = Inr (x, r) \<Longrightarrow> ok x \<and> s = ser x @ r"
begin

lemma prefix_free:
  assumes "ok x" and "ok y" and "ser x @ r = ser y @ r'"
  shows "x = y \<and> r = r'"
proof -
  have "Inr (x, r) = unser (ser y @ r')" using unser_ser [OF assms(1), of r] by (simp only: assms(3))
  then show ?thesis by (simp only: unser_ser [OF assms(2)] sum.inject prod.inject)
qed

lemma read_elems_ser:
  "list_all ok xs \<Longrightarrow> read_elems unser (length xs) v (concat (map ser xs) @ r) = Inr (v @ xs, r)"
  by (induction xs arbitrary: v) (simp_all add: unser_ser)

lemma read_elems_unser:
  "read_elems unser k v s = Inr (w, r) \<Longrightarrow>
     \<exists>xs. w = v @ xs \<and> length xs = k \<and> list_all ok xs \<and> s = concat (map ser xs) @ r"
proof (induction k arbitrary: v s)
  case 0
  then show ?case by simp
next
  case (Suc k)
  then obtain x s' where "unser s = Inr (x, s')" and "read_elems unser k (v @ [x]) s' = Inr (w, r)"
    by (auto simp: bind_result_Inr)
  with Suc.IH [of "v @ [x]" s'] obtain xs where "w = v @ x # xs" "length xs = k" "list_all ok xs"
    "s' = concat (map ser xs) @ r"
    by auto
  with ser_unser [OF \<open>unser s = Inr (x, s')\<close>] show ?case
    by (intro exI [of _ "x # xs"]) simp
qed

end

section \<open>Fixed-width integers\<close>

lemmas ser_defs = ser_read_def ser_readdata8_def ser_readdata16_def ser_readdata32_def ser_readdata32be_def
  ser_readdata64_def ser_writedata8_def ser_writedata16_def ser_writedata32_def ser_writedata32be_def ser_writedata64_def

lemma ser_read_append [simp]: "length x = n \<Longrightarrow> ser_read n (x @ r) = Inr (x, r)"
  by (simp add: ser_read_def)

lemma ser_read_Inr: "ser_read n s = Inr (x, r) \<longleftrightarrow> length x = n \<and> s = x @ r"
  by (auto simp: ser_read_def split: if_splits)

lemma Write_length [simp]:
  "length (ser_writedata8 a) = 1" "length (ser_writedata16 b) = 2" "length (ser_writedata32 c) = 4"
  "length (ser_writedata32be c) = 4" "length (ser_writedata64 d) = 8"
  by (simp_all add: ser_defs)

lemma Read_Write_nil [simp]:
  "ReadLE16 (WriteLE16 a) = a" "ReadLE32 (WriteLE32 b) = b" "ReadLE64 (WriteLE64 c) = c" "ReadBE32 (WriteBE32 b) = b"
  using Read_Write(1) [of a "[]"] Read_Write(2) [of b "[]"] Read_Write(3) [of c "[]"] Read_Write(4) [of b "[]"]
  by simp_all

lemma ser_readdata8_simps [simp]: "ser_readdata8 [] = Inl EndOfData" "ser_readdata8 (b # s) = Inr (b, s)"
  by (simp_all add: ser_readdata8_def ser_read_def)

lemma ser_readdata8_Inr: "ser_readdata8 s = Inr (b, r) \<longleftrightarrow> s = b # r"
  by (cases s) auto

interpretation ser8: codec ser_writedata8 ser_readdata8 "\<lambda>_. True"
  by unfold_locales (simp_all add: ser_writedata8_def ser_readdata8_Inr)

text \<open>A reader that takes \<open>k\<close> bytes and decodes them is a codec when decoding inverts the writer.\<close>

lemma fixed_width_codec:
  assumes "\<And>x. length (wr x) = k" and "\<And>x. rd (wr x) = x" and "\<And>b. length b = k \<Longrightarrow> wr (rd b) = b"
  shows "codec wr (\<lambda>s. bind_result (ser_read k s) (\<lambda>(obj, r). Inr (rd obj, r))) (\<lambda>_. True)"
  using assms(3) by unfold_locales (auto simp: assms(1,2) bind_result_Inr ser_read_Inr)

interpretation ser16: codec ser_writedata16 ser_readdata16 "\<lambda>_. True"
  using fixed_width_codec [of ser_writedata16 2 ReadLE16]
  by (simp add: ser_writedata16_def Write_Read ser_readdata16_def [abs_def])

interpretation ser32: codec ser_writedata32 ser_readdata32 "\<lambda>_. True"
  using fixed_width_codec [of ser_writedata32 4 ReadLE32]
  by (simp add: ser_writedata32_def Write_Read ser_readdata32_def [abs_def])

interpretation ser32be: codec ser_writedata32be ser_readdata32be "\<lambda>_. True"
  using fixed_width_codec [of ser_writedata32be 4 ReadBE32]
  by (simp add: ser_writedata32be_def Write_Read ser_readdata32be_def [abs_def])

interpretation ser64: codec ser_writedata64 ser_readdata64 "\<lambda>_. True"
  using fixed_width_codec [of ser_writedata64 8 ReadLE64]
  by (simp add: ser_writedata64_def Write_Read ser_readdata64_def [abs_def])

section \<open>Compact sizes are canonical\<close>

lemma length_WriteCompactSize: "length (WriteCompactSize n) = GetSizeOfCompactSize n"
  by (simp add: WriteCompactSize_def GetSizeOfCompactSize_def)

lemma unat_ucast_id:
  fixes n :: "'b::len word"
  assumes "unat n < 2 ^ LENGTH('a::len)"
  shows "unat (ucast n :: 'a word) = unat n"
  by (subst unsigned_ucast_eq) (rule take_bit_nat_eq_self [OF assms])

lemma ucast_ucast_id:
  fixes n :: "'b::len word"
  assumes "unat n < 2 ^ LENGTH('a::len)"
  shows "ucast (ucast n :: 'a word) = n"
proof -
  have "ucast (ucast n :: 'a word) = (of_nat (unat (ucast n :: 'a word)) :: 'b word)"
    by (rule of_nat_unat [symmetric])
  also have "\<dots> = n" by (simp only: unat_ucast_id [OF assms] of_nat_unat ucast_id)
  finally show ?thesis .
qed

lemma ReadCompactSize_Write:
  assumes "unat n \<le> MAX_SIZE"
  shows "ReadCompactSize (WriteCompactSize n @ r) = Inr (n, r)"
proof -
  have le: "unat n \<le> 0x02000000" using assms by (simp add: MAX_SIZE_def)
  consider (1) "unat n < 253" | (2) "253 \<le> unat n" "unat n \<le> 0xffff" | (4) "0xffff < unat n" by linarith
  then show ?thesis
  proof cases
    case 1
    then have "(ucast n :: byte) < 253" and "n < 253" and c: "ucast (ucast n :: byte) = n"
      using unat_ucast_id [of n, where 'a = 8] ucast_ucast_id [of n, where 'a = 8]
      by (simp_all add: word_less_nat_alt)
    with 1 le show ?thesis
      unfolding WriteCompactSize_def ReadCompactSize_def ser_writedata8_def check_compact_def MAX_SIZE_def
      by simp
  next
    case 2
    then have "\<not> n < 253" and "n \<le> 0xffff" and c: "ucast (ucast n :: u16) = n"
      using ucast_ucast_id [of n, where 'a = 16] by (simp_all add: word_less_nat_alt word_le_nat_alt)
    with 2 le show ?thesis
      unfolding WriteCompactSize_def ReadCompactSize_def ser_writedata8_def check_compact_def MAX_SIZE_def
      by (simp add: ser16.unser_ser)
  next
    case 4
    then have "\<not> n < 253" and "\<not> n \<le> 0xffff" and "n \<le> 0xffffffff" and c: "ucast (ucast n :: u32) = n"
      using le ucast_ucast_id [of n, where 'a = 32] by (simp_all add: word_less_nat_alt word_le_nat_alt)
    with 4 le show ?thesis
      unfolding WriteCompactSize_def ReadCompactSize_def ser_writedata8_def check_compact_def MAX_SIZE_def
      by (simp add: ser32.unser_ser)
  qed
qed

lemma check_compact_Inr:
  "check_compact lo p = Inr q \<longleftrightarrow> q = p \<and> lo \<le> unat (fst p) \<and> unat (fst p) \<le> MAX_SIZE"
  by (auto simp: check_compact_def)

lemma ReadCompactSize_canonical:
  assumes "ReadCompactSize s = Inr (n, r)"
  shows "unat n \<le> MAX_SIZE \<and> s = WriteCompactSize n @ r"
proof -
  obtain c s' where s: "s = c # s'"
    using assms by (cases s) (simp_all add: ReadCompactSize_def)
  note R = assms [unfolded s ReadCompactSize_def, simplified]
  consider (1) "unat c < 253" | (2) "c = 253" | (4) "c = 254" | (8) "c = 255"
  proof -
    have "unat c < 253 \<or> unat c = 253 \<or> unat c = 254 \<or> unat c = 255" using unat_byte_less [of c] by linarith
    then show ?thesis using that by (auto simp: word_unat_eq_iff)
  qed
  then show ?thesis
  proof cases
    case 1
    then have c: "c < 253" by (simp add: word_less_nat_alt)
    then have n: "n = ucast c" "s' = r" and "unat n \<le> MAX_SIZE" using R by (simp_all add: check_compact_Inr)
    moreover have "unat n = unat c" using unat_ucast_id [of c, where 'a = 64] unat_byte_less [of c] n by simp
    moreover have "ucast n = c" using ucast_ucast_id [of c, where 'a = 64] unat_byte_less [of c] n by simp
    ultimately show ?thesis using 1 s by (simp add: WriteCompactSize_def word_less_nat_alt ser_writedata8_def)
  next
    case 2
    then obtain m where m: "ser_readdata16 s' = Inr (m, r)" "n = ucast m" and n: "253 \<le> unat n" "unat n \<le> MAX_SIZE"
      using R by (auto simp: bind_result_Inr check_compact_Inr)
    moreover have "unat m < 65536" using unsigned_less [of m, where ?'a = nat] by simp
    moreover from this have "unat n = unat m" "ucast n = m"
      using unat_ucast_id [of m, where 'a = 64] ucast_ucast_id [of m, where 'a = 64] m by simp_all
    ultimately show ?thesis
      using ser16.ser_unser [OF m(1)] s 2
      by (simp add: WriteCompactSize_def word_less_nat_alt word_le_nat_alt ser_writedata8_def)
  next
    case 4
    then obtain m where m: "ser_readdata32 s' = Inr (m, r)" "n = ucast m" and n: "0x10000 \<le> unat n" "unat n \<le> MAX_SIZE"
      using R by (auto simp: bind_result_Inr check_compact_Inr)
    moreover have "unat m < 4294967296" using unsigned_less [of m, where ?'a = nat] by simp
    moreover from this have "unat n = unat m" "ucast n = m"
      using unat_ucast_id [of m, where 'a = 64] ucast_ucast_id [of m, where 'a = 64] m by simp_all
    ultimately show ?thesis
      using ser32.ser_unser [OF m(1)] s 4
      by (simp add: WriteCompactSize_def word_less_nat_alt word_le_nat_alt ser_writedata8_def)
  next
    case 8
    then show ?thesis
      using R by (auto simp: bind_result_Inr check_compact_Inr MAX_SIZE_def)
  qed
qed

interpretation compact: codec WriteCompactSize ReadCompactSize "\<lambda>n. unat n \<le> MAX_SIZE"
  by unfold_locales (simp_all add: ReadCompactSize_Write ReadCompactSize_canonical)

section \<open>Variable-length integers are decoded\<close>

lemma bit_7F: "bit (0x7F :: int) i \<longleftrightarrow> i < 7"
proof -
  have "(0x7F :: int) = mask 7" by (simp add: mask_eq_exp_minus_1)
  then show ?thesis by (simp only: bit_mask_iff) simp
qed

lemma bit_80: "bit (0x80 :: int) i \<longleftrightarrow> i = 7"
proof -
  have "(0x80 :: int) = 2 ^ 7" by simp
  then show ?thesis by (simp only: bit_exp_iff) auto
qed

lemma varint_digit:
  "push_bit 7 (drop_bit 7 n) OR ucast (ucast (n AND 0x7F) :: byte) = (n :: 'w::len word)"
proof (rule bit_word_eqI)
  fix i assume "i < LENGTH('w)"
  then show "bit (push_bit 7 (drop_bit 7 n) OR ucast (ucast (n AND 0x7F) :: byte)) i = bit n i"
    by (cases "i < 7") (auto simp: bit_simps bit_7F)
qed

lemma varint_flag:
  "((ucast (n AND 0x7F) OR 0x80 :: byte) AND 0x7F) = ucast (n AND 0x7F :: 'w::len word)"
  "((ucast (n AND 0x7F) :: byte) AND 0x7F) = ucast (n AND 0x7F)"
  "((ucast (n AND 0x7F) OR 0x80 :: byte) AND 0x80) \<noteq> 0"
  "((ucast (n AND 0x7F) :: byte) AND 0x80) = 0"
proof -
  show "((ucast (n AND 0x7F) OR 0x80 :: byte) AND 0x7F) = ucast (n AND 0x7F)"
    "((ucast (n AND 0x7F) :: byte) AND 0x7F) = ucast (n AND 0x7F)"
    "((ucast (n AND 0x7F) :: byte) AND 0x80) = 0"
    by (rule bit_word_eqI; auto simp: bit_simps bit_7F bit_80)+
  have "bit ((ucast (n AND 0x7F) OR 0x80 :: byte) AND 0x80) 7"
    by (simp add: bit_simps bit_80)
  then show "((ucast (n AND 0x7F) OR 0x80 :: byte) AND 0x80) \<noteq> 0"
    by (metis bit_0_eq bot_apply bot_bool_def)
qed

lemma varint_small:
  assumes "unat n \<le> 0x7F"
  shows "ucast (ucast (n AND 0x7F) :: byte) = (n :: 'w::len word)"
proof -
  have "unat (drop_bit 7 n) = 0" using assms by (simp add: unat_drop_bit)
  then have "drop_bit 7 n = 0" by (simp only: unat_eq_0)
  then show ?thesis using varint_digit [of n] by simp
qed

text \<open>Reading the digits above \<open>tmp[0]\<close> leaves the number they stand for, plus one.\<close>

lemma ReadVarInt_high:
  "0 < len \<Longrightarrow> ReadVarInt_loop 0 (rev (varint_tmp len n) @ r) = ReadVarInt_loop (n + 1) r"
proof (induction len n arbitrary: r rule: varint_tmp.induct)
  case (1 len n)
  show ?case
  proof (cases "unat n \<le> 0x7F")
    case True
    then show ?thesis
      using 1(2) by (subst varint_tmp.simps) (simp add: varint_flag varint_small)
  next
    case False
    then show ?thesis
      using 1 varint_digit [of n] by (subst varint_tmp.simps) (simp add: varint_flag)
  qed
qed

lemma ReadVarInt_WriteVarInt: "ReadVarInt (WriteVarInt n @ r) = Inr (n, r)"
proof (cases "unat n \<le> 0x7F")
  case True
  then show ?thesis
    unfolding ReadVarInt_def WriteVarInt_def
    by (subst varint_tmp.simps) (simp add: varint_flag varint_small)
next
  case False
  then show ?thesis
    unfolding ReadVarInt_def WriteVarInt_def
    using ReadVarInt_high [of 1 "drop_bit 7 n - 1"] varint_digit [of n]
    by (subst varint_tmp.simps) (simp add: varint_flag)
qed

lemma length_WriteVarInt: "length (WriteVarInt n) = GetSizeOfVarInt n"
  by (simp add: WriteVarInt_def GetSizeOfVarInt_def)

section \<open>Vectors are decoded\<close>

lemma read_blks_eq:
  "i \<le> nSize \<Longrightarrow> read_blks nSize i v s = bind_result (ser_read (nSize - i) s) (\<lambda>(b, r). Inr (v @ b, r))"
proof (induction nSize i v s rule: read_blks.induct)
  case (1 nSize i v s)
  define blk where "blk = min (nSize - i) (1 + 4999999)"
  show ?case
  proof (cases "i < nSize")
    case True
    then have b: "blk \<le> nSize - i" by (simp add: blk_def)
    have u: "read_blks nSize i v s = bind_result (ser_read blk s) (\<lambda>(b, r). read_blks nSize (i + blk) (v @ b) r)"
      using True by (subst read_blks.simps) (simp add: blk_def Let_def)
    show ?thesis
    proof (cases "length s < blk")
      case False
      then have "read_blks nSize i v s
        = bind_result (ser_read (nSize - (i + blk)) (drop blk s)) (\<lambda>(b, r). Inr ((v @ take blk s) @ b, r))"
        using 1(1) [OF True blk_def, of "take blk s" "drop blk s"] u b True
        by (simp add: ser_read_def)
      also have "\<dots> = bind_result (ser_read (nSize - i) s) (\<lambda>(b, r). Inr (v @ b, r))"
      proof -
        define k where "k = nSize - (i + blk)"
        have "nSize - i = blk + k" using b by (simp add: k_def)
        then show ?thesis
          using False unfolding k_def [symmetric] by (auto simp: ser_read_def take_add add.commute)
      qed
      finally show ?thesis .
    qed (use u b in \<open>simp add: ser_read_def\<close>)
  next
    case False
    then show ?thesis using 1(2) by (subst read_blks.simps) (simp add: ser_read_def)
  qed
qed


lemma unat_of_nat_size: "n \<le> MAX_SIZE \<Longrightarrow> unat (of_nat n :: u64) = n"
  by (simp add: MAX_SIZE_def unat_of_nat)

interpretation bytes: codec Serialize_bytes Unserialize_bytes "\<lambda>v. length v \<le> MAX_SIZE"
proof
  fix v r :: bytes
  assume "length v \<le> MAX_SIZE"
  then show "Unserialize_bytes (Serialize_bytes v @ r) = Inr (v, r)"
    by (simp add: Unserialize_bytes_def Serialize_bytes_def compact.unser_ser unat_of_nat_size read_blks_eq)
next
  fix s v r :: bytes
  assume "Unserialize_bytes s = Inr (v, r)"
  then obtain n s' where n: "ReadCompactSize s = Inr (n, s')" and "length v = unat n" "s' = v @ r"
    by (auto simp: Unserialize_bytes_def bind_result_Inr read_blks_eq ser_read_Inr)
  then show "length v \<le> MAX_SIZE \<and> s = Serialize_bytes v @ r"
    using compact.ser_unser [OF n] by (simp add: Serialize_bytes_def)
qed

lemma read_elems_add:
  "read_elems unser (a + b) v s = bind_result (read_elems unser a v s) (\<lambda>(w, r). read_elems unser b w r)"
proof (induction a arbitrary: v s)
  case (Suc a)
  then show ?case by (cases "unser s") (auto split: prod.splits)
qed simp

text \<open>Whatever room is made at a time, the elements are read one after the other.\<close>

lemma read_mids_eq:
  "0 < K \<Longrightarrow> nMid \<le> nSize \<Longrightarrow> read_mids unser K nSize nMid v s = read_elems unser (nSize - nMid) v s"
proof (induction unser K nSize nMid v s rule: read_mids.induct)
  case (1 unser K nSize nMid v s)
  show ?case
  proof (cases "nMid < nSize")
    case True
    define m where "m = (if nSize < nMid + K then nSize else nMid + K)"
    have m: "nMid \<le> m" "m \<le> nSize" using True by (auto simp: m_def)
    then have "read_elems unser (nSize - nMid) v s
      = bind_result (read_elems unser (m - nMid) v s) (\<lambda>(w, r). read_elems unser (nSize - m) w r)"
      using read_elems_add [of unser "m - nMid" "nSize - m" v s] by simp
    moreover have "read_mids unser K nSize nMid v s
      = bind_result (read_elems unser (m - nMid) v s) (\<lambda>(w, r). read_mids unser K nSize m w r)"
      using True 1(2) by (subst read_mids.simps) (simp add: m_def Let_def)
    moreover have "read_mids unser K nSize m w r = read_elems unser (nSize - m) w r"
      if "read_elems unser (m - nMid) v s = Inr (w, r)" for w r
      using 1(1) [OF _ m_def, of w r] True 1(2) m by simp
    ultimately show ?thesis
      by (cases "read_elems unser (m - nMid) v s") auto
  qed (use 1 in \<open>subst read_mids.simps, simp\<close>)
qed

lemma vec_codec:
  assumes "codec ser unser ok" and "0 < sizeofT" and "sizeofT \<le> 5000000"
  shows "codec (Serialize_vec ser) (Unserialize_vec unser sizeofT) (\<lambda>v. length v \<le> MAX_SIZE \<and> list_all ok v)"
proof
  have K: "0 < 5000000 div sizeofT" using assms(2,3) by (simp add: div_greater_zero_iff)
  fix v r
  assume "length v \<le> MAX_SIZE \<and> list_all ok v"
  then show "Unserialize_vec unser sizeofT (Serialize_vec ser v @ r) = Inr (v, r)"
    using codec.read_elems_ser [OF assms(1), of v "[]" r] K
    by (simp add: Unserialize_vec_def Serialize_vec_def compact.unser_ser unat_of_nat_size read_mids_eq)
next
  have K: "0 < 5000000 div sizeofT" using assms(2,3) by (simp add: div_greater_zero_iff)
  fix s v r
  assume "Unserialize_vec unser sizeofT s = Inr (v, r)"
  then obtain n s' where n: "ReadCompactSize s = Inr (n, s')" and "read_elems unser (unat n) [] s' = Inr (v, r)"
    using K by (auto simp: Unserialize_vec_def bind_result_Inr read_mids_eq)
  then have "length v = unat n" "list_all ok v" "s' = concat (map ser v) @ r"
    using codec.read_elems_unser [OF assms(1)] by fastforce+
  then show "(length v \<le> MAX_SIZE \<and> list_all ok v) \<and> s = Serialize_vec ser v @ r"
    using compact.ser_unser [OF n] by (simp add: Serialize_vec_def)
qed

lemma Unserialize_limited_eq:
  "Unserialize_limited Limit s = bind_result (ReadCompactSize s) (\<lambda>(size, r).
     if Limit < unat size then Inl StringLimitExceeded else ser_read (unat size) r)"
proof -
  have "(if size \<noteq> 0 then ser_read (unat size) r else Inr ([], r)) = ser_read (unat size) r" for size :: u64 and r
    by (simp add: ser_read_def)
  then show ?thesis unfolding Unserialize_limited_def by (simp only:)
qed

lemma Unserialize_limited_Inr:
  "Unserialize_limited Limit s = Inr (v, r) \<longleftrightarrow> length v \<le> Limit \<and> length v \<le> MAX_SIZE \<and> s = Serialize_bytes v @ r"
proof
  assume "Unserialize_limited Limit s = Inr (v, r)"
  then obtain n s' where n: "ReadCompactSize s = Inr (n, s')" and *: "unat n \<le> Limit" "ser_read (unat n) s' = Inr (v, r)"
    unfolding Unserialize_limited_eq bind_result_Inr by (auto simp: not_less split: if_splits)
  then show "length v \<le> Limit \<and> length v \<le> MAX_SIZE \<and> s = Serialize_bytes v @ r"
    using compact.ser_unser [OF n] by (simp add: Serialize_bytes_def ser_read_Inr)
next
  assume *: "length v \<le> Limit \<and> length v \<le> MAX_SIZE \<and> s = Serialize_bytes v @ r"
  have "ReadCompactSize (Serialize_bytes v @ r) = Inr (of_nat (length v), v @ r)"
    using * by (simp add: Serialize_bytes_def compact.unser_ser unat_of_nat_size)
  with * show "Unserialize_limited Limit s = Inr (v, r)"
    by (simp add: Unserialize_limited_eq unat_of_nat_size)
qed

section \<open>Properties\<close>

text \<open>
  C25. Compact sizes have one encoding: \<open>ReadCompactSize\<close> returns \<open>n\<close> exactly on the bytes
  \<open>WriteCompactSize\<close> writes for \<open>n\<close>, for the sizes up to \<open>MAX_SIZE\<close>, and leaves what follows;
  so every longer form of a size is refused. The encoding has the length \<open>GetSizeOfCompactSize\<close>.
\<close>

theorem CompactSize_canonical:
  "(ReadCompactSize s = Inr (n, r)) = (unat n \<le> MAX_SIZE \<and> s = WriteCompactSize n @ r)
   \<and> length (WriteCompactSize n) = GetSizeOfCompactSize n"
  using compact.unser_ser compact.ser_unser length_WriteCompactSize by blast

text \<open>
  Variable-length integers of every width are read back, with any bytes after them, and
  take \<open>GetSizeOfVarInt\<close> bytes.
\<close>

theorem VarInt_roundtrip:
  "ReadVarInt (WriteVarInt n @ r) = Inr (n, r) \<and> length (WriteVarInt n) = GetSizeOfVarInt n"
  by (simp add: ReadVarInt_WriteVarInt length_WriteVarInt)

end
