(* ===== verification/Opcodes.thy ===== *)
theory Opcodes
  imports Prelude
begin

text \<open>
  The opcodes of \<^verbatim>\<open>src/script/script.h\<close>, one abbreviation per enumerator with the source's
  name and value, and their names from \<^verbatim>\<open>src/script/script.cpp\<close>.
\<close>

section \<open>opcodetype\<close>

abbreviation (input) OP_0 :: byte where "OP_0 \<equiv> 0x00"
abbreviation (input) OP_ALIAS_ACTIVATE :: byte where "OP_ALIAS_ACTIVATE \<equiv> 0x01"
abbreviation (input) OP_ALIAS_UPDATE :: byte where "OP_ALIAS_UPDATE \<equiv> 0x02"
abbreviation (input) OP_OFFER_ACTIVATE :: byte where "OP_OFFER_ACTIVATE \<equiv> 0x01"
abbreviation (input) OP_OFFER_UPDATE :: byte where "OP_OFFER_UPDATE \<equiv> 0x02"
abbreviation (input) OP_CERT_ACTIVATE :: byte where "OP_CERT_ACTIVATE \<equiv> 0x01"
abbreviation (input) OP_CERT_UPDATE :: byte where "OP_CERT_UPDATE \<equiv> 0x02"
abbreviation (input) OP_CERT_TRANSFER :: byte where "OP_CERT_TRANSFER \<equiv> 0x03"
abbreviation (input) OP_ESCROW_ACTIVATE :: byte where "OP_ESCROW_ACTIVATE \<equiv> 0x01"
abbreviation (input) OP_ESCROW_RELEASE :: byte where "OP_ESCROW_RELEASE \<equiv> 0x02"
abbreviation (input) OP_ESCROW_REFUND :: byte where "OP_ESCROW_REFUND \<equiv> 0x03"
abbreviation (input) OP_ESCROW_REFUND_COMPLETE :: byte where "OP_ESCROW_REFUND_COMPLETE \<equiv> 0x04"
abbreviation (input) OP_ESCROW_RELEASE_COMPLETE :: byte where "OP_ESCROW_RELEASE_COMPLETE \<equiv> 0x05"
abbreviation (input) OP_ESCROW_BID :: byte where "OP_ESCROW_BID \<equiv> 0x06"
abbreviation (input) OP_ESCROW_ACKNOWLEDGE :: byte where "OP_ESCROW_ACKNOWLEDGE \<equiv> 0x07"
abbreviation (input) OP_ESCROW_ADD_SHIPPING :: byte where "OP_ESCROW_ADD_SHIPPING \<equiv> 0x08"
abbreviation (input) OP_ESCROW_FEEDBACK :: byte where "OP_ESCROW_FEEDBACK \<equiv> 0x09"
abbreviation (input) OP_ASSET_ACTIVATE :: byte where "OP_ASSET_ACTIVATE \<equiv> 0x01"
abbreviation (input) OP_ASSET_UPDATE :: byte where "OP_ASSET_UPDATE \<equiv> 0x02"
abbreviation (input) OP_ASSET_TRANSFER :: byte where "OP_ASSET_TRANSFER \<equiv> 0x03"
abbreviation (input) OP_ASSET_SEND :: byte where "OP_ASSET_SEND \<equiv> 0x04"
abbreviation (input) OP_ASSET_ALLOCATION_SEND :: byte where "OP_ASSET_ALLOCATION_SEND \<equiv> 0x01"
abbreviation (input) OP_ASSET_COLLECT_INTEREST :: byte where "OP_ASSET_COLLECT_INTEREST \<equiv> 0x02"
abbreviation (input) OP_MINERIUM_ALIAS :: byte where "OP_MINERIUM_ALIAS \<equiv> 0x01"
abbreviation (input) OP_MINERIUM_CERT :: byte where "OP_MINERIUM_CERT \<equiv> 0x02"
abbreviation (input) OP_MINERIUM_ESCROW :: byte where "OP_MINERIUM_ESCROW \<equiv> 0x03"
abbreviation (input) OP_MINERIUM_OFFER :: byte where "OP_MINERIUM_OFFER \<equiv> 0x04"
abbreviation (input) OP_MINERIUM_ASSET :: byte where "OP_MINERIUM_ASSET \<equiv> 0x05"
abbreviation (input) OP_MINERIUM_ASSET_ALLOCATION :: byte where "OP_MINERIUM_ASSET_ALLOCATION \<equiv> 0x06"
abbreviation (input) OP_FALSE :: byte where "OP_FALSE \<equiv> OP_0"
abbreviation (input) OP_PUSHDATA1 :: byte where "OP_PUSHDATA1 \<equiv> 0x4c"
abbreviation (input) OP_PUSHDATA2 :: byte where "OP_PUSHDATA2 \<equiv> 0x4d"
abbreviation (input) OP_PUSHDATA4 :: byte where "OP_PUSHDATA4 \<equiv> 0x4e"
abbreviation (input) OP_1NEGATE :: byte where "OP_1NEGATE \<equiv> 0x4f"
abbreviation (input) OP_RESERVED :: byte where "OP_RESERVED \<equiv> 0x50"
abbreviation (input) OP_1 :: byte where "OP_1 \<equiv> 0x51"
abbreviation (input) OP_TRUE :: byte where "OP_TRUE \<equiv> OP_1"
abbreviation (input) OP_2 :: byte where "OP_2 \<equiv> 0x52"
abbreviation (input) OP_3 :: byte where "OP_3 \<equiv> 0x53"
abbreviation (input) OP_4 :: byte where "OP_4 \<equiv> 0x54"
abbreviation (input) OP_5 :: byte where "OP_5 \<equiv> 0x55"
abbreviation (input) OP_6 :: byte where "OP_6 \<equiv> 0x56"
abbreviation (input) OP_7 :: byte where "OP_7 \<equiv> 0x57"
abbreviation (input) OP_8 :: byte where "OP_8 \<equiv> 0x58"
abbreviation (input) OP_9 :: byte where "OP_9 \<equiv> 0x59"
abbreviation (input) OP_10 :: byte where "OP_10 \<equiv> 0x5a"
abbreviation (input) OP_11 :: byte where "OP_11 \<equiv> 0x5b"
abbreviation (input) OP_12 :: byte where "OP_12 \<equiv> 0x5c"
abbreviation (input) OP_13 :: byte where "OP_13 \<equiv> 0x5d"
abbreviation (input) OP_14 :: byte where "OP_14 \<equiv> 0x5e"
abbreviation (input) OP_15 :: byte where "OP_15 \<equiv> 0x5f"
abbreviation (input) OP_16 :: byte where "OP_16 \<equiv> 0x60"
abbreviation (input) OP_NOP :: byte where "OP_NOP \<equiv> 0x61"
abbreviation (input) OP_VER :: byte where "OP_VER \<equiv> 0x62"
abbreviation (input) OP_IF :: byte where "OP_IF \<equiv> 0x63"
abbreviation (input) OP_NOTIF :: byte where "OP_NOTIF \<equiv> 0x64"
abbreviation (input) OP_VERIF :: byte where "OP_VERIF \<equiv> 0x65"
abbreviation (input) OP_VERNOTIF :: byte where "OP_VERNOTIF \<equiv> 0x66"
abbreviation (input) OP_ELSE :: byte where "OP_ELSE \<equiv> 0x67"
abbreviation (input) OP_ENDIF :: byte where "OP_ENDIF \<equiv> 0x68"
abbreviation (input) OP_VERIFY :: byte where "OP_VERIFY \<equiv> 0x69"
abbreviation (input) OP_RETURN :: byte where "OP_RETURN \<equiv> 0x6a"
abbreviation (input) OP_TOALTSTACK :: byte where "OP_TOALTSTACK \<equiv> 0x6b"
abbreviation (input) OP_FROMALTSTACK :: byte where "OP_FROMALTSTACK \<equiv> 0x6c"
abbreviation (input) OP_2DROP :: byte where "OP_2DROP \<equiv> 0x6d"
abbreviation (input) OP_2DUP :: byte where "OP_2DUP \<equiv> 0x6e"
abbreviation (input) OP_3DUP :: byte where "OP_3DUP \<equiv> 0x6f"
abbreviation (input) OP_2OVER :: byte where "OP_2OVER \<equiv> 0x70"
abbreviation (input) OP_2ROT :: byte where "OP_2ROT \<equiv> 0x71"
abbreviation (input) OP_2SWAP :: byte where "OP_2SWAP \<equiv> 0x72"
abbreviation (input) OP_IFDUP :: byte where "OP_IFDUP \<equiv> 0x73"
abbreviation (input) OP_DEPTH :: byte where "OP_DEPTH \<equiv> 0x74"
abbreviation (input) OP_DROP :: byte where "OP_DROP \<equiv> 0x75"
abbreviation (input) OP_DUP :: byte where "OP_DUP \<equiv> 0x76"
abbreviation (input) OP_NIP :: byte where "OP_NIP \<equiv> 0x77"
abbreviation (input) OP_OVER :: byte where "OP_OVER \<equiv> 0x78"
abbreviation (input) OP_PICK :: byte where "OP_PICK \<equiv> 0x79"
abbreviation (input) OP_ROLL :: byte where "OP_ROLL \<equiv> 0x7a"
abbreviation (input) OP_ROT :: byte where "OP_ROT \<equiv> 0x7b"
abbreviation (input) OP_SWAP :: byte where "OP_SWAP \<equiv> 0x7c"
abbreviation (input) OP_TUCK :: byte where "OP_TUCK \<equiv> 0x7d"
abbreviation (input) OP_CAT :: byte where "OP_CAT \<equiv> 0x7e"
abbreviation (input) OP_SUBSTR :: byte where "OP_SUBSTR \<equiv> 0x7f"
abbreviation (input) OP_LEFT :: byte where "OP_LEFT \<equiv> 0x80"
abbreviation (input) OP_RIGHT :: byte where "OP_RIGHT \<equiv> 0x81"
abbreviation (input) OP_SIZE :: byte where "OP_SIZE \<equiv> 0x82"
abbreviation (input) OP_INVERT :: byte where "OP_INVERT \<equiv> 0x83"
abbreviation (input) OP_AND :: byte where "OP_AND \<equiv> 0x84"
abbreviation (input) OP_OR :: byte where "OP_OR \<equiv> 0x85"
abbreviation (input) OP_XOR :: byte where "OP_XOR \<equiv> 0x86"
abbreviation (input) OP_EQUAL :: byte where "OP_EQUAL \<equiv> 0x87"
abbreviation (input) OP_EQUALVERIFY :: byte where "OP_EQUALVERIFY \<equiv> 0x88"
abbreviation (input) OP_RESERVED1 :: byte where "OP_RESERVED1 \<equiv> 0x89"
abbreviation (input) OP_RESERVED2 :: byte where "OP_RESERVED2 \<equiv> 0x8a"
abbreviation (input) OP_1ADD :: byte where "OP_1ADD \<equiv> 0x8b"
abbreviation (input) OP_1SUB :: byte where "OP_1SUB \<equiv> 0x8c"
abbreviation (input) OP_2MUL :: byte where "OP_2MUL \<equiv> 0x8d"
abbreviation (input) OP_2DIV :: byte where "OP_2DIV \<equiv> 0x8e"
abbreviation (input) OP_NEGATE :: byte where "OP_NEGATE \<equiv> 0x8f"
abbreviation (input) OP_ABS :: byte where "OP_ABS \<equiv> 0x90"
abbreviation (input) OP_NOT :: byte where "OP_NOT \<equiv> 0x91"
abbreviation (input) OP_0NOTEQUAL :: byte where "OP_0NOTEQUAL \<equiv> 0x92"
abbreviation (input) OP_ADD :: byte where "OP_ADD \<equiv> 0x93"
abbreviation (input) OP_SUB :: byte where "OP_SUB \<equiv> 0x94"
abbreviation (input) OP_MUL :: byte where "OP_MUL \<equiv> 0x95"
abbreviation (input) OP_DIV :: byte where "OP_DIV \<equiv> 0x96"
abbreviation (input) OP_MOD :: byte where "OP_MOD \<equiv> 0x97"
abbreviation (input) OP_LSHIFT :: byte where "OP_LSHIFT \<equiv> 0x98"
abbreviation (input) OP_RSHIFT :: byte where "OP_RSHIFT \<equiv> 0x99"
abbreviation (input) OP_BOOLAND :: byte where "OP_BOOLAND \<equiv> 0x9a"
abbreviation (input) OP_BOOLOR :: byte where "OP_BOOLOR \<equiv> 0x9b"
abbreviation (input) OP_NUMEQUAL :: byte where "OP_NUMEQUAL \<equiv> 0x9c"
abbreviation (input) OP_NUMEQUALVERIFY :: byte where "OP_NUMEQUALVERIFY \<equiv> 0x9d"
abbreviation (input) OP_NUMNOTEQUAL :: byte where "OP_NUMNOTEQUAL \<equiv> 0x9e"
abbreviation (input) OP_LESSTHAN :: byte where "OP_LESSTHAN \<equiv> 0x9f"
abbreviation (input) OP_GREATERTHAN :: byte where "OP_GREATERTHAN \<equiv> 0xa0"
abbreviation (input) OP_LESSTHANOREQUAL :: byte where "OP_LESSTHANOREQUAL \<equiv> 0xa1"
abbreviation (input) OP_GREATERTHANOREQUAL :: byte where "OP_GREATERTHANOREQUAL \<equiv> 0xa2"
abbreviation (input) OP_MIN :: byte where "OP_MIN \<equiv> 0xa3"
abbreviation (input) OP_MAX :: byte where "OP_MAX \<equiv> 0xa4"
abbreviation (input) OP_WITHIN :: byte where "OP_WITHIN \<equiv> 0xa5"
abbreviation (input) OP_RIPEMD160 :: byte where "OP_RIPEMD160 \<equiv> 0xa6"
abbreviation (input) OP_SHA1 :: byte where "OP_SHA1 \<equiv> 0xa7"
abbreviation (input) OP_SHA256 :: byte where "OP_SHA256 \<equiv> 0xa8"
abbreviation (input) OP_HASH160 :: byte where "OP_HASH160 \<equiv> 0xa9"
abbreviation (input) OP_HASH256 :: byte where "OP_HASH256 \<equiv> 0xaa"
abbreviation (input) OP_CODESEPARATOR :: byte where "OP_CODESEPARATOR \<equiv> 0xab"
abbreviation (input) OP_CHECKSIG :: byte where "OP_CHECKSIG \<equiv> 0xac"
abbreviation (input) OP_CHECKSIGVERIFY :: byte where "OP_CHECKSIGVERIFY \<equiv> 0xad"
abbreviation (input) OP_CHECKMULTISIG :: byte where "OP_CHECKMULTISIG \<equiv> 0xae"
abbreviation (input) OP_CHECKMULTISIGVERIFY :: byte where "OP_CHECKMULTISIGVERIFY \<equiv> 0xaf"
abbreviation (input) OP_NOP1 :: byte where "OP_NOP1 \<equiv> 0xb0"
abbreviation (input) OP_CHECKLOCKTIMEVERIFY :: byte where "OP_CHECKLOCKTIMEVERIFY \<equiv> 0xb1"
abbreviation (input) OP_NOP2 :: byte where "OP_NOP2 \<equiv> OP_CHECKLOCKTIMEVERIFY"
abbreviation (input) OP_CHECKSEQUENCEVERIFY :: byte where "OP_CHECKSEQUENCEVERIFY \<equiv> 0xb2"
abbreviation (input) OP_NOP3 :: byte where "OP_NOP3 \<equiv> OP_CHECKSEQUENCEVERIFY"
abbreviation (input) OP_NOP4 :: byte where "OP_NOP4 \<equiv> 0xb3"
abbreviation (input) OP_NOP5 :: byte where "OP_NOP5 \<equiv> 0xb4"
abbreviation (input) OP_NOP6 :: byte where "OP_NOP6 \<equiv> 0xb5"
abbreviation (input) OP_NOP7 :: byte where "OP_NOP7 \<equiv> 0xb6"
abbreviation (input) OP_NOP8 :: byte where "OP_NOP8 \<equiv> 0xb7"
abbreviation (input) OP_NOP9 :: byte where "OP_NOP9 \<equiv> 0xb8"
abbreviation (input) OP_NOP10 :: byte where "OP_NOP10 \<equiv> 0xb9"
abbreviation (input) OP_SMALLINTEGER :: byte where "OP_SMALLINTEGER \<equiv> 0xfa"
abbreviation (input) OP_PUBKEYS :: byte where "OP_PUBKEYS \<equiv> 0xfb"
abbreviation (input) OP_PUBKEYHASH :: byte where "OP_PUBKEYHASH \<equiv> 0xfd"
abbreviation (input) OP_PUBKEY :: byte where "OP_PUBKEY \<equiv> 0xfe"
abbreviation (input) OP_INVALIDOPCODE :: byte where "OP_INVALIDOPCODE \<equiv> 0xff"

text \<open>The enumerators in the order of the enumeration.\<close>

definition opcodetype :: "(string \<times> byte) list" where
  "opcodetype =
     [(''OP_0'', OP_0), (''OP_ALIAS_ACTIVATE'', OP_ALIAS_ACTIVATE), (''OP_ALIAS_UPDATE'', OP_ALIAS_UPDATE),
      (''OP_OFFER_ACTIVATE'', OP_OFFER_ACTIVATE), (''OP_OFFER_UPDATE'', OP_OFFER_UPDATE),
      (''OP_CERT_ACTIVATE'', OP_CERT_ACTIVATE), (''OP_CERT_UPDATE'', OP_CERT_UPDATE),
      (''OP_CERT_TRANSFER'', OP_CERT_TRANSFER), (''OP_ESCROW_ACTIVATE'', OP_ESCROW_ACTIVATE),
      (''OP_ESCROW_RELEASE'', OP_ESCROW_RELEASE), (''OP_ESCROW_REFUND'', OP_ESCROW_REFUND),
      (''OP_ESCROW_REFUND_COMPLETE'', OP_ESCROW_REFUND_COMPLETE),
      (''OP_ESCROW_RELEASE_COMPLETE'', OP_ESCROW_RELEASE_COMPLETE), (''OP_ESCROW_BID'', OP_ESCROW_BID),
      (''OP_ESCROW_ACKNOWLEDGE'', OP_ESCROW_ACKNOWLEDGE), (''OP_ESCROW_ADD_SHIPPING'', OP_ESCROW_ADD_SHIPPING),
      (''OP_ESCROW_FEEDBACK'', OP_ESCROW_FEEDBACK), (''OP_ASSET_ACTIVATE'', OP_ASSET_ACTIVATE),
      (''OP_ASSET_UPDATE'', OP_ASSET_UPDATE), (''OP_ASSET_TRANSFER'', OP_ASSET_TRANSFER),
      (''OP_ASSET_SEND'', OP_ASSET_SEND), (''OP_ASSET_ALLOCATION_SEND'', OP_ASSET_ALLOCATION_SEND),
      (''OP_ASSET_COLLECT_INTEREST'', OP_ASSET_COLLECT_INTEREST), (''OP_MINERIUM_ALIAS'', OP_MINERIUM_ALIAS),
      (''OP_MINERIUM_CERT'', OP_MINERIUM_CERT), (''OP_MINERIUM_ESCROW'', OP_MINERIUM_ESCROW),
      (''OP_MINERIUM_OFFER'', OP_MINERIUM_OFFER), (''OP_MINERIUM_ASSET'', OP_MINERIUM_ASSET),
      (''OP_MINERIUM_ASSET_ALLOCATION'', OP_MINERIUM_ASSET_ALLOCATION), (''OP_FALSE'', OP_FALSE),
      (''OP_PUSHDATA1'', OP_PUSHDATA1), (''OP_PUSHDATA2'', OP_PUSHDATA2), (''OP_PUSHDATA4'', OP_PUSHDATA4),
      (''OP_1NEGATE'', OP_1NEGATE), (''OP_RESERVED'', OP_RESERVED), (''OP_1'', OP_1), (''OP_TRUE'', OP_TRUE),
      (''OP_2'', OP_2), (''OP_3'', OP_3), (''OP_4'', OP_4), (''OP_5'', OP_5), (''OP_6'', OP_6), (''OP_7'', OP_7),
      (''OP_8'', OP_8), (''OP_9'', OP_9), (''OP_10'', OP_10), (''OP_11'', OP_11), (''OP_12'', OP_12),
      (''OP_13'', OP_13), (''OP_14'', OP_14), (''OP_15'', OP_15), (''OP_16'', OP_16), (''OP_NOP'', OP_NOP),
      (''OP_VER'', OP_VER), (''OP_IF'', OP_IF), (''OP_NOTIF'', OP_NOTIF), (''OP_VERIF'', OP_VERIF),
      (''OP_VERNOTIF'', OP_VERNOTIF), (''OP_ELSE'', OP_ELSE), (''OP_ENDIF'', OP_ENDIF), (''OP_VERIFY'', OP_VERIFY),
      (''OP_RETURN'', OP_RETURN), (''OP_TOALTSTACK'', OP_TOALTSTACK), (''OP_FROMALTSTACK'', OP_FROMALTSTACK),
      (''OP_2DROP'', OP_2DROP), (''OP_2DUP'', OP_2DUP), (''OP_3DUP'', OP_3DUP), (''OP_2OVER'', OP_2OVER),
      (''OP_2ROT'', OP_2ROT), (''OP_2SWAP'', OP_2SWAP), (''OP_IFDUP'', OP_IFDUP), (''OP_DEPTH'', OP_DEPTH),
      (''OP_DROP'', OP_DROP), (''OP_DUP'', OP_DUP), (''OP_NIP'', OP_NIP), (''OP_OVER'', OP_OVER),
      (''OP_PICK'', OP_PICK), (''OP_ROLL'', OP_ROLL), (''OP_ROT'', OP_ROT), (''OP_SWAP'', OP_SWAP),
      (''OP_TUCK'', OP_TUCK), (''OP_CAT'', OP_CAT), (''OP_SUBSTR'', OP_SUBSTR), (''OP_LEFT'', OP_LEFT),
      (''OP_RIGHT'', OP_RIGHT), (''OP_SIZE'', OP_SIZE), (''OP_INVERT'', OP_INVERT), (''OP_AND'', OP_AND),
      (''OP_OR'', OP_OR), (''OP_XOR'', OP_XOR), (''OP_EQUAL'', OP_EQUAL), (''OP_EQUALVERIFY'', OP_EQUALVERIFY),
      (''OP_RESERVED1'', OP_RESERVED1), (''OP_RESERVED2'', OP_RESERVED2), (''OP_1ADD'', OP_1ADD),
      (''OP_1SUB'', OP_1SUB), (''OP_2MUL'', OP_2MUL), (''OP_2DIV'', OP_2DIV), (''OP_NEGATE'', OP_NEGATE),
      (''OP_ABS'', OP_ABS), (''OP_NOT'', OP_NOT), (''OP_0NOTEQUAL'', OP_0NOTEQUAL), (''OP_ADD'', OP_ADD),
      (''OP_SUB'', OP_SUB), (''OP_MUL'', OP_MUL), (''OP_DIV'', OP_DIV), (''OP_MOD'', OP_MOD),
      (''OP_LSHIFT'', OP_LSHIFT), (''OP_RSHIFT'', OP_RSHIFT), (''OP_BOOLAND'', OP_BOOLAND),
      (''OP_BOOLOR'', OP_BOOLOR), (''OP_NUMEQUAL'', OP_NUMEQUAL), (''OP_NUMEQUALVERIFY'', OP_NUMEQUALVERIFY),
      (''OP_NUMNOTEQUAL'', OP_NUMNOTEQUAL), (''OP_LESSTHAN'', OP_LESSTHAN), (''OP_GREATERTHAN'', OP_GREATERTHAN),
      (''OP_LESSTHANOREQUAL'', OP_LESSTHANOREQUAL), (''OP_GREATERTHANOREQUAL'', OP_GREATERTHANOREQUAL),
      (''OP_MIN'', OP_MIN), (''OP_MAX'', OP_MAX), (''OP_WITHIN'', OP_WITHIN), (''OP_RIPEMD160'', OP_RIPEMD160),
      (''OP_SHA1'', OP_SHA1), (''OP_SHA256'', OP_SHA256), (''OP_HASH160'', OP_HASH160), (''OP_HASH256'', OP_HASH256),
      (''OP_CODESEPARATOR'', OP_CODESEPARATOR), (''OP_CHECKSIG'', OP_CHECKSIG),
      (''OP_CHECKSIGVERIFY'', OP_CHECKSIGVERIFY), (''OP_CHECKMULTISIG'', OP_CHECKMULTISIG),
      (''OP_CHECKMULTISIGVERIFY'', OP_CHECKMULTISIGVERIFY), (''OP_NOP1'', OP_NOP1),
      (''OP_CHECKLOCKTIMEVERIFY'', OP_CHECKLOCKTIMEVERIFY), (''OP_NOP2'', OP_NOP2),
      (''OP_CHECKSEQUENCEVERIFY'', OP_CHECKSEQUENCEVERIFY), (''OP_NOP3'', OP_NOP3), (''OP_NOP4'', OP_NOP4),
      (''OP_NOP5'', OP_NOP5), (''OP_NOP6'', OP_NOP6), (''OP_NOP7'', OP_NOP7), (''OP_NOP8'', OP_NOP8),
      (''OP_NOP9'', OP_NOP9), (''OP_NOP10'', OP_NOP10), (''OP_SMALLINTEGER'', OP_SMALLINTEGER),
      (''OP_PUBKEYS'', OP_PUBKEYS), (''OP_PUBKEYHASH'', OP_PUBKEYHASH), (''OP_PUBKEY'', OP_PUBKEY),
      (''OP_INVALIDOPCODE'', OP_INVALIDOPCODE)]"

section \<open>Names\<close>

text \<open>The labels of the switch of \<open>GetOpName\<close>; every other opcode is \<open>OP_UNKNOWN\<close>.\<close>

definition op_names :: "(byte \<times> string) list" where
  "op_names =
     [(OP_0, ''0''), (OP_PUSHDATA1, ''OP_PUSHDATA1''), (OP_PUSHDATA2, ''OP_PUSHDATA2''),
      (OP_PUSHDATA4, ''OP_PUSHDATA4''), (OP_1NEGATE, ''-1''), (OP_RESERVED, ''OP_RESERVED''), (OP_1, ''1''),
      (OP_2, ''2''), (OP_3, ''3''), (OP_4, ''4''), (OP_5, ''5''), (OP_6, ''6''), (OP_7, ''7''),
      (OP_8, ''8''), (OP_9, ''9''), (OP_10, ''10''), (OP_11, ''11''), (OP_12, ''12''), (OP_13, ''13''),
      (OP_14, ''14''), (OP_15, ''15''), (OP_16, ''16''), (OP_NOP, ''OP_NOP''), (OP_VER, ''OP_VER''),
      (OP_IF, ''OP_IF''), (OP_NOTIF, ''OP_NOTIF''), (OP_VERIF, ''OP_VERIF''), (OP_VERNOTIF, ''OP_VERNOTIF''),
      (OP_ELSE, ''OP_ELSE''), (OP_ENDIF, ''OP_ENDIF''), (OP_VERIFY, ''OP_VERIFY''),
      (OP_RETURN, ''OP_RETURN''), (OP_TOALTSTACK, ''OP_TOALTSTACK''), (OP_FROMALTSTACK, ''OP_FROMALTSTACK''),
      (OP_2DROP, ''OP_2DROP''), (OP_2DUP, ''OP_2DUP''), (OP_3DUP, ''OP_3DUP''), (OP_2OVER, ''OP_2OVER''),
      (OP_2ROT, ''OP_2ROT''), (OP_2SWAP, ''OP_2SWAP''), (OP_IFDUP, ''OP_IFDUP''), (OP_DEPTH, ''OP_DEPTH''),
      (OP_DROP, ''OP_DROP''), (OP_DUP, ''OP_DUP''), (OP_NIP, ''OP_NIP''), (OP_OVER, ''OP_OVER''),
      (OP_PICK, ''OP_PICK''), (OP_ROLL, ''OP_ROLL''), (OP_ROT, ''OP_ROT''), (OP_SWAP, ''OP_SWAP''),
      (OP_TUCK, ''OP_TUCK''), (OP_CAT, ''OP_CAT''), (OP_SUBSTR, ''OP_SUBSTR''), (OP_LEFT, ''OP_LEFT''),
      (OP_RIGHT, ''OP_RIGHT''), (OP_SIZE, ''OP_SIZE''), (OP_INVERT, ''OP_INVERT''), (OP_AND, ''OP_AND''),
      (OP_OR, ''OP_OR''), (OP_XOR, ''OP_XOR''), (OP_EQUAL, ''OP_EQUAL''),
      (OP_EQUALVERIFY, ''OP_EQUALVERIFY''), (OP_RESERVED1, ''OP_RESERVED1''),
      (OP_RESERVED2, ''OP_RESERVED2''), (OP_1ADD, ''OP_1ADD''), (OP_1SUB, ''OP_1SUB''),
      (OP_2MUL, ''OP_2MUL''), (OP_2DIV, ''OP_2DIV''), (OP_NEGATE, ''OP_NEGATE''), (OP_ABS, ''OP_ABS''),
      (OP_NOT, ''OP_NOT''), (OP_0NOTEQUAL, ''OP_0NOTEQUAL''), (OP_ADD, ''OP_ADD''), (OP_SUB, ''OP_SUB''),
      (OP_MUL, ''OP_MUL''), (OP_DIV, ''OP_DIV''), (OP_MOD, ''OP_MOD''), (OP_LSHIFT, ''OP_LSHIFT''),
      (OP_RSHIFT, ''OP_RSHIFT''), (OP_BOOLAND, ''OP_BOOLAND''), (OP_BOOLOR, ''OP_BOOLOR''),
      (OP_NUMEQUAL, ''OP_NUMEQUAL''), (OP_NUMEQUALVERIFY, ''OP_NUMEQUALVERIFY''),
      (OP_NUMNOTEQUAL, ''OP_NUMNOTEQUAL''), (OP_LESSTHAN, ''OP_LESSTHAN''),
      (OP_GREATERTHAN, ''OP_GREATERTHAN''), (OP_LESSTHANOREQUAL, ''OP_LESSTHANOREQUAL''),
      (OP_GREATERTHANOREQUAL, ''OP_GREATERTHANOREQUAL''), (OP_MIN, ''OP_MIN''), (OP_MAX, ''OP_MAX''),
      (OP_WITHIN, ''OP_WITHIN''), (OP_RIPEMD160, ''OP_RIPEMD160''), (OP_SHA1, ''OP_SHA1''),
      (OP_SHA256, ''OP_SHA256''), (OP_HASH160, ''OP_HASH160''), (OP_HASH256, ''OP_HASH256''),
      (OP_CODESEPARATOR, ''OP_CODESEPARATOR''), (OP_CHECKSIG, ''OP_CHECKSIG''),
      (OP_CHECKSIGVERIFY, ''OP_CHECKSIGVERIFY''), (OP_CHECKMULTISIG, ''OP_CHECKMULTISIG''),
      (OP_CHECKMULTISIGVERIFY, ''OP_CHECKMULTISIGVERIFY''), (OP_NOP1, ''OP_NOP1''),
      (OP_CHECKLOCKTIMEVERIFY, ''OP_CHECKLOCKTIMEVERIFY''),
      (OP_CHECKSEQUENCEVERIFY, ''OP_CHECKSEQUENCEVERIFY''), (OP_NOP4, ''OP_NOP4''), (OP_NOP5, ''OP_NOP5''),
      (OP_NOP6, ''OP_NOP6''), (OP_NOP7, ''OP_NOP7''), (OP_NOP8, ''OP_NOP8''), (OP_NOP9, ''OP_NOP9''),
      (OP_NOP10, ''OP_NOP10''), (OP_INVALIDOPCODE, ''OP_INVALIDOPCODE'')]"

definition GetOpName :: "byte \<Rightarrow> string" where
  "GetOpName opcode = (case map_of op_names opcode of Some s \<Rightarrow> s | None \<Rightarrow> ''OP_UNKNOWN'')"

end
