(* ===== verification/Script.thy ===== *)
theory Script
  imports Opcodes Endian
begin

text \<open>
  Scripts as byte strings, after \<^verbatim>\<open>src/script/script.h\<close> and \<^verbatim>\<open>src/script/script.cpp\<close>: script numbers, pushing
  data and numbers, reading operations, deleting a sub-script, counting signature operations.
  An iterator \<open>pc\<close> into a script is the list of the bytes from it to the end.
\<close>

section \<open>Limits\<close>

abbreviation (input) MAX_SCRIPT_ELEMENT_SIZE :: nat where "MAX_SCRIPT_ELEMENT_SIZE \<equiv> 520"
abbreviation (input) MAX_OPS_PER_SCRIPT :: nat where "MAX_OPS_PER_SCRIPT \<equiv> 201"
abbreviation (input) MAX_PUBKEYS_PER_MULTISIG :: nat where "MAX_PUBKEYS_PER_MULTISIG \<equiv> 20"
abbreviation (input) MAX_SCRIPT_SIZE :: nat where "MAX_SCRIPT_SIZE \<equiv> 10000"
abbreviation (input) LOCKTIME_THRESHOLD :: nat where "LOCKTIME_THRESHOLD \<equiv> 500000000"

section \<open>Script numbers\<close>

text \<open>
  \<open>m_value\<close> is an \<open>int64_t\<close>; the model is an integer, and the places where the code could leave
  the 64-bit range are guarded by its assertions. Encodings are little-endian with a sign bit in
  the last byte.
\<close>

datatype scriptnum_error = ScriptNumOverflow | NonMinimalScriptNum

fun abs_bytes :: "nat \<Rightarrow> bytes" where
  "abs_bytes absvalue = (if absvalue = 0 then [] else of_nat (absvalue mod 256) # abs_bytes (absvalue div 256))"

declare abs_bytes.simps [simp del]

definition CScriptNum_serialize :: "int \<Rightarrow> bytes" where
  "CScriptNum_serialize value =
     (if value = 0 then []
      else
        let neg = value < 0;
            result = abs_bytes (nat \<bar>value\<bar>)
        in if last result AND 0x80 \<noteq> 0 then result @ [if neg then 0x80 else 0]
           else if neg then butlast result @ [last result OR 0x80]
           else result)"

definition CScriptNum_set_vch :: "bytes \<Rightarrow> int" where
  "CScriptNum_set_vch vch =
     (if vch = [] then 0
      else
        let result = foldl (\<lambda>result i. result OR push_bit (8 * i) (uint (vch ! i))) 0 [0..<length vch]
        in if last vch AND 0x80 \<noteq> 0
           then - (result AND NOT (push_bit (8 * (length vch - 1)) 0x80))
           else result)"

text \<open>The test of the constructor with \<open>fRequireMinimal\<close>.\<close>

definition scriptnum_minimal :: "bytes \<Rightarrow> bool" where
  "scriptnum_minimal vch \<longleftrightarrow>
     (length vch > 0 \<longrightarrow> last vch AND 0x7f = 0 \<longrightarrow>
        \<not> (length vch \<le> 1 \<or> vch ! (length vch - 2) AND 0x80 = 0))"

definition CScriptNum :: "bytes \<Rightarrow> bool \<Rightarrow> nat \<Rightarrow> scriptnum_error + int" where
  "CScriptNum vch fRequireMinimal nMaxNumSize =
     (if length vch > nMaxNumSize then Inl ScriptNumOverflow
      else if fRequireMinimal \<and> \<not> scriptnum_minimal vch then Inl NonMinimalScriptNum
      else Inr (CScriptNum_set_vch vch))"

definition CScriptNum_getint :: "int \<Rightarrow> int" where
  "CScriptNum_getint m_value =
     (if m_value > 2147483647 then 2147483647
      else if m_value < - 2147483648 then - 2147483648
      else m_value)"

section \<open>Building scripts\<close>

type_synonym CScript = bytes

definition push_opcode :: "CScript \<Rightarrow> byte \<Rightarrow> CScript" where
  "push_opcode s opcode = s @ [opcode]"

definition push_data :: "CScript \<Rightarrow> bytes \<Rightarrow> CScript" where
  "push_data s b =
     (if length b < unat OP_PUSHDATA1 then s @ [of_nat (length b)]
      else if length b \<le> 0xff then s @ [OP_PUSHDATA1] @ [of_nat (length b)]
      else if length b \<le> 0xffff then s @ [OP_PUSHDATA2] @ WriteLE16 (of_nat (length b))
      else s @ [OP_PUSHDATA4] @ WriteLE32 (of_nat (length b))) @ b"

definition push_int64 :: "CScript \<Rightarrow> int \<Rightarrow> CScript" where
  "push_int64 s n =
     (if n = - 1 \<or> n \<ge> 1 \<and> n \<le> 16 then s @ [of_int (n + (uint OP_1 - 1))]
      else if n = 0 then s @ [OP_0]
      else push_data s (CScriptNum_serialize n))"

section \<open>Reading scripts\<close>

text \<open>
  \<open>GetOp2\<close> returns whether an operation was read, the opcode, the pushed data and the moved
  iterator; a failed read reports \<open>OP_INVALIDOPCODE\<close> and leaves the iterator where it stopped.
\<close>

definition getop_data :: "byte \<Rightarrow> nat \<Rightarrow> bytes \<Rightarrow> bool \<times> byte \<times> bytes \<times> bytes" where
  "getop_data opcode nSize pc =
     (if length pc < nSize then (False, OP_INVALIDOPCODE, [], pc)
      else (True, opcode, take nSize pc, drop nSize pc))"

definition GetOp2 :: "bytes \<Rightarrow> bool \<times> byte \<times> bytes \<times> bytes" where
  "GetOp2 pc =
     (case pc of
        [] \<Rightarrow> (False, OP_INVALIDOPCODE, [], pc)
      | opcode # pc \<Rightarrow>
          if opcode \<le> OP_PUSHDATA4 then
            if opcode < OP_PUSHDATA1 then getop_data opcode (unat opcode) pc
            else if opcode = OP_PUSHDATA1 then
              (if length pc < 1 then (False, OP_INVALIDOPCODE, [], pc)
               else getop_data opcode (unat (hd pc)) (tl pc))
            else if opcode = OP_PUSHDATA2 then
              (if length pc < 2 then (False, OP_INVALIDOPCODE, [], pc)
               else getop_data opcode (unat (ReadLE16 pc)) (drop 2 pc))
            else
              (if length pc < 4 then (False, OP_INVALIDOPCODE, [], pc)
               else getop_data opcode (unat (ReadLE32 pc)) (drop 4 pc))
          else (True, opcode, [], pc))"

lemma getop_data_shorter: "getop_data opcode n pc = (True, r) \<Longrightarrow> length (snd (snd r)) \<le> length pc"
  by (auto simp: getop_data_def split: if_splits)

lemma GetOp2_shorter:
  assumes "GetOp2 pc = (True, opcode, vch, pc')"
  shows "length pc' < length pc"
proof (cases pc)
  case Nil
  then show ?thesis using assms by (simp add: GetOp2_def)
next
  case (Cons b s)
  have "length pc' \<le> length s"
    using assms Cons getop_data_shorter [of b _ _ "(opcode, vch, pc')"]
    by (fastforce simp: GetOp2_def split: if_splits)
  then show ?thesis using Cons by simp
qed

text \<open>Small integers: \<open>None\<close> is a failed assertion.\<close>

definition DecodeOP_N :: "byte \<Rightarrow> nat option" where
  "DecodeOP_N opcode =
     (if opcode = OP_0 then Some 0
      else if opcode \<ge> OP_1 \<and> opcode \<le> OP_16 then Some (unat opcode - (unat OP_1 - 1))
      else None)"

definition EncodeOP_N :: "nat \<Rightarrow> byte option" where
  "EncodeOP_N n =
     (if n \<le> 16 then Some (if n = 0 then OP_0 else of_nat (unat OP_1 + n - 1)) else None)"

section \<open>Deleting a sub-script\<close>

text \<open>
  The inner loop of \<open>FindAndDelete\<close> skips the occurrences of \<open>b\<close> at \<open>pc\<close>; the outer one copies the
  operations between them. \<open>result\<close> collects what is kept.
\<close>

function skip_matches :: "bytes \<Rightarrow> bytes \<Rightarrow> nat \<Rightarrow> bytes \<times> nat" where
  "skip_matches b pc nFound =
     (if b \<noteq> [] \<and> length b \<le> length pc \<and> take (length b) pc = b
      then skip_matches b (drop (length b) pc) (nFound + 1)
      else (pc, nFound))"
  by pat_completeness auto
termination by (relation "measure (\<lambda>(b, pc, n). length pc)") (auto intro!: diff_less intro: Nat.gr0I)

declare skip_matches.simps [simp del]

lemma skip_matches_shorter: "skip_matches b pc n = (pc', n') \<Longrightarrow> length pc' \<le> length pc"
proof (induction b pc n rule: skip_matches.induct)
  case (1 b pc n)
  then show ?case
    by (subst (asm) (2) skip_matches.simps) (auto split: if_splits)
qed

function FindAndDelete_loop :: "bytes \<Rightarrow> bytes \<Rightarrow> bytes \<Rightarrow> nat \<Rightarrow> bytes \<times> bytes \<times> nat" where
  "FindAndDelete_loop b result pc nFound =
     (case skip_matches b pc nFound of (pc2, nFound) \<Rightarrow>
        case GetOp2 pc2 of (ok, opcode, vch, pc3) \<Rightarrow>
          if ok then FindAndDelete_loop b (result @ take (length pc2 - length pc3) pc2) pc3 nFound
          else (result, pc2, nFound))"
  by pat_completeness auto
termination
  by (relation "measure (\<lambda>(b, result, pc, n). length pc)")
    (auto dest!: GetOp2_shorter [OF sym] skip_matches_shorter [OF sym])

declare FindAndDelete_loop.simps [simp del]

definition FindAndDelete :: "CScript \<Rightarrow> CScript \<Rightarrow> nat \<times> CScript" where
  "FindAndDelete s b =
     (if b = [] then (0, s)
      else case FindAndDelete_loop b [] s 0 of (result, pc2, nFound) \<Rightarrow>
        (nFound, if nFound > 0 then result @ pc2 else s))"

function Find_loop :: "byte \<Rightarrow> bytes \<Rightarrow> nat \<Rightarrow> nat" where
  "Find_loop op pc nFound =
     (case GetOp2 pc of (ok, opcode, vch, pc') \<Rightarrow>
        if ok then Find_loop op pc' (if opcode = op then nFound + 1 else nFound) else nFound)"
  by pat_completeness auto
termination by (relation "measure (\<lambda>(op, pc, n). length pc)") (auto dest!: GetOp2_shorter [OF sym])

declare Find_loop.simps [simp del]

definition Find :: "CScript \<Rightarrow> byte \<Rightarrow> nat" where
  "Find s op = Find_loop op s 0"

section \<open>Counting and classifying\<close>

function GetSigOpCount_loop :: "bool \<Rightarrow> byte \<Rightarrow> bytes \<Rightarrow> nat \<Rightarrow> nat" where
  "GetSigOpCount_loop fAccurate lastOpcode pc n =
     (if pc = [] then n
      else case GetOp2 pc of (ok, opcode, vch, pc') \<Rightarrow>
        if \<not> ok then n
        else GetSigOpCount_loop fAccurate opcode pc'
          (if opcode = OP_CHECKSIG \<or> opcode = OP_CHECKSIGVERIFY then n + 1
           else if opcode = OP_CHECKMULTISIG \<or> opcode = OP_CHECKMULTISIGVERIFY then
             (if fAccurate \<and> lastOpcode \<ge> OP_1 \<and> lastOpcode \<le> OP_16
              then n + the (DecodeOP_N lastOpcode) else n + MAX_PUBKEYS_PER_MULTISIG)
           else n))"
  by pat_completeness auto
termination by (relation "measure (\<lambda>(a, l, pc, n). length pc)") (auto dest!: GetOp2_shorter [OF sym])

declare GetSigOpCount_loop.simps [simp del]

definition GetSigOpCount :: "bool \<Rightarrow> CScript \<Rightarrow> nat" where
  "GetSigOpCount fAccurate s = GetSigOpCount_loop fAccurate OP_INVALIDOPCODE s 0"

function IsPushOnly :: "bytes \<Rightarrow> bool" where
  "IsPushOnly pc =
     (if pc = [] then True
      else case GetOp2 pc of (ok, opcode, vch, pc') \<Rightarrow>
        if \<not> ok then False else if opcode > OP_16 then False else IsPushOnly pc')"
  by pat_completeness auto
termination by (relation "measure length") (auto dest!: GetOp2_shorter [OF sym])

declare IsPushOnly.simps [simp del]

definition IsUnspendable :: "CScript \<Rightarrow> bool" where
  "IsUnspendable s \<longleftrightarrow> length s > 0 \<and> s ! 0 = OP_RETURN \<or> length s > MAX_SCRIPT_SIZE"

section \<open>Script numbers are decoded\<close>

lemma le_val_abs_bytes [simp]: "le_val (abs_bytes n) = n"
proof (induction n rule: abs_bytes.induct)
  case (1 n)
  then show ?case
    by (subst abs_bytes.simps) (simp add: unat_of_nat)
qed

lemma abs_bytes_Nil_iff [simp]: "abs_bytes n = [] \<longleftrightarrow> n = 0"
  by (subst abs_bytes.simps) simp

lemma last_abs_bytes: "n \<noteq> 0 \<Longrightarrow> last (abs_bytes n) \<noteq> 0"
proof (induction n rule: abs_bytes.induct)
  case (1 n)
  show ?case
  proof (cases "n div 256 = 0")
    case True
    then have "n mod 256 = n" by simp
    moreover have "(of_nat n :: byte) \<noteq> 0" if "n < 256" "0 < n" for n
      using that by (simp add: word_unat_eq_iff unat_of_nat)
    ultimately show ?thesis
      using 1(2) True by (subst abs_bytes.simps) simp
  next
    case False
    then show ?thesis
      using 1 by (subst abs_bytes.simps) simp
  qed
qed

lemma abs_bytes_le_val:
  assumes "vch \<noteq> [] \<Longrightarrow> last vch \<noteq> 0"
  shows "abs_bytes (le_val vch) = vch"
  using assms
proof (induction vch)
  case Nil
  then show ?case by (simp add: abs_bytes.simps)
next
  case (Cons b bs)
  have bs: "abs_bytes (le_val bs) = bs"
    using Cons by (cases bs) auto
  have "le_val bs \<noteq> 0" if "bs \<noteq> []" using that bs abs_bytes_Nil_iff [of "le_val bs"] by simp
  then have "le_val (b # bs) \<noteq> 0"
    using Cons.prems by (cases "bs = []") (auto simp: unat_gt_0)
  then show ?case
    using bs by (subst abs_bytes.simps) (simp add: div_mult_self1)
qed

text \<open>Bits of a byte that the code tests.\<close>

lemma byte_and_80: "b AND 0x80 = 0 \<longleftrightarrow> unat (b :: byte) < 128"
proof -
  have "b AND 0x80 \<noteq> 0 \<longleftrightarrow> bit b 7"
    using and_exp_eq_0_iff_not_bit [of b 7] by simp
  also have "\<dots> \<longleftrightarrow> bit (unat b) 7" by (simp add: bit_unsigned_iff)
  also have "\<dots> \<longleftrightarrow> odd (unat b div 128)" by (simp add: bit_iff_odd)
  also have "\<dots> \<longleftrightarrow> 128 \<le> unat b"
  proof -
    have "unat b div 128 = (if 128 \<le> unat b then 1 else 0)"
      using unat_byte_less [of b] by (auto intro: div_nat_eqI)
    then show ?thesis by simp
  qed
  finally show ?thesis by auto
qed

lemma byte_and_7f: "b AND 0x7f = 0 \<longleftrightarrow> unat (b :: byte) mod 128 = 0"
proof -
  have "b AND 0x7f = take_bit 7 b" by (simp add: take_bit_eq_mask mask_eq_exp_minus_1)
  then have "b AND 0x7f = 0 \<longleftrightarrow> unat (take_bit 7 b) = 0" by (simp only: unat_eq_0)
  also have "unat (take_bit 7 b) = take_bit 7 (unat b)" by (rule unsigned_take_bit_eq)
  also have "\<dots> = unat b mod 128" by (simp add: take_bit_eq_mod)
  finally show ?thesis .
qed

lemma or_80:
  assumes "unat (b :: byte) < 128"
  shows "b OR 0x80 = b + 0x80" and "unat (b OR 0x80) = unat b + 128"
proof -
  have "b AND 0x80 = 0" using byte_and_80 [of b] assms by auto
  then show *: "b OR 0x80 = b + 0x80" by (simp add: disjunctive_add_eq_or)
  show "unat (b OR 0x80) = unat b + 128" unfolding * using assms by (simp add: unat_word_ariths)
qed

text \<open>The number an encoding stands for, by its magnitude and its sign bit.\<close>

lemma or_push_bit:
  fixes a b :: int
  assumes "0 \<le> a" and "a < 2 ^ m"
  shows "a OR push_bit m b = a + b * 2 ^ m"
proof -
  have "take_bit m a = a" using assms by (simp add: take_bit_int_eq_self)
  then show ?thesis using concat_bit_eq [of m a b] by (simp add: concat_bit_def push_bit_eq_mult)
qed

lemma set_vch_fold:
  "k \<le> length vch \<Longrightarrow>
   foldl (\<lambda>result i. result OR push_bit (8 * i) (uint (vch ! i))) 0 [0..<k] = int (le_val (take k vch))"
proof (induction k)
  case 0
  then show ?case by simp
next
  case (Suc k)
  have t: "take (Suc k) vch = take k vch @ [vch ! k]" using Suc by (simp add: take_Suc_conv_app_nth)
  have "le_val (take k vch) < 256 ^ k" using le_val_less [of "take k vch"] Suc by simp
  then have "int (le_val (take k vch)) < int (256 ^ k)" by (rule of_nat_less_iff [THEN iffD2])
  also have "int (256 ^ k) = 2 ^ (8 * k)" by (simp add: power_mult)
  finally have "int (le_val (take k vch)) OR push_bit (8 * k) (uint (vch ! k))
    = int (le_val (take k vch)) + uint (vch ! k) * 2 ^ (8 * k)"
    by (intro or_push_bit) auto
  then show ?case
    using Suc t by (simp add: le_val_append power_mult)
qed

lemma set_vch_eq:
  "CScriptNum_set_vch (bs @ [l]) =
     (if unat l < 128 then int (le_val bs + 256 ^ length bs * unat l)
      else - int (le_val bs + 256 ^ length bs * (unat l - 128)))"
proof -
  let ?n = "length bs"
  have f: "foldl (\<lambda>result i. result OR push_bit (8 * i) (uint ((bs @ [l]) ! i))) 0 [0..<length (bs @ [l])]
    = int (le_val bs + 256 ^ ?n * unat l)"
    using set_vch_fold [of "length (bs @ [l])" "bs @ [l]"] by (simp only: le_refl take_all) (simp add: le_val_append)
  have p: "push_bit (8 * ?n) (0x80 :: int) = push_bit (8 * ?n + 7) 1"
    by (simp add: push_bit_eq_mult power_add)
  let ?v = "int (le_val bs + 256 ^ ?n * unat l)"
  have "?v AND NOT (push_bit (8 * ?n) 0x80) = int (le_val bs + 256 ^ ?n * (unat l - 128))" if l: "128 \<le> unat l"
  proof -
    define P where "P = (256 :: nat) ^ ?n"
    have P: "2 ^ (8 * ?n + 7) = 128 * P" by (simp add: P_def power_add power_mult)
    have "P * 128 \<le> P * unat l" and "P * unat l \<le> P * 255"
      using l unat_byte_less [of l] by (intro mult_le_mono2; linarith)+
    moreover have "le_val bs < P" using le_val_less [of bs] by (simp add: P_def)
    ultimately have "128 * P \<le> le_val bs + P * unat l" "le_val bs + P * unat l < 2 * (128 * P)"
      by linarith+
    then have "(le_val bs + P * unat l) div (128 * P) = 1"
      by (intro div_nat_eqI) (simp_all only: mult_1 Suc_1 mult_1_right mult.commute)
    then have "bit (le_val bs + P * unat l) (8 * ?n + 7)" by (simp add: bit_iff_odd P)
    then have b: "bit ?v (8 * ?n + 7)" by (simp only: P_def bit_of_nat_iff_bit)
    have "?v AND NOT (push_bit (8 * ?n) 0x80) = ?v - 2 ^ (8 * ?n + 7)"
      unfolding p unset_bit_eq_and_not [symmetric] by (simp only: unset_bit_eq b) simp
    also have "\<dots> = int (le_val bs + 256 ^ ?n * unat l) - int (256 ^ ?n * 128)"
      by (simp add: power_add power_mult)
    also have "\<dots> = int (le_val bs + 256 ^ ?n * (unat l - 128))"
      using l by (simp add: right_diff_distrib of_nat_diff)
    finally show ?thesis .
  qed
  then show ?thesis
    using f by (auto simp: CScriptNum_set_vch_def byte_and_80 Let_def not_less)
qed

lemma mod_128_high:
  fixes u :: nat
  assumes "\<not> u < 128" and "u < 256"
  shows "u mod 128 + 128 = u"
proof -
  have "u = (u - 128) + 128" "u - 128 < 128" using assms by simp_all
  then show ?thesis by (metis mod_add_self2 mod_less)
qed

lemma abs_set_vch:
  "\<bar>CScriptNum_set_vch (bs @ [l])\<bar> = int (le_val bs + 256 ^ length bs * (unat l mod 128))"
proof (cases "unat l < 128")
  case True
  then show ?thesis by (simp only: set_vch_eq if_True abs_of_nat mod_less)
next
  case False
  then have "unat l - 128 = unat l mod 128"
    using mod_128_high [of "unat l"] unat_byte_less [of l] by linarith
  then show ?thesis using False by (simp only: set_vch_eq if_False abs_minus_cancel abs_of_nat)
qed

lemma set_vch_Nil [simp]: "CScriptNum_set_vch [] = 0"
  by (simp add: CScriptNum_set_vch_def)

lemma serialize_shape:
  assumes "abs_bytes (nat \<bar>n\<bar>) = bs @ [l]"
  shows "CScriptNum_serialize n =
    (if 128 \<le> unat l then bs @ [l] @ [if n < 0 then 0x80 else 0] else if n < 0 then bs @ [l OR 0x80] else bs @ [l])"
proof -
  have "n \<noteq> 0" using assms by (auto simp: abs_bytes.simps)
  then show ?thesis
    by (simp add: CScriptNum_serialize_def assms byte_and_80 Let_def not_less)
qed

lemma abs_bytes_snoc:
  assumes "n \<noteq> 0"
  obtains bs l where "abs_bytes (nat \<bar>n\<bar>) = bs @ [l]" and "0 < unat l"
    and "int (le_val bs + 256 ^ length bs * unat l) = \<bar>n\<bar>"
proof -
  let ?r = "abs_bytes (nat \<bar>n\<bar>)"
  have "?r \<noteq> []" "last ?r \<noteq> 0" using assms last_abs_bytes [of "nat \<bar>n\<bar>"] by simp_all
  then have r: "?r = butlast ?r @ [last ?r]" "0 < unat (last ?r)" by (simp_all add: unat_gt_0)
  moreover have "int (le_val ?r) = \<bar>n\<bar>" by simp
  then have "int (le_val (butlast ?r) + 256 ^ length (butlast ?r) * unat (last ?r)) = \<bar>n\<bar>"
    by (subst (asm) r(1)) (simp only: le_val_append le_val.simps mult_0_right add_0_right)
  ultimately show ?thesis using that by blast
qed

lemma set_vch_serialize: "CScriptNum_set_vch (CScriptNum_serialize n) = n"
proof (cases "n = 0")
  case True
  then show ?thesis by (simp add: CScriptNum_serialize_def)
next
  case False
  obtain bs l where r: "abs_bytes (nat \<bar>n\<bar>) = bs @ [l]"
    and v: "int (le_val bs + 256 ^ length bs * unat l) = \<bar>n\<bar>"
    using abs_bytes_snoc [OF False] by metis
  show ?thesis
  proof (cases "128 \<le> unat l")
    case True
    then show ?thesis
      using v set_vch_eq [of "bs @ [l]"] by (simp add: serialize_shape [OF r] le_val_append)
  next
    case False
    then show ?thesis
      using v set_vch_eq [of bs] or_80 [of l] by (simp add: serialize_shape [OF r])
  qed
qed

lemma serialize_minimal: "scriptnum_minimal (CScriptNum_serialize n)"
proof (cases "n = 0")
  case True
  then show ?thesis by (simp add: CScriptNum_serialize_def scriptnum_minimal_def)
next
  case False
  obtain bs l where r: "abs_bytes (nat \<bar>n\<bar>) = bs @ [l]" and l: "0 < unat l"
    using abs_bytes_snoc [OF False] by metis
  show ?thesis
  proof (cases "128 \<le> unat l")
    case True
    then show ?thesis by (simp add: serialize_shape [OF r] scriptnum_minimal_def nth_append byte_and_80)
  next
    case False
    then have "unat (l OR 0x80) mod 128 \<noteq> 0" "unat l mod 128 \<noteq> 0" using or_80 [of l] l by simp_all
    then show ?thesis using False by (simp add: serialize_shape [OF r] scriptnum_minimal_def byte_and_7f)
  qed
qed

text \<open>A minimal encoding is determined by its number.\<close>

lemma serialize_magnitude:
  assumes "xs \<noteq> []" and "last xs \<noteq> 0" and "\<bar>n\<bar> = int (le_val xs)"
  shows "abs_bytes (nat \<bar>n\<bar>) = butlast xs @ [last xs]"
  using assms abs_bytes_le_val [of xs] by simp

lemma serialize_set_vch:
  assumes "scriptnum_minimal vch"
  shows "CScriptNum_serialize (CScriptNum_set_vch vch) = vch"
proof (cases "vch = []")
  case True
  then show ?thesis by (simp add: CScriptNum_serialize_def)
next
  case False
  then obtain bs l where vch: "vch = bs @ [l]" by (metis append_butlast_last_id)
  define n where "n = CScriptNum_set_vch vch"
  define k where "k = unat l mod 128"
  have ge: "unat l = k + 128" if "\<not> unat l < 128"
    using mod_128_high [OF that] unat_byte_less [of l] by (simp add: k_def)
  have lt: "unat l = k" if "unat l < 128" using that by (simp add: k_def)
  have k: "k < 128" by (simp add: k_def)
  have n: "n = (if unat l < 128 then 1 else -1) * int (le_val bs + 256 ^ length bs * k)"
    using lt ge by (cases "unat l < 128") (simp_all add: n_def vch set_vch_eq)
  show ?thesis
  proof (cases "k = 0")
    case True
    then have bs: "bs \<noteq> []" "128 \<le> unat (last bs)"
      using assms by (auto simp: vch scriptnum_minimal_def byte_and_7f byte_and_80 k_def nth_append last_conv_nth not_less)
    then have "last bs \<noteq> 0" by auto
    moreover have "\<bar>n\<bar> = int (le_val bs)" using n True by simp
    ultimately have s: "abs_bytes (nat \<bar>n\<bar>) = butlast bs @ [last bs]"
      using serialize_magnitude bs(1) by blast
    have "nat \<bar>n\<bar> \<noteq> 0" using s abs_bytes_Nil_iff [of "nat \<bar>n\<bar>"] by simp
    then have "le_val bs \<noteq> 0" using \<open>\<bar>n\<bar> = int (le_val bs)\<close> by simp
    then have neg: "n < 0 \<longleftrightarrow> 128 \<le> unat l" using n True by auto
    have "(if 128 \<le> unat l then 0x80 else 0) = l"
      using lt ge True by (cases "unat l < 128") (simp_all add: word_unat_eq_iff)
    then show ?thesis
      using bs neg by (simp add: serialize_shape [OF s] flip: n_def) (simp add: vch)
  next
    case False
    let ?c = "of_nat k :: byte"
    have c: "unat ?c = k" using k by (simp add: unat_of_nat)
    have "\<bar>n\<bar> = int (le_val (bs @ [?c]))"
      unfolding n_def vch abs_set_vch using c by (simp add: le_val_append flip: k_def)
    moreover have "?c \<noteq> 0" using c False by auto
    ultimately have s: "abs_bytes (nat \<bar>n\<bar>) = bs @ [?c]"
      using serialize_magnitude [of "bs @ [?c]" n] by simp
    have "0 < int (le_val bs + 256 ^ length bs * k)" using False by (simp only: of_nat_0_less_iff) simp
    then have neg: "n < 0 \<longleftrightarrow> 128 \<le> unat l"
      unfolding n by (cases "unat l < 128") (simp_all only: if_True if_False mult_1 mult_minus1 neg_less_0_iff_less not_less, simp_all)
    have "(if 128 \<le> unat l then ?c OR 0x80 else ?c) = l"
      using lt ge c k or_80 [of ?c] by (cases "unat l < 128") (simp_all add: word_unat_eq_iff)
    then show ?thesis
      unfolding n_def [symmetric]
      using neg k c by (cases "128 \<le> unat l") (simp_all add: serialize_shape [OF s], simp_all add: vch)
  qed
qed

lemma CScriptNum_minimal_iff:
  "CScriptNum vch True nMax = Inr n \<longleftrightarrow> length vch \<le> nMax \<and> vch = CScriptNum_serialize n"
  using serialize_set_vch [of vch] serialize_minimal [of n] set_vch_serialize [of n]
  by (auto simp: CScriptNum_def)

text \<open>Numbers of at most \<open>k\<close> bytes, as the numeric opcodes accept them, are below \<open>2 ^ (8 k - 1)\<close>.\<close>

lemma set_vch_bound:
  assumes "length vch \<le> k" and "0 < k"
  shows "\<bar>CScriptNum_set_vch vch\<bar> < 2 ^ (8 * k - 1)"
proof (cases "vch = []")
  case False
  then obtain bs l where vch: "vch = bs @ [l]" by (metis append_butlast_last_id)
  define P where "P = (256 :: nat) ^ length bs"
  define m where "m = unat l mod 128"
  have m: "\<bar>CScriptNum_set_vch vch\<bar> = int (le_val bs + P * m)" "m \<le> 127"
    using mod_less_divisor [of 128 "unat l"] by (simp_all only: vch abs_set_vch P_def m_def)
  have "le_val bs < P" using le_val_less [of bs] by (simp add: P_def)
  moreover have "P * m \<le> P * 127" using m(2) by (rule mult_le_mono2)
  ultimately have "le_val bs + P * m < 128 * P" by linarith
  also have "128 * P = 2 ^ (8 * length bs + 7)" by (simp add: P_def power_add power_mult)
  also have "\<dots> \<le> 2 ^ (8 * k - 1)" using assms(1) vch by (intro power_increasing) auto
  finally have "int (le_val bs + P * m) < int (2 ^ (8 * k - 1))" by (rule of_nat_less_iff [THEN iffD2])
  then show ?thesis using m(1) by simp
qed simp

section \<open>Operations read back\<close>

lemma getop_data_append [simp]: "length b = n \<Longrightarrow> getop_data opcode n (b @ r) = (True, opcode, b, r)"
  by (simp add: getop_data_def)

lemma push_data_append: "push_data s b = s @ push_data [] b"
  by (simp add: push_data_def)

lemma GetOp2_simple: "OP_PUSHDATA4 < opcode \<Longrightarrow> GetOp2 (opcode # r) = (True, opcode, [], r)"
  by (simp add: GetOp2_def not_less [symmetric])

lemma GetOp2_Nil [simp]: "GetOp2 [] = (False, OP_INVALIDOPCODE, [], [])"
  by (simp add: GetOp2_def)

text \<open>The opcode with which \<open>operator<<\<close> pushes a vector of a given size.\<close>

definition push_op :: "nat \<Rightarrow> byte" where
  "push_op n = (if n < 0x4c then of_nat n else if n \<le> 0xff then OP_PUSHDATA1
     else if n \<le> 0xffff then OP_PUSHDATA2 else OP_PUSHDATA4)"

lemma push_op_le: "push_op n \<le> OP_PUSHDATA4"
  by (simp add: push_op_def word_le_nat_alt unat_of_nat)

lemma GetOp2_push_data:
  assumes "length b < 2 ^ 32"
  shows "GetOp2 (push_data [] b @ r) = (True, push_op (length b), b, r)"
proof -
  consider (1) "length b < 0x4c" | (2) "0x4c \<le> length b" "length b \<le> 0xff"
    | (3) "0xff < length b" "length b \<le> 0xffff" | (4) "0xffff < length b" by linarith
  then show ?thesis
  proof cases
    case 1
    then have u: "unat (of_nat (length b) :: byte) = length b" by (simp add: unat_of_nat)
    then have "(of_nat (length b) :: byte) < 0x4c" "(of_nat (length b) :: byte) \<le> 0x4e"
      using 1 by (simp_all add: word_less_nat_alt word_le_nat_alt)
    with 1 u show ?thesis by (simp add: push_data_def GetOp2_def push_op_def)
  next
    case 2
    then have "unat (of_nat (length b) :: byte) = length b" by (simp add: unat_of_nat)
    with 2 show ?thesis by (simp add: push_data_def GetOp2_def push_op_def)
  next
    case 3
    then have "unat (of_nat (length b) :: u16) = length b" by (simp add: unat_of_nat)
    with 3 show ?thesis by (simp add: push_data_def GetOp2_def push_op_def)
  next
    case 4
    then have "unat (of_nat (length b) :: u32) = length b" using assms by (simp add: unat_of_nat)
    with 4 show ?thesis by (simp add: push_data_def GetOp2_def push_op_def)
  qed
qed

lemma push_data_not_Nil [simp]: "push_data s b \<noteq> []"
  by (simp add: push_data_def)

lemma EncodeOP_N_DecodeOP_N: "n \<le> 16 \<Longrightarrow> \<exists>c. EncodeOP_N n = Some c \<and> DecodeOP_N c = Some n"
proof (cases "n = 0")
  case False
  assume "n \<le> 16"
  moreover from this have "unat (of_nat (80 + n) :: byte) = 80 + n" by (simp add: unat_of_nat del: of_nat_add)
  ultimately show ?thesis
    using False by (intro exI [of _ "of_nat (80 + n)"])
      (simp add: EncodeOP_N_def DecodeOP_N_def word_le_nat_alt word_unat_eq_iff del: of_nat_add)
qed (simp add: EncodeOP_N_def DecodeOP_N_def)

text \<open>Scripts made only of pushed vectors are push-only.\<close>

lemma IsPushOnly_pushes:
  "list_all (\<lambda>b. length b < 2 ^ 32) bs \<Longrightarrow> IsPushOnly (concat (map (push_data []) bs))"
proof (induction bs)
  case Nil
  then show ?case by (simp add: IsPushOnly.simps)
next
  case (Cons b bs)
  have "\<not> OP_16 < push_op (length b)"
    using push_op_le [of "length b"] by (simp add: not_less word_le_nat_alt)
  then show ?case
    using Cons by (subst IsPushOnly.simps) (simp add: GetOp2_push_data)
qed

section \<open>Deleting a sub-script leaves none behind\<close>

lemma skip_matches_spec:
  assumes "b \<noteq> []" and "skip_matches b pc n = (pc', n')"
  shows "\<exists>k. n' = n + k \<and> pc = concat (replicate k b) @ pc' \<and> \<not> (length b \<le> length pc' \<and> take (length b) pc' = b)"
  using assms
proof (induction b pc n rule: skip_matches.induct)
  case (1 b pc n)
  show ?case
  proof (cases "length b \<le> length pc \<and> take (length b) pc = b")
    case True
    then have "skip_matches b (drop (length b) pc) (n + 1) = (pc', n')"
      using 1(2,3) by (subst (asm) skip_matches.simps) simp
    then obtain k where "n' = n + 1 + k" "drop (length b) pc = concat (replicate k b) @ pc'"
      "\<not> (length b \<le> length pc' \<and> take (length b) pc' = b)"
      using 1(1) True 1(2) by blast
    moreover have "pc = b @ drop (length b) pc" using True by (metis append_take_drop_id)
    ultimately show ?thesis by (intro exI [of _ "Suc k"]) simp
  next
    case False
    then have "skip_matches b pc n = (pc, n)" by (subst skip_matches.simps) auto
    then show ?thesis using 1(3) False by (intro exI [of _ 0]) auto
  qed
qed

lemma FindAndDelete_loop_count:
  "b \<noteq> [] \<Longrightarrow> FindAndDelete_loop b result pc n = (result', pc2, n') \<Longrightarrow>
   n \<le> n' \<and> length result' + length pc2 + (n' - n) * length b = length result + length pc"
proof (induction b result pc n rule: FindAndDelete_loop.induct)
  case (1 b result pc n)
  obtain p m where s: "skip_matches b pc n = (p, m)" by fastforce
  then obtain k where k: "m = n + k" "pc = concat (replicate k b) @ p"
    using skip_matches_spec [OF 1(2)] by blast
  then have l: "length pc = k * length b + length p" by (simp add: length_concat sum_list_replicate)
  obtain ok op vch q where g: "GetOp2 p = (ok, op, vch, q)" by (metis prod_cases4)
  show ?case
  proof (cases ok)
    case True
    then have q: "length q < length p" using g GetOp2_shorter [of p op vch q] by simp
    have "FindAndDelete_loop b (result @ take (length p - length q) p) q m = (result', pc2, n')"
      using 1(3) s g True by (subst (asm) FindAndDelete_loop.simps) simp
    then have "m \<le> n' \<and> length result' + length pc2 + (n' - m) * length b
        = length (result @ take (length p - length q) p) + length q"
      using 1(1) [OF s [symmetric] g [symmetric] refl refl True 1(2)] by simp
    moreover have "(n' - n) * length b = (n' - m) * length b + k * length b" if "m \<le> n'"
      using that k(1) by (simp add: add_mult_distrib [symmetric])
    ultimately show ?thesis using q l k(1) by auto
  next
    case False
    then have "result' = result" "pc2 = p" "n' = m"
      using 1(3) s g by (subst (asm) FindAndDelete_loop.simps, simp)+
    then show ?thesis using k l by simp
  qed
qed

text \<open>
  An atomic byte string is one operation whatever follows it. Deleting an operation from a
  script made of operations removes every occurrence and nothing else.
\<close>

definition atomic :: "bytes \<Rightarrow> bool" where
  "atomic c \<longleftrightarrow> (\<forall>r. \<exists>op vch. GetOp2 (c @ r) = (True, op, vch, r))"

lemma atomic_push_data: "length b < 2 ^ 32 \<Longrightarrow> atomic (push_data [] b)"
  by (simp add: atomic_def GetOp2_push_data)

lemma atomic_opcode: "OP_PUSHDATA4 < c \<Longrightarrow> atomic [c]"
  by (simp add: atomic_def GetOp2_simple)

lemma atomicE:
  assumes "atomic c"
  obtains op vch where "GetOp2 (c @ r) = (True, op, vch, r)"
  using assms unfolding atomic_def by blast

lemma atomic_not_Nil: "atomic c \<Longrightarrow> c \<noteq> []"
  by (rule atomicE [of c "[]"]) auto

lemma atomic_prefix_free:
  assumes "atomic b" and "atomic c" and "b @ x = c @ y"
  shows "b = c \<and> x = y"
proof -
  obtain p q where "GetOp2 (b @ x) = (True, p, q, x)" using assms(1) by (rule atomicE)
  moreover obtain p' q' where "GetOp2 (c @ y) = (True, p', q', y)" using assms(2) by (rule atomicE)
  ultimately have "x = y" using assms(3) by simp
  then show ?thesis using assms(3) by simp
qed

lemma skip_matches_ops:
  assumes "atomic b" and "list_all atomic cs"
  shows "skip_matches b (concat cs) n = (concat (dropWhile (\<lambda>c. c = b) cs), n + length (takeWhile (\<lambda>c. c = b) cs))"
  using assms(2)
proof (induction cs arbitrary: n)
  case Nil
  then show ?case using atomic_not_Nil [OF assms(1)] by (subst skip_matches.simps) simp
next
  case (Cons c cs)
  show ?case
  proof (cases "c = b")
    case True
    then show ?thesis
      using Cons atomic_not_Nil [OF assms(1)] by (subst skip_matches.simps) simp
  next
    case False
    have "take (length b) (c @ concat cs) \<noteq> b"
    proof
      assume "take (length b) (c @ concat cs) = b"
      then have "b @ drop (length b) (c @ concat cs) = c @ concat cs" by (metis append_take_drop_id)
      then show False using atomic_prefix_free [OF assms(1)] Cons.prems False by auto
    qed
    then show ?thesis using False by (subst skip_matches.simps) simp
  qed
qed

lemma FindAndDelete_loop_ops:
  assumes "atomic b" and "list_all atomic cs"
  shows "\<exists>result' pc2. FindAndDelete_loop b result (concat cs) n = (result', pc2, n + count_list cs b)
     \<and> result' @ pc2 = result @ concat (filter (\<lambda>c. c \<noteq> b) cs)"
  using assms(2)
proof (induction "length cs" arbitrary: cs result n rule: less_induct)
  case less
  define d where "d = dropWhile (\<lambda>c. c = b) cs"
  define t where "t = length (takeWhile (\<lambda>c. c = b) cs)"
  have skip: "skip_matches b (concat cs) n = (concat d, n + t)"
    using skip_matches_ops [OF assms(1) less.prems] by (simp add: d_def t_def)
  have cs: "count_list cs b = t + count_list d b" "filter (\<lambda>c. c \<noteq> b) cs = filter (\<lambda>c. c \<noteq> b) d"
    unfolding d_def t_def by (induction cs) auto
  show ?case
  proof (cases d)
    case Nil
    then show ?thesis using skip cs by (subst FindAndDelete_loop.simps) simp
  next
    case (Cons c ds)
    have at: "list_all atomic (c # ds)"
      using less.prems Cons unfolding d_def by (metis list_all_append takeWhile_dropWhile_id)
    then have "atomic c" by simp
    then obtain op vch where g: "GetOp2 (c @ concat ds) = (True, op, vch, concat ds)"
      by (rule atomicE)
    have "c \<noteq> b" using Cons unfolding d_def by (simp add: dropWhile_eq_Cons_conv)
    moreover have "length ds < length cs"
      using Cons unfolding d_def by (metis Suc_le_lessD length_Cons length_dropWhile_le)
    then obtain r p where "FindAndDelete_loop b (result @ c) (concat ds) (n + t)
        = (r, p, n + t + count_list ds b)" "r @ p = (result @ c) @ concat (filter (\<lambda>c. c \<noteq> b) ds)"
      using less.hyps [of ds "result @ c" "n + t"] at by auto
    ultimately show ?thesis
      using skip cs Cons g by (subst FindAndDelete_loop.simps) simp
  qed
qed

section \<open>Properties\<close>


text \<open>
  What \<open>operator<<\<close> appends for a vector is read back by \<open>GetOp\<close> as one push of exactly that
  vector, in each of its four forms, whatever bytes follow.
\<close>

theorem push_data_GetOp2:
  assumes "length b < 2 ^ 32"
  shows "push_data s b = s @ push_data [] b
    \<and> (\<exists>opcode. opcode \<le> OP_PUSHDATA4 \<and> GetOp2 (push_data [] b @ r) = (True, opcode, b, r))"
  using GetOp2_push_data [OF assms] push_op_le push_data_append by blast

theorem push_data_GetOp2_witness:
  "length (replicate 300 (7 :: byte)) < 2 ^ 32
    \<and> (\<exists>opcode. opcode \<le> OP_PUSHDATA4
        \<and> GetOp2 (push_data [] (replicate 300 7) @ [OP_CHECKSIG]) = (True, opcode, replicate 300 7, [OP_CHECKSIG]))"
  using push_data_GetOp2 [of "replicate 300 7" "[]" "[OP_CHECKSIG]"] by simp

text \<open>
  C27. \<open>FindAndDelete\<close> of an operation from a script that is a sequence of operations removes
  every occurrence of it, returns how many there were, and keeps all other operations in
  order.
\<close>

theorem FindAndDelete_operations:
  assumes "list_all atomic cs" and "atomic b"
  shows "FindAndDelete (concat cs) b = (count_list cs b, concat (filter (\<lambda>c. c \<noteq> b) cs))"
proof -
  obtain r p where "FindAndDelete_loop b [] (concat cs) 0 = (r, p, count_list cs b)"
    "r @ p = concat (filter (\<lambda>c. c \<noteq> b) cs)"
    using FindAndDelete_loop_ops [OF assms(2,1), of "[]" 0] by auto
  moreover have "filter (\<lambda>c. c \<noteq> b) cs = cs" if "count_list cs b = 0"
    using that by (auto simp: count_list_0_iff filter_id_conv)
  ultimately show ?thesis using atomic_not_Nil [OF assms(2)] by (simp add: FindAndDelete_def)
qed

theorem FindAndDelete_operations_witness:
  "list_all atomic [[OP_DUP], push_data [] [1, 2], [OP_CHECKSIG], push_data [] [1, 2]] \<and> atomic (push_data [] [1, 2])
    \<and> FindAndDelete (concat [[OP_DUP], push_data [] [1, 2], [OP_CHECKSIG], push_data [] [1, 2]]) (push_data [] [1, 2])
      = (2, [OP_DUP, OP_CHECKSIG])"
proof -
  have a: "list_all atomic [[OP_DUP], push_data [] [1, 2], [OP_CHECKSIG], push_data [] [1, 2]]" "atomic (push_data [] [1, 2])"
    by (simp_all add: atomic_push_data atomic_opcode)
  then show ?thesis
    using FindAndDelete_operations [OF a] by (simp add: push_data_def)
qed

end
