(* ===== verification/Services.thy ===== *)
theory Services
  imports Script
begin

text \<open>
  The service prefixes of Minerium scripts: an alias, offer, certificate, escrow, asset or asset
  allocation operation is a script that pushes its arguments, drops them, and goes on with an
  ordinary payment script. The decoders of \<^verbatim>\<open>src/alias.cpp\<close>, \<^verbatim>\<open>offer.cpp\<close>, \<^verbatim>\<open>cert.cpp\<close>, \<^verbatim>\<open>escrow.cpp\<close>, \<^verbatim>\<open>asset.cpp\<close>
  and \<^verbatim>\<open>assetallocation.cpp\<close> have one text with two parameters, the service number and the test of
  the operation; \<open>RemoveMineriumScript\<close> strips the prefix, and the script predicates of
  \<^verbatim>\<open>src/script/script.cpp\<close> look at what is left.
\<close>

section \<open>The decoders\<close>

definition IsAliasOp :: "nat \<Rightarrow> bool" where
  "IsAliasOp op \<longleftrightarrow> op = unat OP_ALIAS_ACTIVATE \<or> op = unat OP_ALIAS_UPDATE"

definition IsOfferOp :: "nat \<Rightarrow> bool" where
  "IsOfferOp op \<longleftrightarrow> op = unat OP_OFFER_ACTIVATE \<or> op = unat OP_OFFER_UPDATE"

definition IsCertOp :: "nat \<Rightarrow> bool" where
  "IsCertOp op \<longleftrightarrow> op = unat OP_CERT_ACTIVATE \<or> op = unat OP_CERT_UPDATE \<or> op = unat OP_CERT_TRANSFER"

definition IsEscrowOp :: "nat \<Rightarrow> bool" where
  "IsEscrowOp op \<longleftrightarrow> op = unat OP_ESCROW_ACTIVATE \<or> op = unat OP_ESCROW_RELEASE \<or> op = unat OP_ESCROW_REFUND
     \<or> op = unat OP_ESCROW_RELEASE_COMPLETE \<or> op = unat OP_ESCROW_REFUND_COMPLETE \<or> op = unat OP_ESCROW_BID
     \<or> op = unat OP_ESCROW_FEEDBACK \<or> op = unat OP_ESCROW_ACKNOWLEDGE \<or> op = unat OP_ESCROW_ADD_SHIPPING"

definition IsAssetOp :: "nat \<Rightarrow> bool" where
  "IsAssetOp op \<longleftrightarrow> op = unat OP_ASSET_ACTIVATE \<or> op = unat OP_ASSET_UPDATE
     \<or> op = unat OP_ASSET_TRANSFER \<or> op = unat OP_ASSET_SEND"

definition IsAssetAllocationOp :: "nat \<Rightarrow> bool" where
  "IsAssetAllocationOp op \<longleftrightarrow> op = unat OP_ASSET_ALLOCATION_SEND \<or> op = unat OP_ASSET_COLLECT_INTEREST"

text \<open>A small integer read from the script: \<open>GetOp\<close>, the range test and \<open>DecodeOP_N\<close>.\<close>

definition decode_small :: "bytes \<Rightarrow> (nat \<times> bytes) option" where
  "decode_small pc =
     (case GetOp2 pc of (ok, opcode, vch, pc') \<Rightarrow>
        if \<not> ok then None
        else if opcode < OP_1 \<or> opcode > OP_16 then None
        else map_option (\<lambda>op. (op, pc')) (DecodeOP_N opcode))"

text \<open>The loop over the arguments, up to the first drop; \<open>None\<close> is \<open>return false\<close>.\<close>

function decode_args :: "bytes list \<Rightarrow> bytes \<Rightarrow> (byte \<times> bytes list \<times> bytes) option" where
  "decode_args vvch pc =
     (case GetOp2 pc of (ok, opcode, vch, pc') \<Rightarrow>
        if \<not> ok then None
        else if opcode = OP_DROP \<or> opcode = OP_2DROP then Some (opcode, vvch, pc')
        else if \<not> opcode \<le> OP_PUSHDATA4 then None
        else decode_args (vvch @ [vch]) pc')"
  by pat_completeness auto
termination by (relation "measure (\<lambda>(v, pc). length pc)") (auto dest!: GetOp2_shorter [OF sym])

declare decode_args.simps [simp del]

text \<open>The loop that moves \<open>pc\<close> after the drops.\<close>

function skip_drops :: "byte \<Rightarrow> bytes \<Rightarrow> bytes" where
  "skip_drops opcode pc =
     (if opcode = OP_DROP \<or> opcode = OP_2DROP then
        (case GetOp2 pc of (ok, opcode', vch, pc') \<Rightarrow> if \<not> ok then pc' else skip_drops opcode' pc')
      else pc)"
  by pat_completeness auto
termination by (relation "measure (\<lambda>(op, pc). length pc)") (auto dest!: GetOp2_shorter [OF sym])

declare skip_drops.simps [simp del]

text \<open>\<open>pc--\<close>: one byte back in the script.\<close>

definition pc_back :: "CScript \<Rightarrow> bytes \<Rightarrow> bytes" where
  "pc_back script pc = drop (length script - length pc - 1) script"

definition DecodeServiceScript :: "nat \<Rightarrow> (nat \<Rightarrow> bool) \<Rightarrow> CScript \<Rightarrow> (nat \<times> bytes list \<times> bytes) option" where
  "DecodeServiceScript svc isOp script =
     (case decode_small script of
        None \<Rightarrow> None
      | Some (op, pc) \<Rightarrow>
          if op \<noteq> svc then None
          else case decode_small pc of
            None \<Rightarrow> None
          | Some (op, pc) \<Rightarrow>
              if \<not> isOp op then None
              else case decode_args [] pc of
                None \<Rightarrow> None
              | Some (opcode, vvch, pc) \<Rightarrow> Some (op, vvch, pc_back script (skip_drops opcode pc)))"

definition DecodeAliasScript :: "CScript \<Rightarrow> (nat \<times> bytes list \<times> bytes) option" where
  "DecodeAliasScript = DecodeServiceScript (unat OP_MINERIUM_ALIAS) IsAliasOp"

definition DecodeOfferScript :: "CScript \<Rightarrow> (nat \<times> bytes list \<times> bytes) option" where
  "DecodeOfferScript = DecodeServiceScript (unat OP_MINERIUM_OFFER) IsOfferOp"

definition DecodeCertScript :: "CScript \<Rightarrow> (nat \<times> bytes list \<times> bytes) option" where
  "DecodeCertScript = DecodeServiceScript (unat OP_MINERIUM_CERT) IsCertOp"

definition DecodeEscrowScript :: "CScript \<Rightarrow> (nat \<times> bytes list \<times> bytes) option" where
  "DecodeEscrowScript = DecodeServiceScript (unat OP_MINERIUM_ESCROW) IsEscrowOp"

definition DecodeAssetScript :: "CScript \<Rightarrow> (nat \<times> bytes list \<times> bytes) option" where
  "DecodeAssetScript = DecodeServiceScript (unat OP_MINERIUM_ASSET) IsAssetOp"

text \<open>The decoder of asset allocations tests the operation with \<open>IsAssetOp\<close>, as the code does.\<close>

definition DecodeAssetAllocationScript :: "CScript \<Rightarrow> (nat \<times> bytes list \<times> bytes) option" where
  "DecodeAssetAllocationScript = DecodeServiceScript (unat OP_MINERIUM_ASSET_ALLOCATION) IsAssetOp"

section \<open>Stripping the prefix\<close>

definition RemoveAliasScriptPrefix :: "CScript \<Rightarrow> CScript option" where
  "RemoveAliasScriptPrefix scriptIn = map_option (\<lambda>(op, vvch, pc). pc) (DecodeAliasScript scriptIn)"

definition RemoveOfferScriptPrefix :: "CScript \<Rightarrow> CScript option" where
  "RemoveOfferScriptPrefix scriptIn = map_option (\<lambda>(op, vvch, pc). pc) (DecodeOfferScript scriptIn)"

definition RemoveCertScriptPrefix :: "CScript \<Rightarrow> CScript option" where
  "RemoveCertScriptPrefix scriptIn = map_option (\<lambda>(op, vvch, pc). pc) (DecodeCertScript scriptIn)"

definition RemoveEscrowScriptPrefix :: "CScript \<Rightarrow> CScript option" where
  "RemoveEscrowScriptPrefix scriptIn = map_option (\<lambda>(op, vvch, pc). pc) (DecodeEscrowScript scriptIn)"

definition RemoveAssetScriptPrefix :: "CScript \<Rightarrow> CScript option" where
  "RemoveAssetScriptPrefix scriptIn = map_option (\<lambda>(op, vvch, pc). pc) (DecodeAssetScript scriptIn)"

definition RemoveAssetAllocationScriptPrefix :: "CScript \<Rightarrow> CScript option" where
  "RemoveAssetAllocationScriptPrefix scriptIn = map_option (\<lambda>(op, vvch, pc). pc) (DecodeAssetAllocationScript scriptIn)"

definition RemoveMineriumScript :: "CScript \<Rightarrow> CScript option" where
  "RemoveMineriumScript s =
     (case RemoveAliasScriptPrefix s of Some r \<Rightarrow> Some r | None \<Rightarrow>
      case RemoveOfferScriptPrefix s of Some r \<Rightarrow> Some r | None \<Rightarrow>
      case RemoveCertScriptPrefix s of Some r \<Rightarrow> Some r | None \<Rightarrow>
      case RemoveEscrowScriptPrefix s of Some r \<Rightarrow> Some r | None \<Rightarrow>
      case RemoveAssetScriptPrefix s of Some r \<Rightarrow> Some r | None \<Rightarrow>
      RemoveAssetAllocationScriptPrefix s)"

definition IsMineriumScript :: "CScript \<Rightarrow> (nat \<times> bytes list) option" where
  "IsMineriumScript s =
     (case DecodeAliasScript s of Some (op, vvch, pc) \<Rightarrow> Some (op, vvch) | None \<Rightarrow>
      case DecodeOfferScript s of Some (op, vvch, pc) \<Rightarrow> Some (op, vvch) | None \<Rightarrow>
      case DecodeCertScript s of Some (op, vvch, pc) \<Rightarrow> Some (op, vvch) | None \<Rightarrow>
      case DecodeEscrowScript s of Some (op, vvch, pc) \<Rightarrow> Some (op, vvch) | None \<Rightarrow>
      case DecodeAssetScript s of Some (op, vvch, pc) \<Rightarrow> Some (op, vvch) | None \<Rightarrow>
      case DecodeAssetAllocationScript s of Some (op, vvch, pc) \<Rightarrow> Some (op, vvch) | None \<Rightarrow> None)"

definition FindMineriumScriptOp :: "CScript \<Rightarrow> nat option" where
  "FindMineriumScriptOp script =
     (case decode_small script of
        None \<Rightarrow> None
      | Some (op, pc) \<Rightarrow>
          if op = unat OP_MINERIUM_ALIAS \<or> op = unat OP_MINERIUM_ASSET \<or> op = unat OP_MINERIUM_ASSET_ALLOCATION
             \<or> op = unat OP_MINERIUM_CERT \<or> op = unat OP_MINERIUM_ESCROW \<or> op = unat OP_MINERIUM_OFFER
          then Some op else None)"

section \<open>Script predicates\<close>

definition strip_service :: "CScript \<Rightarrow> CScript" where
  "strip_service s = (case RemoveMineriumScript s of Some scriptPubKeyOut \<Rightarrow> scriptPubKeyOut | None \<Rightarrow> s)"

definition IsPayToPublicKeyHash :: "CScript \<Rightarrow> bool" where
  "IsPayToPublicKeyHash s \<longleftrightarrow>
     (let scriptOut = strip_service s
      in length scriptOut = 25 \<and> scriptOut ! 0 = OP_DUP \<and> scriptOut ! 1 = OP_HASH160 \<and> scriptOut ! 2 = 0x14
         \<and> scriptOut ! 23 = OP_EQUALVERIFY \<and> scriptOut ! 24 = OP_CHECKSIG)"

definition IsPayToScriptHash :: "CScript \<Rightarrow> bool" where
  "IsPayToScriptHash s \<longleftrightarrow>
     (let scriptOut = strip_service s
      in length scriptOut = 23 \<and> scriptOut ! 0 = OP_HASH160 \<and> scriptOut ! 1 = 0x14 \<and> scriptOut ! 22 = OP_EQUAL)"

definition IsPayToPublicKey :: "CScript \<Rightarrow> bool" where
  "IsPayToPublicKey s =
     (let scriptOut = strip_service s
      in if length scriptOut = 35 then (scriptOut ! 1 = 0x02 \<or> scriptOut ! 1 = 0x03) \<and> scriptOut ! 34 = OP_CHECKSIG
         else if length scriptOut = 67 then scriptOut ! 1 = 0x04 \<and> scriptOut ! 66 = OP_CHECKSIG
         else False)"

text \<open>The last item a \<open>scriptSig\<close> pushes: \<open>None\<close> where the count of \<open>GetSigOpCount(scriptSig)\<close> is 0.\<close>

function last_push :: "bytes \<Rightarrow> bytes \<Rightarrow> bytes option" where
  "last_push data pc =
     (if pc = [] then Some data
      else case GetOp2 pc of (ok, opcode, vch, pc') \<Rightarrow>
        if \<not> ok then None else if opcode > OP_16 then None else last_push vch pc')"
  by pat_completeness auto
termination by (relation "measure (\<lambda>(d, pc). length pc)") (auto dest!: GetOp2_shorter [OF sym])

declare last_push.simps [simp del]

definition GetP2SHSigOpCount_script :: "CScript \<Rightarrow> CScript \<Rightarrow> nat" where
  "GetP2SHSigOpCount_script scriptPubKey scriptSig =
     (if \<not> IsPayToScriptHash scriptPubKey then GetSigOpCount True scriptPubKey
      else case last_push [] scriptSig of None \<Rightarrow> 0 | Some data \<Rightarrow> GetSigOpCount True data)"

section \<open>What the decoders accept\<close>

text \<open>The prefix of a service script: service, operation, arguments, drops.\<close>

definition service_prefix :: "nat \<Rightarrow> nat \<Rightarrow> bytes list \<Rightarrow> byte list \<Rightarrow> bytes" where
  "service_prefix svc op args drops =
     [of_nat (80 + svc), of_nat (80 + op)] @ concat (map (push_data []) args) @ drops"

definition is_drop :: "byte \<Rightarrow> bool" where
  "is_drop c \<longleftrightarrow> c = OP_DROP \<or> c = OP_2DROP"

text \<open>The operations the decoder of each service lets pass.\<close>

definition service_op :: "nat \<Rightarrow> nat \<Rightarrow> bool" where
  "service_op svc op \<longleftrightarrow>
     svc = 1 \<and> IsAliasOp op \<or> svc = 2 \<and> IsCertOp op \<or> svc = 3 \<and> IsEscrowOp op \<or> svc = 4 \<and> IsOfferOp op
     \<or> svc = 5 \<and> IsAssetOp op \<or> svc = 6 \<and> IsAssetOp op"

lemmas service_op_defs = IsAliasOp_def IsOfferOp_def IsCertOp_def IsEscrowOp_def IsAssetOp_def IsAssetAllocationOp_def

lemma decode_small_N:
  assumes "1 \<le> n" and "n \<le> 16"
  shows "decode_small (of_nat (80 + n) # r) = Some (n, r)"
proof -
  have u: "unat (of_nat (80 + n) :: byte) = 80 + n" using assms by (simp add: unat_of_nat del: of_nat_add)
  then have "OP_PUSHDATA4 < (of_nat (80 + n) :: byte)"
    by (simp add: word_less_nat_alt del: of_nat_add)
  then show ?thesis
    using assms u by (simp add: decode_small_def GetOp2_simple DecodeOP_N_def word_less_nat_alt word_le_nat_alt
        word_unat_eq_iff del: of_nat_add)
qed

lemma decode_args_pushes:
  assumes "list_all (\<lambda>b. length b < 2 ^ 32) args" and "is_drop d"
  shows "decode_args vvch (concat (map (push_data []) args) @ d # r) = Some (d, vvch @ args, r)"
  using assms(1)
proof (induction args arbitrary: vvch)
  case Nil
  have "GetOp2 (d # r) = (True, d, [], r)"
    using assms(2) by (intro GetOp2_simple) (auto simp: is_drop_def)
  then show ?case using assms(2) by (subst decode_args.simps) (simp add: is_drop_def)
next
  case (Cons b args)
  have "\<not> (push_op (length b) = OP_DROP \<or> push_op (length b) = OP_2DROP)"
    using push_op_le [of "length b"] by auto
  then show ?case
    using Cons push_op_le [of "length b"] by (subst decode_args.simps) (simp add: GetOp2_push_data)
qed

lemma skip_drops_drops:
  assumes "is_drop d" and "list_all is_drop ds"
  shows "skip_drops d (ds @ body) = skip_drops OP_DROP body"
  using assms
proof (induction ds arbitrary: d)
  case Nil
  then show ?case by (subst (1 2) skip_drops.simps) (auto simp: is_drop_def)
next
  case (Cons c ds)
  have "GetOp2 (c # ds @ body) = (True, c, [], ds @ body)"
    using Cons.prems(2) by (intro GetOp2_simple) (auto simp: is_drop_def)
  then have "skip_drops d ((c # ds) @ body) = skip_drops c (ds @ body)"
    using Cons.prems(1) by (subst skip_drops.simps) (auto simp: is_drop_def)
  then show ?case using Cons by simp
qed

lemma skip_drops_stop: "\<not> is_drop c \<Longrightarrow> skip_drops c pc = pc"
  by (subst skip_drops.simps) (simp add: is_drop_def)

lemma pc_back_append [simp]: "pc_back (pre @ x # r) r = x # r"
  by (simp add: pc_back_def)

lemma DecodeServiceScript_prefix:
  assumes "1 \<le> svc" "svc \<le> 16" "1 \<le> op" "op \<le> 16" and "isOp op"
    and "list_all (\<lambda>b. length b < 2 ^ 32) args" and "is_drop d" and "list_all is_drop ds"
  shows "DecodeServiceScript svc isOp (service_prefix svc op args (d # ds) @ body)
    = Some (op, args, pc_back (service_prefix svc op args (d # ds) @ body) (skip_drops OP_DROP body))"
  using assms decode_args_pushes [OF assms(6,7), of "[]" "ds @ body"]
  by (simp add: DecodeServiceScript_def service_prefix_def decode_small_N skip_drops_drops del: of_nat_add)

lemma DecodeServiceScript_other:
  assumes "1 \<le> svc" "svc \<le> 16" and "svc' \<noteq> svc"
  shows "DecodeServiceScript svc' isOp (service_prefix svc op args ds @ body) = None"
  using assms by (simp add: DecodeServiceScript_def service_prefix_def decode_small_N del: of_nat_add)

lemmas Remove_defs = RemoveMineriumScript_def RemoveAliasScriptPrefix_def RemoveOfferScriptPrefix_def RemoveCertScriptPrefix_def
  RemoveEscrowScriptPrefix_def RemoveAssetScriptPrefix_def RemoveAssetAllocationScriptPrefix_def
  DecodeAliasScript_def DecodeOfferScript_def DecodeCertScript_def DecodeEscrowScript_def DecodeAssetScript_def
  DecodeAssetAllocationScript_def

lemma service_op_range: "service_op svc op \<Longrightarrow> 1 \<le> svc \<and> svc \<le> 6 \<and> 1 \<le> op \<and> op \<le> 9"
  by (auto simp: service_op_def service_op_defs)

lemma RemoveMineriumScript_prefix:
  assumes "service_op svc op" and "list_all (\<lambda>b. length b < 2 ^ 32) args" and "is_drop d" and "list_all is_drop ds"
  shows "RemoveMineriumScript (service_prefix svc op args (d # ds) @ body)
    = Some (pc_back (service_prefix svc op args (d # ds) @ body) (skip_drops OP_DROP body))"
proof -
  have r: "1 \<le> svc" "svc \<le> 16" "1 \<le> op" "op \<le> 16" using service_op_range [OF assms(1)] by auto
  show ?thesis
    using assms(1) DecodeServiceScript_prefix [OF r _ assms(2-4)] DecodeServiceScript_other [OF r(1,2)]
    by (auto simp: service_op_def Remove_defs)
qed

lemma RemoveMineriumScript_simple:
  assumes "service_op svc op" and "list_all (\<lambda>b. length b < 2 ^ 32) args" and "is_drop d" and "list_all is_drop ds"
    and "OP_PUSHDATA4 < c" and "\<not> is_drop c"
  shows "RemoveMineriumScript (service_prefix svc op args (d # ds) @ c # t) = Some (c # t)"
proof -
  have "skip_drops OP_DROP (c # t) = skip_drops c t"
    using GetOp2_simple [OF assms(5)] by (subst skip_drops.simps) simp
  then show ?thesis
    using RemoveMineriumScript_prefix [OF assms(1-4), of "c # t"] skip_drops_stop [OF assms(6)] by simp
qed

text \<open>A script that does not start with a small number is no service script.\<close>

lemma RemoveMineriumScript_none:
  assumes "OP_16 < c"
  shows "RemoveMineriumScript (c # t) = None"
proof -
  have "OP_PUSHDATA4 < c" using assms by (rule less_trans [rotated]) simp
  then have "decode_small (c # t) = None"
    using assms by (simp add: decode_small_def GetOp2_simple)
  then show ?thesis by (simp add: Remove_defs DecodeServiceScript_def)
qed

section \<open>Properties\<close>



text \<open>
  C29. A payment script that starts with a push, such as pay-to-pubkey, is not given back: the
  final \<open>pc--\<close> steps one byte back from the end of the push, so that what is returned is the
  last byte of the pushed data and the rest of the script.
\<close>

theorem RemoveMineriumScript_push_body:
  assumes "service_op svc op" and "list_all (\<lambda>b. length b < 2 ^ 32) args" and "is_drop d" and "list_all is_drop ds"
    and "b \<noteq> []" and "length b < 2 ^ 32"
  shows "RemoveMineriumScript (service_prefix svc op args (d # ds) @ push_data [] b @ t) = Some (last b # t)
    \<and> length (last b # t) < length (push_data [] b @ t)"
proof -
  have nd: "\<not> is_drop (push_op (length b))" using push_op_le [of "length b"] by (auto simp: is_drop_def)
  have "skip_drops OP_DROP (push_data [] b @ t) = skip_drops (push_op (length b)) t"
    using GetOp2_push_data [OF assms(6)] by (subst skip_drops.simps) simp
  then have r: "skip_drops OP_DROP (push_data [] b @ t) = t" using skip_drops_stop [OF nd] by simp
  obtain pre where p: "push_data [] b = pre @ [last b]"
    using assms(5) by (metis append_assoc append_butlast_last_id push_data_def)
  have "pc_back (service_prefix svc op args (d # ds) @ push_data [] b @ t) t = last b # t"
    using pc_back_append [of "service_prefix svc op args (d # ds) @ pre" "last b" t] p by simp
  moreover have "length b < length (push_data [] b)" by (simp add: push_data_def)
  moreover have "1 \<le> length b" using assms(5) by (cases b) auto
  ultimately show ?thesis
    using RemoveMineriumScript_prefix [OF assms(1-4), of "push_data [] b @ t"] r by simp
qed

theorem RemoveMineriumScript_push_body_witness:
  "RemoveMineriumScript (service_prefix 1 2 [[0x61]] [OP_2DROP] @ push_data [] (replicate 32 2 @ [9]) @ [OP_CHECKSIG]) = Some [9, OP_CHECKSIG]"
proof -
  have "service_op 1 2" "is_drop OP_2DROP" by (simp_all add: service_op_def service_op_defs is_drop_def)
  then show ?thesis
    using RemoveMineriumScript_push_body [of 1 2 "[[0x61]]" OP_2DROP "[]" "replicate 32 2 @ [9]" "[OP_CHECKSIG]"] by simp
qed

text \<open>
  C30. The decoder of asset allocation scripts accepts the operations of assets: an operation
  number 3 or 4, which is no asset allocation operation, is decoded as one.
\<close>

theorem DecodeAssetAllocationScript_accepts:
  assumes "op = 3 \<or> op = 4" and "list_all (\<lambda>b. length b < 2 ^ 32) args"
  shows "\<not> IsAssetAllocationOp op
    \<and> (\<exists>pc. DecodeAssetAllocationScript (service_prefix 6 op args [OP_2DROP] @ body) = Some (op, args, pc))"
  using assms DecodeServiceScript_prefix [of 6 op IsAssetOp args OP_2DROP "[]" body]
  by (auto simp: service_op_defs DecodeAssetAllocationScript_def is_drop_def)

theorem DecodeAssetAllocationScript_accepts_witness:
  "\<not> IsAssetAllocationOp 4
    \<and> (\<exists>pc. DecodeAssetAllocationScript (service_prefix 6 4 [[1]] [OP_2DROP] @ [OP_DUP]) = Some (4, [[1]], pc))"
  using DecodeAssetAllocationScript_accepts [of 4 "[[1]]" "[OP_DUP]"] by simp

end
