(* ===== verification/Script_Checks.thy ===== *)
theory Script_Checks
  imports Services
begin

text \<open>
  The script errors of \<^verbatim>\<open>src/script/script_error.h\<close>, the verification flags of \<^verbatim>\<open>src/script/interpreter.h\<close> and the
  checks on stack elements of \<^verbatim>\<open>src/script/interpreter.cpp\<close>: truth values, public key and signature
  encodings, minimal pushes. A check that sets \<open>serror\<close> returns the error, and \<open>None\<close> when it passes.
\<close>

section \<open>Errors and flags\<close>

datatype ScriptError =
    SCRIPT_ERR_OK | SCRIPT_ERR_UNKNOWN_ERROR | SCRIPT_ERR_EVAL_FALSE | SCRIPT_ERR_OP_RETURN
  | SCRIPT_ERR_SCRIPT_SIZE | SCRIPT_ERR_PUSH_SIZE | SCRIPT_ERR_OP_COUNT | SCRIPT_ERR_STACK_SIZE
  | SCRIPT_ERR_SIG_COUNT | SCRIPT_ERR_PUBKEY_COUNT
  | SCRIPT_ERR_VERIFY | SCRIPT_ERR_EQUALVERIFY | SCRIPT_ERR_CHECKMULTISIGVERIFY | SCRIPT_ERR_CHECKSIGVERIFY
  | SCRIPT_ERR_NUMEQUALVERIFY
  | SCRIPT_ERR_BAD_OPCODE | SCRIPT_ERR_DISABLED_OPCODE | SCRIPT_ERR_INVALID_STACK_OPERATION
  | SCRIPT_ERR_INVALID_ALTSTACK_OPERATION | SCRIPT_ERR_UNBALANCED_CONDITIONAL
  | SCRIPT_ERR_NEGATIVE_LOCKTIME | SCRIPT_ERR_UNSATISFIED_LOCKTIME
  | SCRIPT_ERR_SIG_HASHTYPE | SCRIPT_ERR_SIG_DER | SCRIPT_ERR_MINIMALDATA | SCRIPT_ERR_SIG_PUSHONLY
  | SCRIPT_ERR_SIG_HIGH_S | SCRIPT_ERR_SIG_NULLDUMMY | SCRIPT_ERR_PUBKEYTYPE | SCRIPT_ERR_CLEANSTACK
  | SCRIPT_ERR_SIG_NULLFAIL | SCRIPT_ERR_DISCOURAGE_UPGRADABLE_NOPS

abbreviation (input) SCRIPT_VERIFY_P2SH :: u32 where "SCRIPT_VERIFY_P2SH \<equiv> 0x1"
abbreviation (input) SCRIPT_VERIFY_STRICTENC :: u32 where "SCRIPT_VERIFY_STRICTENC \<equiv> 0x2"
abbreviation (input) SCRIPT_VERIFY_DERSIG :: u32 where "SCRIPT_VERIFY_DERSIG \<equiv> 0x4"
abbreviation (input) SCRIPT_VERIFY_LOW_S :: u32 where "SCRIPT_VERIFY_LOW_S \<equiv> 0x8"
abbreviation (input) SCRIPT_VERIFY_NULLDUMMY :: u32 where "SCRIPT_VERIFY_NULLDUMMY \<equiv> 0x10"
abbreviation (input) SCRIPT_VERIFY_SIGPUSHONLY :: u32 where "SCRIPT_VERIFY_SIGPUSHONLY \<equiv> 0x20"
abbreviation (input) SCRIPT_VERIFY_MINIMALDATA :: u32 where "SCRIPT_VERIFY_MINIMALDATA \<equiv> 0x40"
abbreviation (input) SCRIPT_VERIFY_DISCOURAGE_UPGRADABLE_NOPS :: u32 where "SCRIPT_VERIFY_DISCOURAGE_UPGRADABLE_NOPS \<equiv> 0x80"
abbreviation (input) SCRIPT_VERIFY_CLEANSTACK :: u32 where "SCRIPT_VERIFY_CLEANSTACK \<equiv> 0x100"
abbreviation (input) SCRIPT_VERIFY_CHECKLOCKTIMEVERIFY :: u32 where "SCRIPT_VERIFY_CHECKLOCKTIMEVERIFY \<equiv> 0x200"
abbreviation (input) SCRIPT_VERIFY_CHECKSEQUENCEVERIFY :: u32 where "SCRIPT_VERIFY_CHECKSEQUENCEVERIFY \<equiv> 0x400"
abbreviation (input) SCRIPT_VERIFY_NULLFAIL :: u32 where "SCRIPT_VERIFY_NULLFAIL \<equiv> 0x4000"

abbreviation (input) SIGHASH_ALL :: nat where "SIGHASH_ALL \<equiv> 1"
abbreviation (input) SIGHASH_NONE :: nat where "SIGHASH_NONE \<equiv> 2"
abbreviation (input) SIGHASH_SINGLE :: nat where "SIGHASH_SINGLE \<equiv> 3"
abbreviation (input) SIGHASH_ANYONECANPAY :: nat where "SIGHASH_ANYONECANPAY \<equiv> 0x80"

definition flag :: "u32 \<Rightarrow> u32 \<Rightarrow> bool" where
  "flag flags f \<longleftrightarrow> flags AND f \<noteq> 0"

section \<open>Checks on stack elements\<close>

fun CastToBool :: "bytes \<Rightarrow> bool" where
  "CastToBool [] = False"
| "CastToBool (b # bs) = (if b \<noteq> 0 then \<not> (bs = [] \<and> b = 0x80) else CastToBool bs)"

definition IsCompressedOrUncompressedPubKey :: "bytes \<Rightarrow> bool" where
  "IsCompressedOrUncompressedPubKey vchPubKey =
     (if length vchPubKey < 33 then False
      else if vchPubKey ! 0 = 0x04 then length vchPubKey = 65
      else if vchPubKey ! 0 = 0x02 \<or> vchPubKey ! 0 = 0x03 then length vchPubKey = 33
      else False)"

definition IsValidSignatureEncoding :: "bytes \<Rightarrow> bool" where
  "IsValidSignatureEncoding sig =
     (if length sig < 9 then False
      else if length sig > 73 then False
      else if sig ! 0 \<noteq> 0x30 then False
      else if unat (sig ! 1) \<noteq> length sig - 3 then False
      else
        let lenR = unat (sig ! 3)
        in if 5 + lenR \<ge> length sig then False
           else
             let lenS = unat (sig ! (5 + lenR))
             in if lenR + lenS + 7 \<noteq> length sig then False
                else if sig ! 2 \<noteq> 0x02 then False
                else if lenR = 0 then False
                else if sig ! 4 AND 0x80 \<noteq> 0 then False
                else if lenR > 1 \<and> sig ! 4 = 0x00 \<and> \<not> sig ! 5 AND 0x80 \<noteq> 0 then False
                else if sig ! (lenR + 4) \<noteq> 0x02 then False
                else if lenS = 0 then False
                else if sig ! (lenR + 6) AND 0x80 \<noteq> 0 then False
                else if lenS > 1 \<and> sig ! (lenR + 6) = 0x00 \<and> \<not> sig ! (lenR + 7) AND 0x80 \<noteq> 0 then False
                else True)"

text \<open>\<open>CheckLowS\<close> is \<open>CPubKey::CheckLowS\<close>, which asks the elliptic curve library.\<close>

definition IsLowDERSignature :: "(bytes \<Rightarrow> bool) \<Rightarrow> bytes \<Rightarrow> ScriptError option" where
  "IsLowDERSignature CheckLowS vchSig =
     (if \<not> IsValidSignatureEncoding vchSig then Some SCRIPT_ERR_SIG_DER
      else if \<not> CheckLowS (take (length vchSig - 1) vchSig) then Some SCRIPT_ERR_SIG_HIGH_S
      else None)"

definition IsDefinedHashtypeSignature :: "bytes \<Rightarrow> bool" where
  "IsDefinedHashtypeSignature vchSig =
     (if length vchSig = 0 then False
      else
        let nHashType = vchSig ! (length vchSig - 1) AND NOT (of_nat SIGHASH_ANYONECANPAY)
        in \<not> (unat nHashType < SIGHASH_ALL \<or> unat nHashType > SIGHASH_SINGLE))"

definition CheckSignatureEncoding :: "(bytes \<Rightarrow> bool) \<Rightarrow> bytes \<Rightarrow> u32 \<Rightarrow> ScriptError option" where
  "CheckSignatureEncoding CheckLowS vchSig flags =
     (if length vchSig = 0 then None
      else if flag flags (SCRIPT_VERIFY_DERSIG OR SCRIPT_VERIFY_LOW_S OR SCRIPT_VERIFY_STRICTENC)
              \<and> \<not> IsValidSignatureEncoding vchSig then Some SCRIPT_ERR_SIG_DER
      else if flag flags SCRIPT_VERIFY_LOW_S \<and> IsLowDERSignature CheckLowS vchSig \<noteq> None
        then IsLowDERSignature CheckLowS vchSig
      else if flag flags SCRIPT_VERIFY_STRICTENC \<and> \<not> IsDefinedHashtypeSignature vchSig
        then Some SCRIPT_ERR_SIG_HASHTYPE
      else None)"

definition CheckPubKeyEncoding :: "bytes \<Rightarrow> u32 \<Rightarrow> ScriptError option" where
  "CheckPubKeyEncoding vchPubKey flags =
     (if flag flags SCRIPT_VERIFY_STRICTENC \<and> \<not> IsCompressedOrUncompressedPubKey vchPubKey
      then Some SCRIPT_ERR_PUBKEYTYPE else None)"

definition CheckMinimalPush :: "bytes \<Rightarrow> byte \<Rightarrow> bool" where
  "CheckMinimalPush data opcode =
     (if length data = 0 then opcode = OP_0
      else if length data = 1 \<and> data ! 0 \<ge> 1 \<and> data ! 0 \<le> 16 then opcode = OP_1 + (data ! 0 - 1)
      else if length data = 1 \<and> data ! 0 = 0x81 then opcode = OP_1NEGATE
      else if length data \<le> 75 then unat opcode = length data
      else if length data \<le> 255 then opcode = OP_PUSHDATA1
      else if length data \<le> 65535 then opcode = OP_PUSHDATA2
      else True)"

section \<open>What the checks say\<close>

text \<open>A stack element is true exactly when the number it encodes is not zero.\<close>

lemma byte_eq_80: "l = 0x80 \<longleftrightarrow> unat (l :: byte) = 128"
  by (simp add: word_unat_eq_iff)

lemma byte_eq_0: "l = 0 \<longleftrightarrow> unat (l :: byte) = 0"
  by (simp only: unat_eq_0)

lemma byte_mod_128: "unat l mod 128 = 0 \<longleftrightarrow> l = 0 \<or> l = (0x80 :: byte)"
proof -
  have "u mod 128 = 0 \<longleftrightarrow> u = 0 \<or> u = 128" if "u < 256" for u :: nat
  proof (cases "u < 128")
    case True
    then have "u mod 128 = u" by (rule mod_less)
    then show ?thesis using True by simp
  next
    case False
    define m where "m = u mod 128"
    have "m + 128 = u" using mod_128_high [OF False that] by (simp add: m_def)
    then show ?thesis unfolding m_def [symmetric] by auto
  qed
  from this [OF unat_byte_less [of l]] show ?thesis unfolding byte_eq_80 byte_eq_0 .
qed

lemma CastToBool_le_val: "CastToBool (bs @ [l]) \<longleftrightarrow> le_val bs \<noteq> 0 \<or> unat l mod 128 \<noteq> 0"
proof (induction bs)
  case Nil
  show ?case unfolding byte_mod_128 append_Nil CastToBool.simps le_val.simps by auto
next
  case (Cons b bs)
  then show ?case
    using byte_eq_0 [of b]
    by (simp only: append_Cons CastToBool.simps le_val.simps add_eq_0_iff_both_eq_0 mult_eq_0_iff) auto
qed

lemma CastToBool_number: "CastToBool vch \<longleftrightarrow> CScriptNum_set_vch vch \<noteq> 0"
proof (cases "vch = []")
  case False
  then obtain bs l where vch: "vch = bs @ [l]" by (metis append_butlast_last_id)
  have "CScriptNum_set_vch vch \<noteq> 0 \<longleftrightarrow> le_val bs + 256 ^ length bs * (unat l mod 128) \<noteq> 0"
    using abs_set_vch [of bs l] vch by (metis abs_0_eq of_nat_eq_0_iff)
  then show ?thesis by (simp add: vch CastToBool_le_val)
qed simp

text \<open>The format in the comment of \<open>IsValidSignatureEncoding\<close>: integers in shortest positive form.\<close>

definition der_int :: "bytes \<Rightarrow> bool" where
  "der_int v \<longleftrightarrow> v \<noteq> [] \<and> unat (v ! 0) < 128 \<and> (length v > 1 \<and> v ! 0 = 0 \<longrightarrow> 128 \<le> unat (v ! 1))"

definition der_signature :: "bytes \<Rightarrow> bytes \<Rightarrow> byte \<Rightarrow> bytes" where
  "der_signature R S hashtype =
     [0x30, of_nat (length R + length S + 4), 0x02, of_nat (length R)] @ R @ [0x02, of_nat (length S)] @ S @ [hashtype]"

text \<open>A guard that returns \<open>False\<close> is a conjunct.\<close>

lemma guard: "(if c then False else X) \<longleftrightarrow> \<not> c \<and> X"
  by simp

lemma der_signature_valid:
  assumes "der_int R" and "der_int S" and "length R + length S \<le> 66"
  shows "IsValidSignatureEncoding (der_signature R S hashtype)"
proof -
  let ?r = "length R" and ?s = "length S"
  have n: "0 < ?r" "0 < ?s" using assms(1,2) by (auto simp: der_int_def)
  have u: "unat (of_nat ?r :: byte) = ?r" "unat (of_nat ?s :: byte) = ?s" "unat (of_nat (?r + ?s + 4) :: byte) = ?r + ?s + 4"
    using assms(3) by (simp_all add: unat_of_nat del: of_nat_add)
  have R: "der_signature R S hashtype ! (4 + i) = R ! i" if "i < ?r" for i
    using that by (simp add: der_signature_def nth_append)
  have S: "der_signature R S hashtype ! (?r + 6 + i) = S ! i" if "i < ?s" for i
    using that by (simp add: der_signature_def nth_append)
  have i: "der_signature R S hashtype ! (5 + ?r) = of_nat ?s" "der_signature R S hashtype ! (?r + 4) = 0x02"
    by (simp_all add: der_signature_def nth_append)
  have h: "der_signature R S hashtype ! 0 = 0x30" "der_signature R S hashtype ! 1 = of_nat (?r + ?s + 4)"
    "der_signature R S hashtype ! 2 = 0x02" "der_signature R S hashtype ! 3 = of_nat ?r"
    "length (der_signature R S hashtype) = ?r + ?s + 7"
    by (simp_all add: der_signature_def)
  have R01: "der_signature R S hashtype ! 4 = R ! 0" "1 < ?r \<Longrightarrow> der_signature R S hashtype ! 5 = R ! 1"
    "der_signature R S hashtype ! (?r + 6) = S ! 0" "1 < ?s \<Longrightarrow> der_signature R S hashtype ! (?r + 7) = S ! 1"
    using R [of 0] R [of 1] S [of 0] S [of 1] n by (simp_all add: add.commute)
  have c: "\<not> ?r + ?s + 7 < 9" "\<not> 73 < ?r + ?s + 7" "\<not> ?r + ?s + 7 \<le> 5 + ?r" "?r \<noteq> 0" "?s \<noteq> 0"
    "?r + ?s + 4 = ?r + ?s + 7 - 3"
    using n assms(3) by linarith+
  have b: "R ! 0 AND 0x80 = 0" "\<not> (1 < ?r \<and> R ! 0 = 0 \<and> \<not> der_signature R S hashtype ! 5 AND 0x80 \<noteq> 0)"
    "S ! 0 AND 0x80 = 0" "\<not> (1 < ?s \<and> S ! 0 = 0 \<and> \<not> der_signature R S hashtype ! (?r + 7) AND 0x80 \<noteq> 0)"
    using assms(1,2) R01(2,4) unfolding der_int_def byte_and_80 by force+
  show ?thesis
    unfolding IsValidSignatureEncoding_def h i u Let_def R01(1,3)
    by (simp only: guard c b simp_thms) (use b(2,4) in blast)
qed

lemma sig_pieces:
  assumes "r + s + 7 = length (sig :: 'a list)"
  shows "sig = [sig ! 0, sig ! 1, sig ! 2, sig ! 3] @ take r (drop 4 sig) @ [sig ! (r + 4), sig ! (r + 5)]
    @ take s (drop (r + 6) sig) @ [last sig]"
proof -
  have split: "drop k sig = take m (drop k sig) @ drop (k + m) sig" for k m
    by (metis add.commute append_take_drop_id drop_drop)
  have nth: "drop k sig = sig ! k # drop m sig" if "k < length sig" "m = k + 1" for k m
    using that by (simp add: Cons_nth_drop_Suc)
  have n4: "drop 0 sig = sig ! 0 # drop 1 sig" "drop 1 sig = sig ! 1 # drop 2 sig"
    "drop 2 sig = sig ! 2 # drop 3 sig" "drop 3 sig = sig ! 3 # drop 4 sig"
    "drop (r + 4) sig = sig ! (r + 4) # drop (r + 5) sig" "drop (r + 5) sig = sig ! (r + 5) # drop (r + 6) sig"
    by (rule nth; use assms in linarith)+
  have "sig = drop 0 sig" by simp
  also have "\<dots> = [sig ! 0, sig ! 1, sig ! 2, sig ! 3] @ drop 4 sig"
    by (simp only: n4 append_Cons append_Nil)
  also have "drop 4 sig = take r (drop 4 sig) @ drop (r + 4) sig"
    using split [of 4 r] by (simp add: add.commute)
  also have "drop (r + 4) sig = [sig ! (r + 4), sig ! (r + 5)] @ drop (r + 6) sig"
    by (simp only: n4 append_Cons append_Nil)
  also have "drop (r + 6) sig = take s (drop (r + 6) sig) @ drop (r + 6 + s) sig"
    by (rule split)
  also have "drop (r + 6 + s) sig = [last sig]"
  proof -
    have "drop (r + 6 + s) sig = sig ! (r + 6 + s) # drop (r + 6 + s + 1) sig" using assms by (intro nth) simp_all
    moreover have "drop (r + 6 + s + 1) sig = []" using assms by simp
    moreover have "sig \<noteq> []" "length sig - 1 = r + 6 + s" using assms by auto
    ultimately show ?thesis by (simp add: last_conv_nth)
  qed
  finally show ?thesis .
qed

lemma IsValidSignatureEncoding_der:
  assumes v: "IsValidSignatureEncoding sig"
  shows "\<exists>R S hashtype. der_int R \<and> der_int S \<and> length R + length S \<le> 66 \<and> sig = der_signature R S hashtype"
proof -
  define lenR where "lenR = unat (sig ! 3)"
  define lenS where "lenS = unat (sig ! (5 + lenR))"
  note d = v [unfolded IsValidSignatureEncoding_def Let_def guard, folded lenR_def, folded lenS_def]
  have g: "\<not> length sig < 9" "\<not> length sig > 73" "\<not> sig ! 0 \<noteq> 0x30" "\<not> unat (sig ! 1) \<noteq> length sig - 3"
    "\<not> lenR + lenS + 7 \<noteq> length sig" "\<not> sig ! 2 \<noteq> 0x02" "lenR \<noteq> 0" "\<not> sig ! 4 AND 0x80 \<noteq> 0"
    "\<not> (lenR > 1 \<and> sig ! 4 = 0x00 \<and> \<not> sig ! 5 AND 0x80 \<noteq> 0)" "\<not> sig ! (lenR + 4) \<noteq> 0x02" "lenS \<noteq> 0"
    "\<not> sig ! (lenR + 6) AND 0x80 \<noteq> 0"
    "\<not> (lenS > 1 \<and> sig ! (lenR + 6) = 0x00 \<and> \<not> sig ! (lenR + 7) AND 0x80 \<noteq> 0)"
    using d by blast+
  then have len: "9 \<le> length sig" "length sig \<le> 73" "lenR + lenS + 7 = length sig" "0 < lenR" "0 < lenS"
    and h: "sig ! 0 = 0x30" "unat (sig ! 1) = length sig - 3" "sig ! 2 = 0x02" "sig ! (lenR + 4) = 0x02"
    and R: "sig ! 4 AND 0x80 = 0" "lenR > 1 \<and> sig ! 4 = 0 \<longrightarrow> sig ! 5 AND 0x80 \<noteq> 0"
    and S: "sig ! (lenR + 6) AND 0x80 = 0" "lenS > 1 \<and> sig ! (lenR + 6) = 0 \<longrightarrow> sig ! (lenR + 7) AND 0x80 \<noteq> 0"
    by linarith+
  define Rv where "Rv = take lenR (drop 4 sig)"
  define Sv where "Sv = take lenS (drop (lenR + 6) sig)"
  have l: "length Rv = lenR" "length Sv = lenS" using len by (simp_all add: Rv_def Sv_def)
  have n: "sig ! 4 = Rv ! 0" "lenR > 1 \<Longrightarrow> sig ! 5 = Rv ! 1" "sig ! (lenR + 6) = Sv ! 0"
    "lenS > 1 \<Longrightarrow> sig ! (lenR + 7) = Sv ! 1"
    using len by (simp_all add: Rv_def Sv_def add.commute)
  have "der_int Rv" "der_int Sv"
    using R S len l n by (auto simp: der_int_def byte_and_80 not_less)
  moreover have "sig = der_signature Rv Sv (last sig)"
  proof -
    have "sig ! 3 = of_nat lenR" "sig ! (lenR + 5) = of_nat lenS" by (simp_all add: lenR_def lenS_def add.commute)
    moreover have "sig ! 1 = of_nat (lenR + lenS + 4)"
    proof -
      have "unat (sig ! 1) = lenR + lenS + 4" using h(2) len(3) by linarith
      then show ?thesis by (metis of_nat_unat ucast_id)
    qed
    ultimately show ?thesis
      using sig_pieces [OF len(3)] h(1,3,4) unfolding der_signature_def l Rv_def [symmetric] Sv_def [symmetric] by simp
  qed
  ultimately show ?thesis using len l by (intro exI [of _ Rv] exI [of _ Sv] exI [of _ "last sig"]) simp
qed


end
