(* ===== verification/Interpreter.thy ===== *)
theory Interpreter
  imports Script_Checks Hashes "HOL-Library.Sublist"
begin

text \<open>
  The script machine of \<^verbatim>\<open>src/script/interpreter.cpp\<close>: the state of \<open>EvalScript\<close>, one definition per
  group of cases of its switch, the loop that reads and runs operations, and what holds in every
  state it reaches. Errors are the values of \<open>ScriptError\<close>; an exception that the code catches is
  \<open>SCRIPT_ERR_UNKNOWN_ERROR\<close>, as in its handler.
\<close>

section \<open>The state of the machine\<close>

text \<open>
  The interface \<open>BaseSignatureChecker\<close>, with \<open>CPubKey::CheckLowS\<close> of the elliptic curve library.
\<close>

record checker =
  CheckSig :: "bytes \<Rightarrow> bytes \<Rightarrow> CScript \<Rightarrow> bool"
  CheckLockTime :: "int \<Rightarrow> bool"
  CheckSequence :: "int \<Rightarrow> bool"
  CheckLowS :: "bytes \<Rightarrow> bool"

definition BaseSignatureChecker :: "(bytes \<Rightarrow> bool) \<Rightarrow> checker" where
  "BaseSignatureChecker lowS =
     \<lparr>CheckSig = \<lambda>scriptSig vchPubKey scriptCode. False, CheckLockTime = \<lambda>nLockTime. False,
      CheckSequence = \<lambda>nSequence. False, CheckLowS = lowS\<rparr>"

text \<open>
  The local variables of \<open>EvalScript\<close>. The vectors \<open>stack\<close>, \<open>altstack\<close> and \<open>vfExec\<close> are lists with the
  back of the vector first, so \<open>stacktop(-i)\<close> is element \<open>i - 1\<close>.
\<close>

record eval_state =
  stack :: "bytes list"
  altstack :: "bytes list"
  vfExec :: "bool list"
  nOpCount :: nat
  pbegincodehash :: bytes

type_synonym eval_result = "ScriptError + eval_state"

definition vchFalse :: bytes where "vchFalse = []"

definition vchTrue :: bytes where "vchTrue = [1]"

definition bool_vch :: "bool \<Rightarrow> bytes" where
  "bool_vch b = (if b then vchTrue else vchFalse)"

text \<open>The constructor \<open>CScriptNum(vch, fRequireMinimal, n)\<close> inside the \<open>try\<close> block.\<close>

definition stack_num :: "bool \<Rightarrow> nat \<Rightarrow> bytes \<Rightarrow> ScriptError + int" where
  "stack_num fRequireMinimal nMaxNumSize vch =
     (case CScriptNum vch fRequireMinimal nMaxNumSize of Inl e \<Rightarrow> Inl SCRIPT_ERR_UNKNOWN_ERROR | Inr v \<Rightarrow> Inr v)"

section \<open>The operations\<close>

subsection \<open>Values and control\<close>

definition disabled_opcode :: "byte \<Rightarrow> bool" where
  "disabled_opcode opcode \<longleftrightarrow>
     opcode \<in> {OP_CAT, OP_SUBSTR, OP_LEFT, OP_RIGHT, OP_INVERT, OP_AND, OP_OR, OP_XOR, OP_2MUL, OP_2DIV,
       OP_MUL, OP_DIV, OP_MOD, OP_LSHIFT, OP_RSHIFT}"

definition op_push :: "bool \<Rightarrow> byte \<Rightarrow> bytes \<Rightarrow> eval_state \<Rightarrow> eval_result" where
  "op_push fRequireMinimal opcode vchPushValue s =
     (if fRequireMinimal \<and> \<not> CheckMinimalPush vchPushValue opcode then Inl SCRIPT_ERR_MINIMALDATA
      else Inr (s\<lparr>stack := vchPushValue # stack s\<rparr>))"

definition op_small :: "byte \<Rightarrow> eval_state \<Rightarrow> eval_result" where
  "op_small opcode s =
     Inr (s\<lparr>stack := CScriptNum_serialize (uint opcode - (uint OP_1 - 1)) # stack s\<rparr>)"

definition op_nop :: "u32 \<Rightarrow> eval_state \<Rightarrow> eval_result" where
  "op_nop flags s =
     (if flag flags SCRIPT_VERIFY_DISCOURAGE_UPGRADABLE_NOPS then Inl SCRIPT_ERR_DISCOURAGE_UPGRADABLE_NOPS
      else Inr s)"

definition op_checklocktimeverify :: "checker \<Rightarrow> u32 \<Rightarrow> bool \<Rightarrow> eval_state \<Rightarrow> eval_result" where
  "op_checklocktimeverify ck flags fRequireMinimal s =
     (if \<not> flag flags SCRIPT_VERIFY_CHECKLOCKTIMEVERIFY then
        if flag flags SCRIPT_VERIFY_DISCOURAGE_UPGRADABLE_NOPS then Inl SCRIPT_ERR_DISCOURAGE_UPGRADABLE_NOPS
        else Inr s
      else
        case stack s of
          [] \<Rightarrow> Inl SCRIPT_ERR_INVALID_STACK_OPERATION
        | x # _ \<Rightarrow>
            (case stack_num fRequireMinimal 5 x of
               Inl e \<Rightarrow> Inl e
             | Inr nLockTime \<Rightarrow>
                 if nLockTime < 0 then Inl SCRIPT_ERR_NEGATIVE_LOCKTIME
                 else if \<not> CheckLockTime ck nLockTime then Inl SCRIPT_ERR_UNSATISFIED_LOCKTIME
                 else Inr s))"

abbreviation (input) SEQUENCE_LOCKTIME_DISABLE_FLAG :: int where "SEQUENCE_LOCKTIME_DISABLE_FLAG \<equiv> 0x80000000"

definition op_checksequenceverify :: "checker \<Rightarrow> u32 \<Rightarrow> bool \<Rightarrow> eval_state \<Rightarrow> eval_result" where
  "op_checksequenceverify ck flags fRequireMinimal s =
     (if \<not> flag flags SCRIPT_VERIFY_CHECKSEQUENCEVERIFY then
        if flag flags SCRIPT_VERIFY_DISCOURAGE_UPGRADABLE_NOPS then Inl SCRIPT_ERR_DISCOURAGE_UPGRADABLE_NOPS
        else Inr s
      else
        case stack s of
          [] \<Rightarrow> Inl SCRIPT_ERR_INVALID_STACK_OPERATION
        | x # _ \<Rightarrow>
            (case stack_num fRequireMinimal 5 x of
               Inl e \<Rightarrow> Inl e
             | Inr nSequence \<Rightarrow>
                 if nSequence < 0 then Inl SCRIPT_ERR_NEGATIVE_LOCKTIME
                 else if nSequence AND SEQUENCE_LOCKTIME_DISABLE_FLAG \<noteq> 0 then Inr s
                 else if \<not> CheckSequence ck nSequence then Inl SCRIPT_ERR_UNSATISFIED_LOCKTIME
                 else Inr s))"

definition op_if :: "byte \<Rightarrow> bool \<Rightarrow> eval_state \<Rightarrow> eval_result" where
  "op_if opcode fExec s =
     (if fExec then
        case stack s of
          [] \<Rightarrow> Inl SCRIPT_ERR_UNBALANCED_CONDITIONAL
        | vch # r \<Rightarrow>
            let fValue = (if opcode = OP_NOTIF then \<not> CastToBool vch else CastToBool vch)
            in Inr (s\<lparr>stack := r, vfExec := fValue # vfExec s\<rparr>)
      else Inr (s\<lparr>vfExec := False # vfExec s\<rparr>))"

definition op_else :: "eval_state \<Rightarrow> eval_result" where
  "op_else s =
     (case vfExec s of
        [] \<Rightarrow> Inl SCRIPT_ERR_UNBALANCED_CONDITIONAL
      | v # vs \<Rightarrow> Inr (s\<lparr>vfExec := (\<not> v) # vs\<rparr>))"

definition op_endif :: "eval_state \<Rightarrow> eval_result" where
  "op_endif s =
     (case vfExec s of
        [] \<Rightarrow> Inl SCRIPT_ERR_UNBALANCED_CONDITIONAL
      | v # vs \<Rightarrow> Inr (s\<lparr>vfExec := vs\<rparr>))"

definition op_verify :: "eval_state \<Rightarrow> eval_result" where
  "op_verify s =
     (case stack s of
        [] \<Rightarrow> Inl SCRIPT_ERR_INVALID_STACK_OPERATION
      | x # r \<Rightarrow> if CastToBool x then Inr (s\<lparr>stack := r\<rparr>) else Inl SCRIPT_ERR_VERIFY)"

subsection \<open>Stack operations\<close>

definition op_toaltstack :: "eval_state \<Rightarrow> eval_result" where
  "op_toaltstack s =
     (case stack s of
        [] \<Rightarrow> Inl SCRIPT_ERR_INVALID_STACK_OPERATION
      | x # r \<Rightarrow> Inr (s\<lparr>stack := r, altstack := x # altstack s\<rparr>))"

definition op_fromaltstack :: "eval_state \<Rightarrow> eval_result" where
  "op_fromaltstack s =
     (case altstack s of
        [] \<Rightarrow> Inl SCRIPT_ERR_INVALID_ALTSTACK_OPERATION
      | x # r \<Rightarrow> Inr (s\<lparr>stack := x # stack s, altstack := r\<rparr>))"

definition op_2drop :: "eval_state \<Rightarrow> eval_result" where
  "op_2drop s =
     (case stack s of x2 # x1 # r \<Rightarrow> Inr (s\<lparr>stack := r\<rparr>) | _ \<Rightarrow> Inl SCRIPT_ERR_INVALID_STACK_OPERATION)"

definition op_2dup :: "eval_state \<Rightarrow> eval_result" where
  "op_2dup s =
     (case stack s of
        x2 # x1 # r \<Rightarrow> Inr (s\<lparr>stack := x2 # x1 # x2 # x1 # r\<rparr>)
      | _ \<Rightarrow> Inl SCRIPT_ERR_INVALID_STACK_OPERATION)"

definition op_3dup :: "eval_state \<Rightarrow> eval_result" where
  "op_3dup s =
     (case stack s of
        x3 # x2 # x1 # r \<Rightarrow> Inr (s\<lparr>stack := x3 # x2 # x1 # x3 # x2 # x1 # r\<rparr>)
      | _ \<Rightarrow> Inl SCRIPT_ERR_INVALID_STACK_OPERATION)"

definition op_2over :: "eval_state \<Rightarrow> eval_result" where
  "op_2over s =
     (case stack s of
        x4 # x3 # x2 # x1 # r \<Rightarrow> Inr (s\<lparr>stack := x2 # x1 # x4 # x3 # x2 # x1 # r\<rparr>)
      | _ \<Rightarrow> Inl SCRIPT_ERR_INVALID_STACK_OPERATION)"

definition op_2rot :: "eval_state \<Rightarrow> eval_result" where
  "op_2rot s =
     (case stack s of
        x6 # x5 # x4 # x3 # x2 # x1 # r \<Rightarrow> Inr (s\<lparr>stack := x2 # x1 # x6 # x5 # x4 # x3 # r\<rparr>)
      | _ \<Rightarrow> Inl SCRIPT_ERR_INVALID_STACK_OPERATION)"

definition op_2swap :: "eval_state \<Rightarrow> eval_result" where
  "op_2swap s =
     (case stack s of
        x4 # x3 # x2 # x1 # r \<Rightarrow> Inr (s\<lparr>stack := x2 # x1 # x4 # x3 # r\<rparr>)
      | _ \<Rightarrow> Inl SCRIPT_ERR_INVALID_STACK_OPERATION)"

definition op_ifdup :: "eval_state \<Rightarrow> eval_result" where
  "op_ifdup s =
     (case stack s of
        [] \<Rightarrow> Inl SCRIPT_ERR_INVALID_STACK_OPERATION
      | x # r \<Rightarrow> if CastToBool x then Inr (s\<lparr>stack := x # x # r\<rparr>) else Inr s)"

definition op_depth :: "eval_state \<Rightarrow> eval_result" where
  "op_depth s = Inr (s\<lparr>stack := CScriptNum_serialize (int (length (stack s))) # stack s\<rparr>)"

definition op_drop :: "eval_state \<Rightarrow> eval_result" where
  "op_drop s =
     (case stack s of [] \<Rightarrow> Inl SCRIPT_ERR_INVALID_STACK_OPERATION | x # r \<Rightarrow> Inr (s\<lparr>stack := r\<rparr>))"

definition op_dup :: "eval_state \<Rightarrow> eval_result" where
  "op_dup s =
     (case stack s of [] \<Rightarrow> Inl SCRIPT_ERR_INVALID_STACK_OPERATION | x # r \<Rightarrow> Inr (s\<lparr>stack := x # x # r\<rparr>))"

definition op_nip :: "eval_state \<Rightarrow> eval_result" where
  "op_nip s =
     (case stack s of x2 # x1 # r \<Rightarrow> Inr (s\<lparr>stack := x2 # r\<rparr>) | _ \<Rightarrow> Inl SCRIPT_ERR_INVALID_STACK_OPERATION)"

definition op_over :: "eval_state \<Rightarrow> eval_result" where
  "op_over s =
     (case stack s of
        x2 # x1 # r \<Rightarrow> Inr (s\<lparr>stack := x1 # x2 # x1 # r\<rparr>)
      | _ \<Rightarrow> Inl SCRIPT_ERR_INVALID_STACK_OPERATION)"

definition op_pick_roll :: "bool \<Rightarrow> byte \<Rightarrow> eval_state \<Rightarrow> eval_result" where
  "op_pick_roll fRequireMinimal opcode s =
     (if length (stack s) < 2 then Inl SCRIPT_ERR_INVALID_STACK_OPERATION
      else
        case stack_num fRequireMinimal 4 (hd (stack s)) of
          Inl e \<Rightarrow> Inl e
        | Inr v \<Rightarrow>
            let n = CScriptNum_getint v;
                r = tl (stack s)
            in if n < 0 \<or> n \<ge> int (length r) then Inl SCRIPT_ERR_INVALID_STACK_OPERATION
               else
                 let vch = r ! nat n;
                     r' = (if opcode = OP_ROLL then take (nat n) r @ drop (nat n + 1) r else r)
                 in Inr (s\<lparr>stack := vch # r'\<rparr>))"

definition op_rot :: "eval_state \<Rightarrow> eval_result" where
  "op_rot s =
     (case stack s of
        x3 # x2 # x1 # r \<Rightarrow> Inr (s\<lparr>stack := x1 # x3 # x2 # r\<rparr>)
      | _ \<Rightarrow> Inl SCRIPT_ERR_INVALID_STACK_OPERATION)"

definition op_swap :: "eval_state \<Rightarrow> eval_result" where
  "op_swap s =
     (case stack s of
        x2 # x1 # r \<Rightarrow> Inr (s\<lparr>stack := x1 # x2 # r\<rparr>)
      | _ \<Rightarrow> Inl SCRIPT_ERR_INVALID_STACK_OPERATION)"

definition op_tuck :: "eval_state \<Rightarrow> eval_result" where
  "op_tuck s =
     (case stack s of
        x2 # x1 # r \<Rightarrow> Inr (s\<lparr>stack := x2 # x1 # x2 # r\<rparr>)
      | _ \<Rightarrow> Inl SCRIPT_ERR_INVALID_STACK_OPERATION)"

definition op_size :: "eval_state \<Rightarrow> eval_result" where
  "op_size s =
     (case stack s of
        [] \<Rightarrow> Inl SCRIPT_ERR_INVALID_STACK_OPERATION
      | x # r \<Rightarrow> Inr (s\<lparr>stack := CScriptNum_serialize (int (length x)) # x # r\<rparr>))"

definition op_equal :: "byte \<Rightarrow> eval_state \<Rightarrow> eval_result" where
  "op_equal opcode s =
     (case stack s of
        vch2 # vch1 # r \<Rightarrow>
          let fEqual = (vch1 = vch2)
          in if opcode = OP_EQUALVERIFY
             then if fEqual then Inr (s\<lparr>stack := r\<rparr>) else Inl SCRIPT_ERR_EQUALVERIFY
             else Inr (s\<lparr>stack := bool_vch fEqual # r\<rparr>)
      | _ \<Rightarrow> Inl SCRIPT_ERR_INVALID_STACK_OPERATION)"

subsection \<open>Numbers\<close>

definition num_unary :: "byte \<Rightarrow> int \<Rightarrow> int" where
  "num_unary opcode bn =
     (if opcode = OP_1ADD then bn + 1
      else if opcode = OP_1SUB then bn - 1
      else if opcode = OP_NEGATE then - bn
      else if opcode = OP_ABS then if bn < 0 then - bn else bn
      else if opcode = OP_NOT then of_bool (bn = 0)
      else of_bool (bn \<noteq> 0))"

definition op_unary :: "bool \<Rightarrow> byte \<Rightarrow> eval_state \<Rightarrow> eval_result" where
  "op_unary fRequireMinimal opcode s =
     (case stack s of
        [] \<Rightarrow> Inl SCRIPT_ERR_INVALID_STACK_OPERATION
      | x # r \<Rightarrow>
          case stack_num fRequireMinimal 4 x of
            Inl e \<Rightarrow> Inl e
          | Inr bn \<Rightarrow> Inr (s\<lparr>stack := CScriptNum_serialize (num_unary opcode bn) # r\<rparr>))"

definition num_binary :: "byte \<Rightarrow> int \<Rightarrow> int \<Rightarrow> int" where
  "num_binary opcode bn1 bn2 =
     (if opcode = OP_ADD then bn1 + bn2
      else if opcode = OP_SUB then bn1 - bn2
      else if opcode = OP_BOOLAND then of_bool (bn1 \<noteq> 0 \<and> bn2 \<noteq> 0)
      else if opcode = OP_BOOLOR then of_bool (bn1 \<noteq> 0 \<or> bn2 \<noteq> 0)
      else if opcode = OP_NUMEQUAL then of_bool (bn1 = bn2)
      else if opcode = OP_NUMEQUALVERIFY then of_bool (bn1 = bn2)
      else if opcode = OP_NUMNOTEQUAL then of_bool (bn1 \<noteq> bn2)
      else if opcode = OP_LESSTHAN then of_bool (bn1 < bn2)
      else if opcode = OP_GREATERTHAN then of_bool (bn1 > bn2)
      else if opcode = OP_LESSTHANOREQUAL then of_bool (bn1 \<le> bn2)
      else if opcode = OP_GREATERTHANOREQUAL then of_bool (bn1 \<ge> bn2)
      else if opcode = OP_MIN then if bn1 < bn2 then bn1 else bn2
      else if bn1 > bn2 then bn1 else bn2)"

definition op_binary :: "bool \<Rightarrow> byte \<Rightarrow> eval_state \<Rightarrow> eval_result" where
  "op_binary fRequireMinimal opcode s =
     (case stack s of
        x2 # x1 # r \<Rightarrow>
          (case stack_num fRequireMinimal 4 x1 of
             Inl e \<Rightarrow> Inl e
           | Inr bn1 \<Rightarrow>
               case stack_num fRequireMinimal 4 x2 of
                 Inl e \<Rightarrow> Inl e
               | Inr bn2 \<Rightarrow>
                   let vch = CScriptNum_serialize (num_binary opcode bn1 bn2)
                   in if opcode = OP_NUMEQUALVERIFY
                      then if CastToBool vch then Inr (s\<lparr>stack := r\<rparr>) else Inl SCRIPT_ERR_NUMEQUALVERIFY
                      else Inr (s\<lparr>stack := vch # r\<rparr>))
      | _ \<Rightarrow> Inl SCRIPT_ERR_INVALID_STACK_OPERATION)"

definition op_within :: "bool \<Rightarrow> eval_state \<Rightarrow> eval_result" where
  "op_within fRequireMinimal s =
     (case stack s of
        x3 # x2 # x1 # r \<Rightarrow>
          (case stack_num fRequireMinimal 4 x1 of
             Inl e \<Rightarrow> Inl e
           | Inr bn1 \<Rightarrow>
               case stack_num fRequireMinimal 4 x2 of
                 Inl e \<Rightarrow> Inl e
               | Inr bn2 \<Rightarrow>
                   case stack_num fRequireMinimal 4 x3 of
                     Inl e \<Rightarrow> Inl e
                   | Inr bn3 \<Rightarrow> Inr (s\<lparr>stack := bool_vch (bn2 \<le> bn1 \<and> bn1 < bn3) # r\<rparr>))
      | _ \<Rightarrow> Inl SCRIPT_ERR_INVALID_STACK_OPERATION)"

subsection \<open>Hashes and signatures\<close>

definition vch_hash :: "byte \<Rightarrow> bytes \<Rightarrow> bytes" where
  "vch_hash opcode vch =
     (if opcode = OP_RIPEMD160 then fst (CRIPEMD160_Finalize (CRIPEMD160_Write (CRIPEMD160 fresh_buf) vch))
      else if opcode = OP_SHA1 then fst (CSHA1_Finalize (CSHA1_Write (CSHA1 fresh_buf) vch))
      else if opcode = OP_SHA256 then fst (CSHA256_Finalize (CSHA256_Write (CSHA256 fresh_buf) vch))
      else if opcode = OP_HASH160 then fst (CHash160_Finalize fresh_buf (CHash160_Write (CSHA256 fresh_buf) vch))
      else fst (CHash256_Finalize (CHash256_Write (CSHA256 fresh_buf) vch)))"

definition op_hash :: "byte \<Rightarrow> eval_state \<Rightarrow> eval_result" where
  "op_hash opcode s =
     (case stack s of
        [] \<Rightarrow> Inl SCRIPT_ERR_INVALID_STACK_OPERATION
      | vch # r \<Rightarrow> Inr (s\<lparr>stack := vch_hash opcode vch # r\<rparr>))"

definition op_codeseparator :: "bytes \<Rightarrow> eval_state \<Rightarrow> eval_result" where
  "op_codeseparator pc s = Inr (s\<lparr>pbegincodehash := pc\<rparr>)"

text \<open>The encodings of a signature and a key, checked in this order.\<close>

definition check_encodings :: "checker \<Rightarrow> u32 \<Rightarrow> bytes \<Rightarrow> bytes \<Rightarrow> ScriptError option" where
  "check_encodings ck flags vchSig vchPubKey =
     (case CheckSignatureEncoding (CheckLowS ck) vchSig flags of
        Some e \<Rightarrow> Some e
      | None \<Rightarrow> CheckPubKeyEncoding vchPubKey flags)"

definition op_checksig :: "checker \<Rightarrow> u32 \<Rightarrow> byte \<Rightarrow> eval_state \<Rightarrow> eval_result" where
  "op_checksig ck flags opcode s =
     (case stack s of
        vchPubKey # vchSig # r \<Rightarrow>
          let scriptCode = snd (FindAndDelete (pbegincodehash s) (push_data [] vchSig))
          in (case check_encodings ck flags vchSig vchPubKey of
                Some e \<Rightarrow> Inl e
              | None \<Rightarrow>
                  let fSuccess = CheckSig ck vchSig vchPubKey scriptCode
                  in if \<not> fSuccess \<and> flag flags SCRIPT_VERIFY_NULLFAIL \<and> length vchSig > 0
                     then Inl SCRIPT_ERR_SIG_NULLFAIL
                     else if opcode = OP_CHECKSIGVERIFY
                     then if fSuccess then Inr (s\<lparr>stack := r\<rparr>) else Inl SCRIPT_ERR_CHECKSIGVERIFY
                     else Inr (s\<lparr>stack := bool_vch fSuccess # r\<rparr>))
      | _ \<Rightarrow> Inl SCRIPT_ERR_INVALID_STACK_OPERATION)"

text \<open>
  \<open>multisig_loop\<close> is the loop over the signatures and keys that are left, \<open>isig\<close> and \<open>ikey\<close> first;
  \<open>fSuccess\<close> is false as soon as there are more signatures than keys.
\<close>

fun multisig_loop :: "checker \<Rightarrow> u32 \<Rightarrow> CScript \<Rightarrow> bytes list \<Rightarrow> bytes list \<Rightarrow> ScriptError + bool" where
  "multisig_loop ck flags scriptCode [] keys = Inr True"
| "multisig_loop ck flags scriptCode (vchSig # sigs) [] = Inr False"
| "multisig_loop ck flags scriptCode (vchSig # sigs) (vchPubKey # keys) =
     (case check_encodings ck flags vchSig vchPubKey of
        Some e \<Rightarrow> Inl e
      | None \<Rightarrow>
          let sigs' = (if CheckSig ck vchSig vchPubKey scriptCode then sigs else vchSig # sigs)
          in if length sigs' > length keys then Inr False
             else multisig_loop ck flags scriptCode sigs' keys)"

text \<open>The loop \<open>while (i-- > 1)\<close> that pops the arguments; \<open>n\<close> is the number of pops left.\<close>

fun multisig_cleanup :: "bool \<Rightarrow> nat \<Rightarrow> nat \<Rightarrow> bytes list \<Rightarrow> ScriptError + bytes list" where
  "multisig_cleanup nullfail 0 ikey2 stk = Inr stk"
| "multisig_cleanup nullfail (Suc n) ikey2 stk =
     (case stk of
        [] \<Rightarrow> Inl SCRIPT_ERR_UNKNOWN_ERROR
      | x # r \<Rightarrow>
          if nullfail \<and> ikey2 = 0 \<and> length x > 0 then Inl SCRIPT_ERR_SIG_NULLFAIL
          else multisig_cleanup nullfail n (if ikey2 > 0 then ikey2 - 1 else ikey2) r)"

text \<open>What follows the two counts: deleting the signatures from the script code, the loop, the clean-up.\<close>

definition multisig_run :: "checker \<Rightarrow> u32 \<Rightarrow> byte \<Rightarrow> nat \<Rightarrow> nat \<Rightarrow> eval_state \<Rightarrow> eval_result" where
  "multisig_run ck flags opcode nKeysCount nSigsCount s =
     (let keys = take nKeysCount (drop 1 (stack s));
          sigs = take nSigsCount (drop (nKeysCount + 2) (stack s));
          scriptCode = foldl (\<lambda>code vchSig. snd (FindAndDelete code (push_data [] vchSig))) (pbegincodehash s) sigs
      in case multisig_loop ck flags scriptCode sigs keys of
           Inl e \<Rightarrow> Inl e
         | Inr fSuccess \<Rightarrow>
             case multisig_cleanup (\<not> fSuccess \<and> flag flags SCRIPT_VERIFY_NULLFAIL) (nKeysCount + nSigsCount + 2)
               (nKeysCount + 2) (stack s) of
               Inl e \<Rightarrow> Inl e
             | Inr stk \<Rightarrow>
                 case stk of
                   [] \<Rightarrow> Inl SCRIPT_ERR_INVALID_STACK_OPERATION
                 | dummy # r \<Rightarrow>
                     if flag flags SCRIPT_VERIFY_NULLDUMMY \<and> length dummy > 0 then Inl SCRIPT_ERR_SIG_NULLDUMMY
                     else if opcode = OP_CHECKMULTISIGVERIFY
                     then if fSuccess then Inr (s\<lparr>stack := r\<rparr>) else Inl SCRIPT_ERR_CHECKMULTISIGVERIFY
                     else Inr (s\<lparr>stack := bool_vch fSuccess # r\<rparr>))"

definition op_checkmultisig :: "checker \<Rightarrow> u32 \<Rightarrow> bool \<Rightarrow> byte \<Rightarrow> eval_state \<Rightarrow> eval_result" where
  "op_checkmultisig ck flags fRequireMinimal opcode s =
     (if length (stack s) < 1 then Inl SCRIPT_ERR_INVALID_STACK_OPERATION
      else
        case stack_num fRequireMinimal 4 (stack s ! 0) of
          Inl e \<Rightarrow> Inl e
        | Inr v \<Rightarrow>
            let nKeysCount = CScriptNum_getint v
            in if nKeysCount < 0 \<or> nKeysCount > int MAX_PUBKEYS_PER_MULTISIG then Inl SCRIPT_ERR_PUBKEY_COUNT
               else
                 let nKeys = nat nKeysCount;
                     s' = s\<lparr>nOpCount := nOpCount s + nKeys\<rparr>
                 in if nOpCount s' > MAX_OPS_PER_SCRIPT then Inl SCRIPT_ERR_OP_COUNT
                    else if length (stack s') < nKeys + 2 then Inl SCRIPT_ERR_INVALID_STACK_OPERATION
                    else
                      case stack_num fRequireMinimal 4 (stack s' ! (nKeys + 1)) of
                        Inl e \<Rightarrow> Inl e
                      | Inr w \<Rightarrow>
                          let nSigsCount = CScriptNum_getint w
                          in if nSigsCount < 0 \<or> nSigsCount > nKeysCount then Inl SCRIPT_ERR_SIG_COUNT
                             else if length (stack s') < nKeys + 3 + nat nSigsCount then Inl SCRIPT_ERR_INVALID_STACK_OPERATION
                             else multisig_run ck flags opcode nKeys (nat nSigsCount) s')"

section \<open>Running a script\<close>

definition eval_switch :: "checker \<Rightarrow> u32 \<Rightarrow> byte \<Rightarrow> bytes \<Rightarrow> bool \<Rightarrow> eval_state \<Rightarrow> eval_result" where
  "eval_switch ck flags opcode pc fExec s =
     (let fRequireMinimal = flag flags SCRIPT_VERIFY_MINIMALDATA
      in if opcode = OP_1NEGATE \<or> OP_1 \<le> opcode \<and> opcode \<le> OP_16 then op_small opcode s
         else if opcode = OP_NOP then Inr s
         else if opcode = OP_CHECKLOCKTIMEVERIFY then op_checklocktimeverify ck flags fRequireMinimal s
         else if opcode = OP_CHECKSEQUENCEVERIFY then op_checksequenceverify ck flags fRequireMinimal s
         else if opcode \<in> {OP_NOP1, OP_NOP4, OP_NOP5, OP_NOP6, OP_NOP7, OP_NOP8, OP_NOP9, OP_NOP10} then op_nop flags s
         else if opcode = OP_IF \<or> opcode = OP_NOTIF then op_if opcode fExec s
         else if opcode = OP_ELSE then op_else s
         else if opcode = OP_ENDIF then op_endif s
         else if opcode = OP_VERIFY then op_verify s
         else if opcode = OP_RETURN then Inl SCRIPT_ERR_OP_RETURN
         else if opcode = OP_TOALTSTACK then op_toaltstack s
         else if opcode = OP_FROMALTSTACK then op_fromaltstack s
         else if opcode = OP_2DROP then op_2drop s
         else if opcode = OP_2DUP then op_2dup s
         else if opcode = OP_3DUP then op_3dup s
         else if opcode = OP_2OVER then op_2over s
         else if opcode = OP_2ROT then op_2rot s
         else if opcode = OP_2SWAP then op_2swap s
         else if opcode = OP_IFDUP then op_ifdup s
         else if opcode = OP_DEPTH then op_depth s
         else if opcode = OP_DROP then op_drop s
         else if opcode = OP_DUP then op_dup s
         else if opcode = OP_NIP then op_nip s
         else if opcode = OP_OVER then op_over s
         else if opcode = OP_PICK \<or> opcode = OP_ROLL then op_pick_roll fRequireMinimal opcode s
         else if opcode = OP_ROT then op_rot s
         else if opcode = OP_SWAP then op_swap s
         else if opcode = OP_TUCK then op_tuck s
         else if opcode = OP_SIZE then op_size s
         else if opcode = OP_EQUAL \<or> opcode = OP_EQUALVERIFY then op_equal opcode s
         else if opcode \<in> {OP_1ADD, OP_1SUB, OP_NEGATE, OP_ABS, OP_NOT, OP_0NOTEQUAL}
           then op_unary fRequireMinimal opcode s
         else if opcode \<in> {OP_ADD, OP_SUB, OP_BOOLAND, OP_BOOLOR, OP_NUMEQUAL, OP_NUMEQUALVERIFY, OP_NUMNOTEQUAL,
           OP_LESSTHAN, OP_GREATERTHAN, OP_LESSTHANOREQUAL, OP_GREATERTHANOREQUAL, OP_MIN, OP_MAX}
           then op_binary fRequireMinimal opcode s
         else if opcode = OP_WITHIN then op_within fRequireMinimal s
         else if opcode \<in> {OP_RIPEMD160, OP_SHA1, OP_SHA256, OP_HASH160, OP_HASH256} then op_hash opcode s
         else if opcode = OP_CODESEPARATOR then op_codeseparator pc s
         else if opcode = OP_CHECKSIG \<or> opcode = OP_CHECKSIGVERIFY then op_checksig ck flags opcode s
         else if opcode = OP_CHECKMULTISIG \<or> opcode = OP_CHECKMULTISIGVERIFY
           then op_checkmultisig ck flags fRequireMinimal opcode s
         else Inl SCRIPT_ERR_BAD_OPCODE)"

text \<open>One round of the loop: read an operation, check the limits, run it.\<close>

definition eval_step :: "checker \<Rightarrow> u32 \<Rightarrow> bytes \<Rightarrow> eval_state \<Rightarrow> ScriptError + bytes \<times> eval_state" where
  "eval_step ck flags pc s =
     (case GetOp2 pc of (ok, opcode, vchPushValue, pc') \<Rightarrow>
        let fExec = (False \<notin> set (vfExec s));
            s1 = (if opcode > OP_16 then s\<lparr>nOpCount := nOpCount s + 1\<rparr> else s)
        in if \<not> ok then Inl SCRIPT_ERR_BAD_OPCODE
           else if length vchPushValue > MAX_SCRIPT_ELEMENT_SIZE then Inl SCRIPT_ERR_PUSH_SIZE
           else if opcode > OP_16 \<and> nOpCount s1 > MAX_OPS_PER_SCRIPT then Inl SCRIPT_ERR_OP_COUNT
           else if disabled_opcode opcode then Inl SCRIPT_ERR_DISABLED_OPCODE
           else
             case (if fExec \<and> opcode \<le> OP_PUSHDATA4
                   then op_push (flag flags SCRIPT_VERIFY_MINIMALDATA) opcode vchPushValue s1
                   else if fExec \<or> OP_IF \<le> opcode \<and> opcode \<le> OP_ENDIF
                   then eval_switch ck flags opcode pc' fExec s1
                   else Inr s1) of
               Inl e \<Rightarrow> Inl e
             | Inr s2 \<Rightarrow>
                 if length (stack s2) + length (altstack s2) > 1000 then Inl SCRIPT_ERR_STACK_SIZE
                 else Inr (pc', s2))"

lemma eval_step_shorter: "eval_step ck flags pc s = Inr (pc', s') \<Longrightarrow> length pc' < length pc"
  by (auto simp: eval_step_def Let_def dest!: GetOp2_shorter split: prod.splits if_splits sum.splits)

function eval_loop :: "checker \<Rightarrow> u32 \<Rightarrow> bytes \<Rightarrow> eval_state \<Rightarrow> eval_result" where
  "eval_loop ck flags pc s =
     (if pc = [] then Inr s
      else case eval_step ck flags pc s of Inl e \<Rightarrow> Inl e | Inr (pc', s') \<Rightarrow> eval_loop ck flags pc' s')"
  by pat_completeness auto
termination by (relation "measure (\<lambda>(ck, flags, pc, s). length pc)") (auto dest: eval_step_shorter)

declare eval_loop.simps [simp del]

definition eval_init :: "bytes list \<Rightarrow> CScript \<Rightarrow> eval_state" where
  "eval_init stk script = \<lparr>stack = stk, altstack = [], vfExec = [], nOpCount = 0, pbegincodehash = script\<rparr>"

definition EvalScript :: "checker \<Rightarrow> u32 \<Rightarrow> bytes list \<Rightarrow> CScript \<Rightarrow> ScriptError + bytes list" where
  "EvalScript ck flags stk script =
     (if length script > MAX_SCRIPT_SIZE then Inl SCRIPT_ERR_SCRIPT_SIZE
      else
        case eval_loop ck flags script (eval_init stk script) of
          Inl e \<Rightarrow> Inl e
        | Inr s \<Rightarrow> if vfExec s \<noteq> [] then Inl SCRIPT_ERR_UNBALANCED_CONDITIONAL else Inr (stack s))"

section \<open>Every state stays within the limits\<close>

lemma length_abs_bytes: "n < 256 ^ k \<Longrightarrow> length (abs_bytes n) \<le> k"
proof (induction k arbitrary: n)
  case 0
  then show ?case by (simp add: abs_bytes.simps)
next
  case (Suc k)
  then have "n div 256 < 256 ^ k" by (simp add: less_mult_imp_div_less mult.commute)
  then show ?case using Suc.IH [of "n div 256"] by (simp add: abs_bytes.simps [of n])
qed

lemma length_serialize: 
  assumes "\<bar>v\<bar> < 256 ^ k"
  shows "length (CScriptNum_serialize v) \<le> k + 1"
proof -
  define n where "n = nat \<bar>v\<bar>"
  have "n < 256 ^ k" using assms unfolding n_def by (metis abs_ge_zero nat_less_eq_zless nat_power_eq nat_numeral zero_le_numeral)
  then show ?thesis
    using length_abs_bytes [of n k] unfolding CScriptNum_serialize_def n_def [symmetric] by (auto simp: Let_def)
qed

text \<open>Numbers of at most four bytes, and the results of arithmetic on them.\<close>

lemma stack_num_bound:
  assumes "stack_num m 4 x = Inr v"
  shows "\<bar>v\<bar> < 2 ^ 31"
  using assms set_vch_bound [of x 4]
  by (auto simp: stack_num_def CScriptNum_def split: sum.splits if_splits)

lemma num_unary_bound: "\<bar>v\<bar> < 2 ^ 31 \<Longrightarrow> \<bar>num_unary opcode v\<bar> < 256 ^ 4"
  by (auto simp: num_unary_def)

lemma num_binary_bound: "\<bar>v\<bar> < 2 ^ 31 \<Longrightarrow> \<bar>w\<bar> < 2 ^ 31 \<Longrightarrow> \<bar>num_binary opcode v w\<bar> < 256 ^ 4"
  by (auto simp: num_binary_def)

lemma vch_hash_eq [hash_simps]:
  "vch_hash OP_RIPEMD160 vch = ripemd160 vch" "vch_hash OP_SHA1 vch = sha1 vch" "vch_hash OP_SHA256 vch = sha256 vch"
  "vch_hash OP_HASH160 vch = hash160 vch" "vch_hash OP_HASH256 vch = hash256 vch"
  using Hash160_eq [of fresh_buf fresh_buf vch]
  by (simp_all add: vch_hash_def fresh_buf_def Hash160_def sha256.digest1 sha1.digest1 ripemd160.digest1 chash256.digest1)

lemma length_vch_hash:
  "opcode \<in> {OP_RIPEMD160, OP_SHA1, OP_SHA256, OP_HASH160, OP_HASH256} \<Longrightarrow> length (vch_hash opcode vch) \<le> 32"
  by (auto simp: vch_hash_eq sha256.length_H sha1.length_H ripemd160.length_H)

definition sized :: "bytes list \<Rightarrow> bool" where
  "sized stk \<longleftrightarrow> (\<forall>x\<in>set stk. length x \<le> MAX_SCRIPT_ELEMENT_SIZE)"

lemma sized_simps [simp]:
  "sized []" "sized (x # stk) \<longleftrightarrow> length x \<le> MAX_SCRIPT_ELEMENT_SIZE \<and> sized stk"
  "sized (xs @ ys) \<longleftrightarrow> sized xs \<and> sized ys"
  by (auto simp: sized_def)

lemma sized_sub: "sized stk \<Longrightarrow> set stk' \<subseteq> set stk \<Longrightarrow> sized stk'"
  by (auto simp: sized_def)

lemma length_bool_vch [simp]: "length (bool_vch b) \<le> MAX_SCRIPT_ELEMENT_SIZE"
  by (simp add: bool_vch_def vchTrue_def vchFalse_def)

definition within_limits :: "CScript \<Rightarrow> eval_state \<Rightarrow> bool" where
  "within_limits script s \<longleftrightarrow>
     sized (stack s) \<and> sized (altstack s) \<and> nOpCount s \<le> MAX_OPS_PER_SCRIPT
     \<and> length (stack s) + length (altstack s) \<le> 1000 \<and> suffix (pbegincodehash s) script"

text \<open>The same without the bound on the number of elements, which the loop checks after each operation.\<close>

definition sound :: "CScript \<Rightarrow> eval_state \<Rightarrow> bool" where
  "sound script s \<longleftrightarrow>
     sized (stack s) \<and> sized (altstack s) \<and> nOpCount s \<le> MAX_OPS_PER_SCRIPT \<and> suffix (pbegincodehash s) script"

lemmas stack_op_defs = op_small_def op_nop_def op_checklocktimeverify_def op_checksequenceverify_def op_if_def op_else_def
  op_endif_def op_verify_def op_toaltstack_def op_fromaltstack_def op_2drop_def op_2dup_def op_3dup_def op_2over_def
  op_2rot_def op_2swap_def op_ifdup_def op_drop_def op_dup_def op_nip_def op_over_def op_rot_def op_swap_def op_tuck_def
  op_equal_def op_within_def op_hash_def op_codeseparator_def

lemma multisig_cleanup_sized:
  "multisig_cleanup nf n k stk = Inr stk' \<Longrightarrow> sized stk \<Longrightarrow> sized stk'"
  by (induction nf n k stk rule: multisig_cleanup.induct) (auto split: list.splits if_splits)

lemma small_opcode:
  assumes "opcode = OP_1NEGATE \<or> OP_1 \<le> opcode \<and> opcode \<le> OP_16"
  shows "length (CScriptNum_serialize (uint opcode - (uint OP_1 - 1))) \<le> 520"
proof -
  have "\<bar>u - (uint OP_1 - 1)\<bar> < 256 ^ 2" if "0 \<le> u" "u < 256" for u
    using that by (simp add: abs_less_iff)
  then have "\<bar>uint opcode - (uint OP_1 - 1)\<bar> < 256 ^ 2" using uint_lt2p [of opcode] by simp
  then show ?thesis using length_serialize [of _ 2] by fastforce
qed

lemma op_sound:
  assumes "sound script s"
  shows "op_small opcode s = Inr s' \<Longrightarrow> opcode = OP_1NEGATE \<or> OP_1 \<le> opcode \<and> opcode \<le> OP_16 \<Longrightarrow> sound script s'"
    and "op_nop flags s = Inr s' \<Longrightarrow> sound script s'"
    and "op_checklocktimeverify ck flags m s = Inr s' \<Longrightarrow> sound script s'"
    and "op_checksequenceverify ck flags m s = Inr s' \<Longrightarrow> sound script s'"
    and "op_if opcode fExec s = Inr s' \<Longrightarrow> sound script s'"
    and "op_else s = Inr s' \<Longrightarrow> sound script s'"
    and "op_endif s = Inr s' \<Longrightarrow> sound script s'"
    and "op_verify s = Inr s' \<Longrightarrow> sound script s'"
    and "op_toaltstack s = Inr s' \<Longrightarrow> sound script s'"
    and "op_fromaltstack s = Inr s' \<Longrightarrow> sound script s'"
  using assms small_opcode [of opcode]
  by (auto simp: sound_def stack_op_defs Let_def split: if_splits list.splits sum.splits)

lemma stack_op_sound:
  assumes "sound script s"
  shows "op_2drop s = Inr s' \<Longrightarrow> sound script s'"
    and "op_2dup s = Inr s' \<Longrightarrow> sound script s'"
    and "op_3dup s = Inr s' \<Longrightarrow> sound script s'"
    and "op_2over s = Inr s' \<Longrightarrow> sound script s'"
    and "op_2rot s = Inr s' \<Longrightarrow> sound script s'"
    and "op_2swap s = Inr s' \<Longrightarrow> sound script s'"
    and "op_ifdup s = Inr s' \<Longrightarrow> sound script s'"
    and "op_drop s = Inr s' \<Longrightarrow> sound script s'"
    and "op_dup s = Inr s' \<Longrightarrow> sound script s'"
    and "op_nip s = Inr s' \<Longrightarrow> sound script s'"
    and "op_over s = Inr s' \<Longrightarrow> sound script s'"
    and "op_rot s = Inr s' \<Longrightarrow> sound script s'"
    and "op_swap s = Inr s' \<Longrightarrow> sound script s'"
    and "op_tuck s = Inr s' \<Longrightarrow> sound script s'"
    and "op_equal opcode s = Inr s' \<Longrightarrow> sound script s'"
    and "op_within m s = Inr s' \<Longrightarrow> sound script s'"
  using assms
  by (auto simp: sound_def stack_op_defs Let_def split: if_splits list.splits sum.splits)

lemma op_depth_sound:
  assumes "sound script s" and "length (stack s) \<le> 1000" and "op_depth s = Inr s'"
  shows "sound script s'"
  using assms length_serialize [of "int (length (stack s))" 2] by (auto simp: sound_def op_depth_def)

lemma op_size_sound:
  assumes "sound script s" and "op_size s = Inr s'"
  shows "sound script s'"
proof (cases "stack s")
  case (Cons x r)
  then show ?thesis using assms length_serialize [of "int (length x)" 2] by (auto simp: sound_def op_size_def)
qed (use assms in \<open>simp add: op_size_def\<close>)

lemma op_hash_sound:
  assumes "sound script s" and "op_hash opcode s = Inr s'"
    and "opcode \<in> {OP_RIPEMD160, OP_SHA1, OP_SHA256, OP_HASH160, OP_HASH256}"
  shows "sound script s'"
  using assms(1,2) le_trans [OF length_vch_hash [OF assms(3)], of 520] by (auto simp: sound_def op_hash_def split: list.splits)

lemma op_unary_sound:
  assumes "sound script s" and "op_unary m opcode s = Inr s'"
  shows "sound script s'"
proof -
  have "length (CScriptNum_serialize (num_unary opcode v)) \<le> 520" if "stack_num m 4 x = Inr v" for x v
    using length_serialize [OF num_unary_bound [OF stack_num_bound [OF that]], of opcode] by simp
  then show ?thesis
    using assms by (auto simp: sound_def op_unary_def split: list.splits sum.splits)
qed

lemma op_binary_sound:
  assumes "sound script s" and "op_binary m opcode s = Inr s'"
  shows "sound script s'"
proof -
  have "length (CScriptNum_serialize (num_binary opcode v w)) \<le> 520"
    if "stack_num m 4 x = Inr v" and "stack_num m 4 y = Inr w" for x v y w
    using length_serialize [OF num_binary_bound [OF stack_num_bound [OF that(1)] stack_num_bound [OF that(2)]], of opcode]
    by simp
  then show ?thesis
    using assms by (auto simp: sound_def op_binary_def Let_def split: list.splits sum.splits if_splits)
qed

lemma op_pick_roll_sound:
  assumes "sound script s" and "op_pick_roll m opcode s = Inr s'"
  shows "sound script s'"
proof -
  have "sized (tl (stack s))" using assms(1) by (cases "stack s") (auto simp: sound_def)
  moreover have "length (r ! n) \<le> 520 \<and> sized (take n r @ drop (n + 1) r)" if "sized r" "n < length r" for r n
    using that by (auto simp: sized_def dest: in_set_takeD in_set_dropD)
  ultimately show ?thesis
    using assms by (auto simp: sound_def op_pick_roll_def Let_def not_le nat_less_iff split: if_splits sum.splits)
qed

lemma op_checksig_sound:
  assumes "sound script s" and "op_checksig ck flags opcode s = Inr s'"
  shows "sound script s'"
  using assms by (auto simp: sound_def op_checksig_def Let_def split: list.splits option.splits if_splits)

lemma op_checkmultisig_sound:
  assumes "sound script s" and "op_checkmultisig ck flags m opcode s = Inr s'"
  shows "sound script s'"
proof -
  have run: "sound script s'" if "sound script s" and "multisig_run ck flags opcode k n s = Inr s'" for k n s
    using that multisig_cleanup_sized
    by (fastforce simp: sound_def multisig_run_def Let_def split: list.splits sum.splits if_splits)
  obtain k n where "multisig_run ck flags opcode k n (s\<lparr>nOpCount := nOpCount s + k\<rparr>) = Inr s'"
    and "nOpCount s + k \<le> MAX_OPS_PER_SCRIPT"
    using assms(2) by (auto simp: op_checkmultisig_def Let_def split: if_splits sum.splits)
  moreover from this have "sound script (s\<lparr>nOpCount := nOpCount s + k\<rparr>)" using assms(1) by (simp add: sound_def)
  ultimately show ?thesis using run by blast
qed

lemmas switch_sound = op_sound stack_op_sound op_depth_sound op_size_sound op_hash_sound op_unary_sound op_binary_sound
  op_pick_roll_sound op_checksig_sound op_checkmultisig_sound

text \<open>A result keeps \<open>P\<close> if it is an error or a state with \<open>P\<close>.\<close>

definition keeps :: "(eval_state \<Rightarrow> bool) \<Rightarrow> eval_result \<Rightarrow> bool" where
  "keeps P r \<longleftrightarrow> (\<forall>s'. r = Inr s' \<longrightarrow> P s')"

lemma keeps_if: "(c \<Longrightarrow> keeps P a) \<Longrightarrow> keeps P b \<Longrightarrow> keeps P (if c then a else b)"
  by simp

lemma keeps_error: "keeps P (Inl e)"
  by (simp add: keeps_def)

lemma keepsI: "(\<And>s'. r = Inr s' \<Longrightarrow> P s') \<Longrightarrow> keeps P r"
  by (simp add: keeps_def)

lemma eval_switch_keeps:
  assumes "sound script s" and "length (stack s) \<le> 1000" and "suffix pc script"
  shows "keeps (sound script) (eval_switch ck flags opcode pc fExec s)"
proof -
  have nop: "sound script s'" if "Inr s = (Inr s' :: eval_result)" for s'
    using that assms(1) by simp
  have sep: "sound script s'" if "op_codeseparator pc s = Inr s'" for s'
    using that assms(1,3) by (auto simp: sound_def op_codeseparator_def)
  show ?thesis
    unfolding eval_switch_def Let_def
    by (intro keeps_if keeps_error; rule keepsI; erule nop sep op_depth_sound [OF assms(1,2)] switch_sound [OF assms(1)];
        assumption)
qed

lemma GetOp2_suffix: "GetOp2 pc = (True, opcode, vch, pc') \<Longrightarrow> suffix pc' pc"
proof -
  have "suffix (drop n (drop k pc)) (b # pc)" for n k b and pc :: bytes
    using suffix_drop [of "n + k" pc] by (auto intro: suffix_ConsI)
  from this [of _ 0] this [of _ 1] this [of _ 2] this [of _ 4] show "GetOp2 pc = (True, opcode, vch, pc') \<Longrightarrow> suffix pc' pc"
    by (auto simp: GetOp2_def getop_data_def drop_Suc suffix_ConsI split: list.splits if_splits)
qed

lemma eval_step_limits:
  assumes "within_limits script s" and "suffix pc script" and "eval_step ck flags pc s = Inr (pc', s')"
  shows "within_limits script s' \<and> suffix pc' script"
proof -
  obtain opcode vch where g: "GetOp2 pc = (True, opcode, vch, pc')"
    using assms(3) by (auto simp: eval_step_def Let_def split: prod.splits if_splits sum.splits)
  define s1 where "s1 = (if opcode > OP_16 then s\<lparr>nOpCount := nOpCount s + 1\<rparr> else s)"
  define fExec where "fExec = (False \<notin> set (vfExec s))"
  have suf: "suffix pc' script" using GetOp2_suffix [OF g] assms(2) by (rule suffix_order.trans)
  have s1: "sound script s1" "length (stack s1) \<le> 1000" "length vch \<le> MAX_SCRIPT_ELEMENT_SIZE"
    using assms(1,3) g by (auto simp: within_limits_def sound_def s1_def eval_step_def Let_def split: if_splits)
  have push: "sound script s2" if "op_push m opcode vch s1 = Inr s2" for m s2
    using that s1 by (auto simp: op_push_def sound_def split: if_splits)
  have run: "sound script s2" if "eval_switch ck flags opcode pc' fExec s1 = Inr s2" for s2
    using that eval_switch_keeps [OF s1(1,2) suf] by (auto simp: keeps_def)
  have "sound script s'" and "length (stack s') + length (altstack s') \<le> 1000"
    using assms(3) g push run s1(1)
    unfolding eval_step_def g prod.case Let_def s1_def [symmetric] fExec_def [symmetric]
    by (auto split: if_splits sum.splits)
  then show ?thesis using suf by (auto simp: within_limits_def sound_def)
qed

text \<open>The states that the loop passes through, each with the script that is left.\<close>

inductive eval_reach :: "checker \<Rightarrow> u32 \<Rightarrow> bytes list \<Rightarrow> CScript \<Rightarrow> bytes \<Rightarrow> eval_state \<Rightarrow> bool"
  for ck flags stk script where
  start: "length script \<le> MAX_SCRIPT_SIZE \<Longrightarrow> eval_reach ck flags stk script script (eval_init stk script)"
| step: "eval_reach ck flags stk script pc s \<Longrightarrow> pc \<noteq> [] \<Longrightarrow> eval_step ck flags pc s = Inr (pc', s')
    \<Longrightarrow> eval_reach ck flags stk script pc' s'"

lemma eval_reach_loop:
  assumes "eval_reach ck flags stk script pc s" and "eval_loop ck flags pc s = Inr s'"
  shows "eval_reach ck flags stk script [] s'"
  using assms
proof (induction ck flags pc s rule: eval_loop.induct)
  case (1 ck flags pc s)
  show ?case
  proof (cases "pc = []")
    case True
    then show ?thesis using 1(2,3) by (simp add: eval_loop.simps)
  next
    case False
    then obtain pc1 s1 where st: "eval_step ck flags pc s = Inr (pc1, s1)" and "eval_loop ck flags pc1 s1 = Inr s'"
      using 1(3) by (auto simp: eval_loop.simps [of ck flags pc] split: sum.splits)
    then show ?thesis using 1(1) [OF False st refl] eval_reach.step [OF 1(2) False st] by simp
  qed
qed

lemma EvalScript_reach:
  assumes "EvalScript ck flags stk script = Inr stk'"
  obtains s where "eval_reach ck flags stk script [] s" and "stack s = stk'" and "vfExec s = []"
proof -
  obtain s where l: "eval_loop ck flags script (eval_init stk script) = Inr s" "length script \<le> MAX_SCRIPT_SIZE"
    "stack s = stk'" "vfExec s = []"
    using assms by (auto simp: EvalScript_def split: if_splits sum.splits)
  then show ?thesis using that eval_reach_loop [OF eval_reach.start [OF l(2)] l(1)] by blast
qed

lemma eval_reach_limits:
  assumes "eval_reach ck flags stk script pc s" and "sized stk" and "length stk \<le> 1000"
  shows "within_limits script s \<and> suffix pc script"
  using assms
proof (induction rule: eval_reach.induct)
  case start
  then show ?case by (simp add: within_limits_def eval_init_def)
next
  case (step pc s pc' s')
  then show ?case using eval_step_limits by blast
qed

lemma EvalScript_limits:
  assumes "EvalScript ck flags stk script = Inr stk'" and "sized stk" and "length stk \<le> 1000"
  shows "sized stk' \<and> length stk' \<le> 1000"
  using EvalScript_reach [OF assms(1)] eval_reach_limits [OF _ assms(2,3)] by (metis within_limits_def add_leD1)

section \<open>Multi-signature checks\<close>

text \<open>
  \<open>CheckSig\<close> holds along some increasing choice of keys, one per signature.
\<close>

definition matching :: "checker \<Rightarrow> CScript \<Rightarrow> bytes list \<Rightarrow> bytes list \<Rightarrow> bool" where
  "matching ck code sigs keys \<longleftrightarrow>
     (\<exists>ks. subseq ks keys \<and> list_all2 (\<lambda>vchSig vchPubKey. CheckSig ck vchSig vchPubKey code) sigs ks)"

lemma matching_Nil [simp]: "matching ck code [] keys"
  by (auto simp: matching_def)

lemma matching_length: "matching ck code sigs keys \<Longrightarrow> length sigs \<le> length keys"
  by (auto simp: matching_def dest!: list_all2_lengthD list_emb_length)

lemma matching_Cons:
  "matching ck code (s # sigs) (k # keys) \<longleftrightarrow>
     (if CheckSig ck s k code then matching ck code sigs keys else matching ck code (s # sigs) keys)"
proof -
  have unfold: "matching ck code (s # sigs) ks \<longleftrightarrow>
    (\<exists>k1 ks'. subseq (k1 # ks') ks \<and> CheckSig ck s k1 code \<and> list_all2 (\<lambda>s k. CheckSig ck s k code) sigs ks')" for ks
    unfolding matching_def list_all2_Cons1 by auto
  have sub: "subseq (k1 # ks') (k # keys) \<longleftrightarrow> k1 = k \<and> subseq ks' keys \<or> subseq (k1 # ks') keys" for k1 ks'
    using subseq_Cons' [of k1 ks' keys] by (auto simp: subseq_Cons2_iff)
  have drop: "matching ck code sigs keys" if "matching ck code (s # sigs) keys"
    using that unfolding unfold unfolding matching_def by (metis subseq_Cons')
  have "matching ck code (s # sigs) (k # keys) \<longleftrightarrow>
    CheckSig ck s k code \<and> matching ck code sigs keys \<or> matching ck code (s # sigs) keys"
    unfolding unfold sub unfolding matching_def by auto
  then show ?thesis using drop by auto
qed

lemma multisig_loop_matching:
  assumes "\<forall>vchSig\<in>set sigs. \<forall>vchPubKey\<in>set keys. check_encodings ck flags vchSig vchPubKey = None"
  shows "multisig_loop ck flags code sigs keys = Inr (matching ck code sigs keys)"
  using assms
proof (induction ck flags code sigs keys rule: multisig_loop.induct)
  case (2 ck flags code vchSig sigs)
  then show ?case using matching_length [of ck code "vchSig # sigs" "[]"] by auto
next
  case (3 ck flags code vchSig sigs vchPubKey keys)
  define sigs' where "sigs' = (if CheckSig ck vchSig vchPubKey code then sigs else vchSig # sigs)"
  have "multisig_loop ck flags code (vchSig # sigs) (vchPubKey # keys) =
    (if length sigs' > length keys then Inr False else multisig_loop ck flags code sigs' keys)"
    using 3(2) by (simp add: sigs'_def)
  moreover have "multisig_loop ck flags code sigs' keys = Inr (matching ck code sigs' keys)"
    if "\<not> length sigs' > length keys"
    using 3(1) [OF _ sigs'_def that] 3(2) by (auto simp: sigs'_def split: if_splits)
  moreover have "matching ck code (vchSig # sigs) (vchPubKey # keys) = matching ck code sigs' keys"
    by (simp add: matching_Cons sigs'_def)
  ultimately show ?case using matching_length [of ck code sigs' keys] by auto
qed simp

text \<open>The clean-up pops the counts and keys \<open>a\<close> without a check and the signatures \<open>b\<close> with one.\<close>

lemma multisig_cleanup_sigs:
  "multisig_cleanup nullfail (length b) 0 (b @ r) =
     (if nullfail \<and> (\<exists>x\<in>set b. x \<noteq> []) then Inl SCRIPT_ERR_SIG_NULLFAIL else Inr r)"
  by (induction b) auto

lemma multisig_cleanup_args:
  "multisig_cleanup nullfail (length a + length b) (length a) (a @ b @ r) =
     (if nullfail \<and> (\<exists>x\<in>set b. x \<noteq> []) then Inl SCRIPT_ERR_SIG_NULLFAIL else Inr r)"
proof (induction a)
  case Nil
  then show ?case using multisig_cleanup_sigs by simp
qed simp

lemma stack_num_serialize:
  assumes "\<bar>v\<bar> < 256 ^ 3"
  shows "stack_num m 4 (CScriptNum_serialize v) = Inr v"
  using length_serialize [OF assms]
  by (simp add: stack_num_def CScriptNum_def serialize_minimal set_vch_serialize)

definition multisig_code :: "eval_state \<Rightarrow> bytes list \<Rightarrow> CScript" where
  "multisig_code s sigs = foldl (\<lambda>code vchSig. snd (FindAndDelete code (push_data [] vchSig))) (pbegincodehash s) sigs"

lemma multisig_run_args:
  assumes st: "stack s = kn # keys @ sn # sigs @ dummy # r"
    and enc: "\<forall>vchSig\<in>set sigs. \<forall>vchPubKey\<in>set keys. check_encodings ck flags vchSig vchPubKey = None"
  shows "multisig_run ck flags opcode (length keys) (length sigs) s =
    (let fSuccess = matching ck (multisig_code s sigs) sigs keys
     in if \<not> fSuccess \<and> flag flags SCRIPT_VERIFY_NULLFAIL \<and> (\<exists>x\<in>set sigs. x \<noteq> []) then Inl SCRIPT_ERR_SIG_NULLFAIL
        else if flag flags SCRIPT_VERIFY_NULLDUMMY \<and> dummy \<noteq> [] then Inl SCRIPT_ERR_SIG_NULLDUMMY
        else if opcode = OP_CHECKMULTISIGVERIFY
        then if fSuccess then Inr (s\<lparr>stack := r\<rparr>) else Inl SCRIPT_ERR_CHECKMULTISIGVERIFY
        else Inr (s\<lparr>stack := bool_vch fSuccess # r\<rparr>))"
proof -
  have args: "take (length keys) (drop 1 (stack s)) = keys"
    "take (length sigs) (drop (length keys + 2) (stack s)) = sigs"
    by (simp_all add: st)
  have clean: "multisig_cleanup nf (length keys + length sigs + 2) (length keys + 2) (stack s) =
    (if nf \<and> (\<exists>x\<in>set sigs. x \<noteq> []) then Inl SCRIPT_ERR_SIG_NULLFAIL else Inr (dummy # r))" for nf
    using multisig_cleanup_args [of nf "kn # keys @ [sn]" sigs "dummy # r"] by (simp add: st)
  show ?thesis
    unfolding multisig_run_def Let_def args clean multisig_code_def [symmetric] multisig_loop_matching [OF enc]
    by simp
qed

text \<open>
  C6. \<open>OP_CHECKMULTISIG\<close> on \<open>n\<close> keys and \<open>m \<le> n\<close> signatures in valid encodings succeeds exactly when the
  signatures, in their order, verify under \<open>m\<close> of the keys in their order: the greedy loop that drops a key
  after each comparison misses no such choice. The result replaces all the arguments and the extra
  dummy element; with the flags for it, a failure with a signature that is not empty and a dummy that is
  not empty are errors.
\<close>

theorem op_checkmultisig_matching:
  assumes "stack s = CScriptNum_serialize (int (length keys)) # keys @ CScriptNum_serialize (int (length sigs)) # sigs @ dummy # r"
    and "length sigs \<le> length keys" and "length keys \<le> MAX_PUBKEYS_PER_MULTISIG"
    and "nOpCount s + length keys \<le> MAX_OPS_PER_SCRIPT"
    and "\<forall>vchSig\<in>set sigs. \<forall>vchPubKey\<in>set keys. check_encodings ck flags vchSig vchPubKey = None"
  shows "op_checkmultisig ck flags fRequireMinimal opcode s =
    (let fSuccess = matching ck (multisig_code s sigs) sigs keys;
         s' = s\<lparr>nOpCount := nOpCount s + length keys\<rparr>
     in if \<not> fSuccess \<and> flag flags SCRIPT_VERIFY_NULLFAIL \<and> (\<exists>x\<in>set sigs. x \<noteq> []) then Inl SCRIPT_ERR_SIG_NULLFAIL
        else if flag flags SCRIPT_VERIFY_NULLDUMMY \<and> dummy \<noteq> [] then Inl SCRIPT_ERR_SIG_NULLDUMMY
        else if opcode = OP_CHECKMULTISIGVERIFY
        then if fSuccess then Inr (s'\<lparr>stack := r\<rparr>) else Inl SCRIPT_ERR_CHECKMULTISIGVERIFY
        else Inr (s'\<lparr>stack := bool_vch fSuccess # r\<rparr>))"
proof -
  let ?s = "s\<lparr>nOpCount := nOpCount s + length keys\<rparr>"
  have num: "stack_num m 4 (CScriptNum_serialize (int n)) = Inr (int n)" "CScriptNum_getint (int n) = int n"
    if "n \<le> 20" for m n
    using that stack_num_serialize [of "int n"] by (simp_all add: CScriptNum_getint_def)
  have at: "stack s ! 0 = CScriptNum_serialize (int (length keys))"
    "stack s ! (length keys + 1) = CScriptNum_serialize (int (length sigs))"
    "length (stack s) = length keys + length sigs + 3 + length r"
    by (simp_all add: assms(1) nth_append)
  have "op_checkmultisig ck flags fRequireMinimal opcode s =
    multisig_run ck flags opcode (length keys) (length sigs) ?s"
    using assms(2-4) num [of "length keys"] num [of "length sigs"] at(3)
    unfolding op_checkmultisig_def at(1) by (simp add: Let_def at(2) [unfolded One_nat_def add_Suc_right add_0_right])
  also have "\<dots> = (let fSuccess = matching ck (multisig_code ?s sigs) sigs keys
     in if \<not> fSuccess \<and> flag flags SCRIPT_VERIFY_NULLFAIL \<and> (\<exists>x\<in>set sigs. x \<noteq> []) then Inl SCRIPT_ERR_SIG_NULLFAIL
        else if flag flags SCRIPT_VERIFY_NULLDUMMY \<and> dummy \<noteq> [] then Inl SCRIPT_ERR_SIG_NULLDUMMY
        else if opcode = OP_CHECKMULTISIGVERIFY
        then if fSuccess then Inr (?s\<lparr>stack := r\<rparr>) else Inl SCRIPT_ERR_CHECKMULTISIGVERIFY
        else Inr (?s\<lparr>stack := bool_vch fSuccess # r\<rparr>))"
    by (rule multisig_run_args) (use assms(1,5) in simp_all)
  finally show ?thesis by (simp add: multisig_code_def Let_def)
qed

theorem op_checkmultisig_matching_witness:
  "let ck = \<lparr>CheckSig = \<lambda>sig key code. sig = key, CheckLockTime = \<lambda>_. False, CheckSequence = \<lambda>_. False, CheckLowS = \<lambda>_. True\<rparr>;
       s = (eval_init ([3] # [[1], [2], [3]] @ [2] # [[1], [3]] @ [[]]) [])
   in op_checkmultisig ck 0 True OP_CHECKMULTISIG s = Inr (s\<lparr>nOpCount := 3, stack := [vchTrue]\<rparr>)"
proof -
  define ck where "ck = \<lparr>CheckSig = \<lambda>sig key (code :: CScript). (sig :: bytes) = key, CheckLockTime = \<lambda>_. False,
    CheckSequence = \<lambda>_. False, CheckLowS = \<lambda>_. True\<rparr>"
  define s where "s = eval_init ([3] # [[1], [2], [3]] @ [2] # [[1], [3]] @ [[]]) []"
  have num: "CScriptNum_serialize 3 = [3]" "CScriptNum_serialize 2 = [2]" by code_simp+
  have "subseq [[1], [3]] [[1], [2], [3 :: byte]]" by simp
  then have "matching ck code [[1], [3]] [[1], [2], [3]]" for code
    unfolding matching_def by (intro exI [of _ "[[1], [3]]"]) (simp add: ck_def)
  moreover have "check_encodings ck 0 sig key = None" for sig key
    by (simp add: check_encodings_def CheckSignatureEncoding_def CheckPubKeyEncoding_def flag_def)
  ultimately have "op_checkmultisig ck 0 True OP_CHECKMULTISIG s = Inr (s\<lparr>nOpCount := 3, stack := [vchTrue]\<rparr>)"
    using op_checkmultisig_matching [of s "[[1], [2], [3]]" "[[1], [3]]" "[]" "[]" ck 0 True OP_CHECKMULTISIG]
    by (simp add: s_def eval_init_def num bool_vch_def flag_def)
  then show ?thesis by (simp add: ck_def s_def Let_def)
qed

text \<open>
  C2. Every state of every run of \<open>EvalScript\<close> that starts with at most 1000 elements of at most 520 bytes
  is within the limits: at most 1000 elements on both stacks together after each operation, none longer than
  520 bytes, at most 201 counted operations, and the iterators \<open>pc\<close> and \<open>pbegincodehash\<close> point into the script.
  The stack that a successful run leaves is that of such a state.
\<close>

theorem EvalScript_within_limits:
  assumes "sized stk" and "length stk \<le> 1000"
  shows "(\<forall>pc s. eval_reach ck flags stk script pc s \<longrightarrow> within_limits script s \<and> suffix pc script)
    \<and> (\<forall>stk'. EvalScript ck flags stk script = Inr stk' \<longrightarrow>
         (\<exists>s. eval_reach ck flags stk script [] s \<and> stack s = stk' \<and> within_limits script s))"
proof (intro conjI allI impI)
  fix pc s
  assume "eval_reach ck flags stk script pc s"
  from eval_reach_limits [OF this assms] show "within_limits script s" "suffix pc script" by simp_all
next
  fix stk'
  assume "EvalScript ck flags stk script = Inr stk'"
  then obtain s where "eval_reach ck flags stk script [] s" and "stack s = stk'" by (rule EvalScript_reach)
  then show "\<exists>s. eval_reach ck flags stk script [] s \<and> stack s = stk' \<and> within_limits script s"
    using eval_reach_limits [OF _ assms] by blast
qed

theorem EvalScript_within_limits_witness:
  "sized [[1]] \<and> length [[1 :: byte]] \<le> 1000
   \<and> EvalScript (BaseSignatureChecker (\<lambda>_. True)) 0 [[1]] [OP_DUP] = Inr [[1], [1]]
   \<and> (\<exists>s. stack s = [[1], [1]] \<and> within_limits [OP_DUP] s)"
proof -
  have run: "EvalScript (BaseSignatureChecker (\<lambda>_. True)) 0 [[1]] [OP_DUP] = Inr [[1], [1]]"
    by code_simp
  have "\<exists>s. eval_reach (BaseSignatureChecker (\<lambda>_. True)) 0 [[1]] [OP_DUP] [] s \<and> stack s = [[1], [1]] \<and> within_limits [OP_DUP] s"
    using EvalScript_within_limits [of "[[1]]" "BaseSignatureChecker (\<lambda>_. True)" 0 "[OP_DUP]"] run by simp
  then show ?thesis using run by auto
qed

end
