(* ===== verification/Transaction.thy ===== *)
theory Transaction
  imports Serialize Script Hashes
begin

text \<open>
  Transactions, after \<^verbatim>\<open>src/primitives/transaction.h\<close>, \<^verbatim>\<open>src/primitives/transaction.cpp\<close>, \<^verbatim>\<open>src/amount.h\<close> and
  \<^verbatim>\<open>src/amount.cpp\<close>: outpoints, inputs, outputs and whole transactions with their serialisation and
  hash, amounts and fee rates. A hash is the list of its 32 bytes, an amount an integer with the 64-bit
  wrap-around written out where the code adds or multiplies, and the version the 32-bit pattern of the field.
\<close>

section \<open>Amounts\<close>

type_synonym CAmount = int

definition int64 :: "int \<Rightarrow> int" where
  "int64 n = sint (word_of_int n :: u64)"

definition COIN :: CAmount where
  "COIN = 100000000"

definition MAX_MONEY :: CAmount where
  "MAX_MONEY = 666000000 * COIN"

definition MoneyRange :: "CAmount \<Rightarrow> bool" where
  "MoneyRange nValue \<longleftrightarrow> nValue \<ge> 0 \<and> nValue \<le> MAX_MONEY"

text \<open>
  Fee rates. The division of C++ rounds towards zero; \<open>None\<close> is a failed assertion.
\<close>

definition cdiv :: "int \<Rightarrow> int \<Rightarrow> int" where
  "cdiv a b = sgn a * sgn b * (\<bar>a\<bar> div \<bar>b\<bar>)"

definition CFeeRate :: "CAmount \<Rightarrow> nat \<Rightarrow> int option" where
  "CFeeRate nFeePaid nBytes =
     (if nBytes < 2 ^ 63
      then Some (if 0 < nBytes then cdiv (int64 (nFeePaid * 1000)) (int nBytes) else 0)
      else None)"

definition GetFee :: "int \<Rightarrow> nat \<Rightarrow> CAmount option" where
  "GetFee nSatoshisPerK nBytes =
     (if nBytes < 2 ^ 63
      then
        let nSize = int nBytes;
            nFee = cdiv (int64 (nSatoshisPerK * nSize)) 1000
        in Some (if nFee = 0 \<and> nSize \<noteq> 0
                 then if nSatoshisPerK > 0 then 1 else if nSatoshisPerK < 0 then - 1 else nFee
                 else nFee)
      else None)"

section \<open>Data\<close>

type_synonym uint256 = bytes

abbreviation (input) SEQUENCE_FINAL :: u32 where "SEQUENCE_FINAL \<equiv> 0xffffffff"
abbreviation (input) CURRENT_VERSION :: u32 where "CURRENT_VERSION \<equiv> 2"
abbreviation (input) SER_NETWORK :: u32 where "SER_NETWORK \<equiv> 1"
abbreviation (input) SER_DISK :: u32 where "SER_DISK \<equiv> 2"
abbreviation (input) SER_GETHASH :: u32 where "SER_GETHASH \<equiv> 4"

definition uint256_null :: uint256 where
  "uint256_null = replicate 32 0"

record COutPoint =
  out_hash :: uint256
  out_n :: u32

record CTxIn =
  prevout :: COutPoint
  scriptSig :: CScript
  nSequence :: u32

record CTxOut =
  nValue :: CAmount
  scriptPubKey :: CScript
  nRounds :: int

record CTransaction =
  nVersion :: u32
  vin :: "CTxIn list"
  vout :: "CTxOut list"
  nLockTime :: u32

definition COutPoint_null :: COutPoint where
  "COutPoint_null = \<lparr>out_hash = uint256_null, out_n = - 1\<rparr>"

definition COutPoint_IsNull :: "COutPoint \<Rightarrow> bool" where
  "COutPoint_IsNull p \<longleftrightarrow> out_hash p = uint256_null \<and> out_n p = - 1"

definition CTxOut_null :: CTxOut where
  "CTxOut_null = \<lparr>nValue = - 1, scriptPubKey = [], nRounds = - 10\<rparr>"

definition CTxOut_IsNull :: "CTxOut \<Rightarrow> bool" where
  "CTxOut_IsNull out \<longleftrightarrow> nValue out = - 1"

definition IsCoinBase :: "CTransaction \<Rightarrow> bool" where
  "IsCoinBase tx \<longleftrightarrow> length (vin tx) = 1 \<and> COutPoint_IsNull (prevout (vin tx ! 0))"

definition CTransaction_IsNull :: "CTransaction \<Rightarrow> bool" where
  "CTransaction_IsNull tx \<longleftrightarrow> vin tx = [] \<and> vout tx = []"

text \<open>The sum of the outputs: \<open>None\<close> is the exception. The running sum is a 64-bit integer.\<close>

fun value_out :: "CAmount \<Rightarrow> CTxOut list \<Rightarrow> CAmount option" where
  "value_out nValueOut [] = Some nValueOut"
| "value_out nValueOut (it # outs) =
     (let nValueOut' = int64 (nValueOut + nValue it)
      in if \<not> MoneyRange (nValue it) \<or> \<not> MoneyRange nValueOut' then None else value_out nValueOut' outs)"

definition GetValueOut :: "CTransaction \<Rightarrow> CAmount option" where
  "GetValueOut tx = value_out 0 (vout tx)"

section \<open>Serialisation\<close>

definition COutPoint_Serialize :: "COutPoint \<Rightarrow> bytes" where
  "COutPoint_Serialize p = out_hash p @ ser_writedata32 (out_n p)"

definition COutPoint_Unserialize :: "COutPoint reader" where
  "COutPoint_Unserialize s =
     bind_result (ser_read 32 s) (\<lambda>(h, s).
     bind_result (ser_readdata32 s) (\<lambda>(n, s). Inr (\<lparr>out_hash = h, out_n = n\<rparr>, s)))"

definition CTxIn_Serialize :: "CTxIn \<Rightarrow> bytes" where
  "CTxIn_Serialize i = COutPoint_Serialize (prevout i) @ Serialize_bytes (scriptSig i) @ ser_writedata32 (nSequence i)"

definition CTxIn_Unserialize :: "CTxIn reader" where
  "CTxIn_Unserialize s =
     bind_result (COutPoint_Unserialize s) (\<lambda>(p, s).
     bind_result (Unserialize_bytes s) (\<lambda>(sc, s).
     bind_result (ser_readdata32 s) (\<lambda>(q, s). Inr (\<lparr>prevout = p, scriptSig = sc, nSequence = q\<rparr>, s))))"

text \<open>
  Serialising an output asks the service databases and the chain, which are the argument \<open>env\<close>: when
  the data of an \<open>OP_RETURN\<close> output may be dropped, and the median time of the tip of the active chain
  if there is one.
\<close>

record prune_env =
  GetTimeToPrune :: "CScript \<Rightarrow> u64 option"
  TipMedianTimePast :: "u64 option"

definition IsSysServiceExpired :: "prune_env \<Rightarrow> u64 \<Rightarrow> bool" where
  "IsSysServiceExpired env nTime =
     (case TipMedianTimePast env of None \<Rightarrow> False | Some t \<Rightarrow> t \<ge> nTime)"

definition CTxOut_script :: "prune_env \<Rightarrow> u32 \<Rightarrow> CScript \<Rightarrow> CScript" where
  "CTxOut_script env nType spk =
     (case (if IsUnspendable spk then GetTimeToPrune env spk else None) of
        Some nTime \<Rightarrow> if nType AND SER_GETHASH \<noteq> 0 \<or> IsSysServiceExpired env nTime then [OP_RETURN] else spk
      | None \<Rightarrow> spk)"

definition CTxOut_Serialize :: "prune_env \<Rightarrow> u32 \<Rightarrow> CTxOut \<Rightarrow> bytes" where
  "CTxOut_Serialize env nType out =
     ser_writedata64 (word_of_int (nValue out)) @ Serialize_bytes (CTxOut_script env nType (scriptPubKey out))"

text \<open>The reader starts from a fresh output, whose empty script is not unspendable.\<close>

definition CTxOut_Unserialize :: "CTxOut reader" where
  "CTxOut_Unserialize s =
     bind_result (ser_readdata64 s) (\<lambda>(v, s).
     bind_result (Unserialize_bytes s) (\<lambda>(sc, s). Inr (\<lparr>nValue = sint v, scriptPubKey = sc, nRounds = - 10\<rparr>, s)))"

text \<open>\<open>sizeofTxIn\<close> and \<open>sizeofTxOut\<close> are the sizes of the C++ objects, which bound how much a reader allocates at a time.\<close>

definition CTransaction_Serialize :: "prune_env \<Rightarrow> u32 \<Rightarrow> CTransaction \<Rightarrow> bytes" where
  "CTransaction_Serialize env nType tx =
     ser_writedata32 (nVersion tx) @ Serialize_vec CTxIn_Serialize (vin tx)
     @ Serialize_vec (CTxOut_Serialize env nType) (vout tx) @ ser_writedata32 (nLockTime tx)"

definition CMutableTransaction_Unserialize :: "nat \<Rightarrow> nat \<Rightarrow> CTransaction reader" where
  "CMutableTransaction_Unserialize sizeofTxIn sizeofTxOut s =
     bind_result (ser_readdata32 s) (\<lambda>(ver, s).
     bind_result (Unserialize_vec CTxIn_Unserialize sizeofTxIn s) (\<lambda>(ins, s).
     bind_result (Unserialize_vec CTxOut_Unserialize sizeofTxOut s) (\<lambda>(outs, s).
     bind_result (ser_readdata32 s) (\<lambda>(lt, s).
       Inr (\<lparr>nVersion = ver, vin = ins, vout = outs, nLockTime = lt\<rparr>, s)))))"

text \<open>
  \<open>SerializeHash\<close> streams the serialisation into a \<open>CHashWriter\<close>; how it is cut into writes does not
  matter to the digest. The buffer of the writer is uninitialised memory, the argument \<open>buf0\<close>.
\<close>

definition SerializeHash :: "bytes \<Rightarrow> bytes \<Rightarrow> uint256" where
  "SerializeHash buf0 obj = CHashWriter_GetHash (CHashWriter_write (CSHA256 buf0) obj)"

definition ComputeHash :: "bytes \<Rightarrow> prune_env \<Rightarrow> CTransaction \<Rightarrow> uint256" where
  "ComputeHash buf0 env tx = SerializeHash buf0 (CTransaction_Serialize env SER_GETHASH tx)"

definition GetTotalSize :: "prune_env \<Rightarrow> CTransaction \<Rightarrow> nat" where
  "GetTotalSize env tx = length (CTransaction_Serialize env SER_NETWORK tx)"

definition modified_size_step :: "u32 \<Rightarrow> CTxIn \<Rightarrow> u32" where
  "modified_size_step nTxSize it =
     (let offset = 41 + min 110 (of_nat (length (scriptSig it)))
      in if nTxSize > offset then nTxSize - offset else nTxSize)"

definition CalculateModifiedSize :: "prune_env \<Rightarrow> CTransaction \<Rightarrow> u32 \<Rightarrow> u32" where
  "CalculateModifiedSize env tx nTxSize =
     foldl modified_size_step
       (if nTxSize = 0 then of_nat (length (CTransaction_Serialize env SER_NETWORK tx)) else nTxSize) (vin tx)"

text \<open>Dust: \<open>None\<close> is the failed assertion of \<open>GetFee\<close>.\<close>

definition GetDustThreshold :: "prune_env \<Rightarrow> int \<Rightarrow> CTxOut \<Rightarrow> CAmount option" where
  "GetDustThreshold env minRelayTxFee out =
     (if IsUnspendable (scriptPubKey out) then Some 0
      else
        let nSize = length (CTxOut_Serialize env SER_DISK out) + 148
        in map_option (\<lambda>fee. int64 (3 * fee)) (GetFee minRelayTxFee nSize))"

definition IsDust :: "prune_env \<Rightarrow> int \<Rightarrow> CTxOut \<Rightarrow> bool option" where
  "IsDust env minRelayTxFee out = map_option (\<lambda>t. nValue out < t) (GetDustThreshold env minRelayTxFee out)"

subsection \<open>Orders\<close>

definition COutPoint_less :: "COutPoint \<Rightarrow> COutPoint \<Rightarrow> bool" where
  "COutPoint_less a b \<longleftrightarrow>
     ord_class.lexordp (out_hash a) (out_hash b) \<or> out_hash a = out_hash b \<and> out_n a < out_n b"

definition CompareInputBIP69 :: "CTxIn \<Rightarrow> CTxIn \<Rightarrow> bool" where
  "CompareInputBIP69 a b =
     (if out_hash (prevout a) = out_hash (prevout b) then out_n (prevout a) < out_n (prevout b)
      else ord_class.lexordp (rev (out_hash (prevout a))) (rev (out_hash (prevout b))))"

definition CompareOutputBIP69 :: "CTxOut \<Rightarrow> CTxOut \<Rightarrow> bool" where
  "CompareOutputBIP69 a b \<longleftrightarrow>
     nValue a < nValue b
     \<or> nValue a = nValue b \<and> ord_class.lexordp (scriptPubKey a) (scriptPubKey b)"

section \<open>Amounts stay in range\<close>

lemma int64_eq: "- (2 ^ 63) \<le> n \<Longrightarrow> n < 2 ^ 63 \<Longrightarrow> int64 n = n"
  by (simp add: int64_def signed_of_int signed_take_bit_int_eq_self)

lemma MoneyRange_int64: "MoneyRange a \<Longrightarrow> MoneyRange b \<Longrightarrow> int64 (a + b) = a + b"
  by (rule int64_eq) (simp_all add: MoneyRange_def MAX_MONEY_def COIN_def)

lemma value_out_range: "value_out a outs = Some v \<Longrightarrow> MoneyRange a \<Longrightarrow> MoneyRange v \<and> a \<le> v"
proof (induction a outs rule: value_out.induct)
  case (2 a out outs)
  then have "MoneyRange (nValue out)" "int64 (a + nValue out) = a + nValue out"
    by (auto simp: Let_def MoneyRange_int64 split: if_splits)
  with 2 show ?case by (auto simp: Let_def MoneyRange_def split: if_splits)
qed simp

lemma value_out_sum:
  "MoneyRange a \<Longrightarrow> value_out a outs = Some v \<longleftrightarrow>
     list_all MoneyRange (map nValue outs) \<and> MoneyRange v \<and> v = a + sum_list (map nValue outs)"
proof (induction a outs arbitrary: v rule: value_out.induct)
  case (1 a)
  then show ?case by auto
next
  case (2 a out outs)
  show ?case
  proof (cases "MoneyRange (nValue out)")
    case True
    have s: "int64 (a + nValue out) = a + nValue out" using 2(2) True by (rule MoneyRange_int64)
    have nn: "0 \<le> sum_list (map nValue outs)" if "list_all MoneyRange (map nValue outs)"
      using that by (induction outs) (auto simp: MoneyRange_def)
    show ?thesis
    proof (cases "MoneyRange (a + nValue out)")
      case r: True
      then show ?thesis using 2(1) [OF refl] True s by (simp add: Let_def add.assoc)
    next
      case False
      define okl where "okl = list_all MoneyRange (map nValue outs)"
      show ?thesis
        using nn 2(2) True s False unfolding value_out.simps list.map list.pred_inject okl_def [symmetric]
        by (auto simp: MoneyRange_def)
    qed
  qed simp
qed

section \<open>Serialisation is read back\<close>

interpretation outpoint: codec COutPoint_Serialize COutPoint_Unserialize "\<lambda>p. length (out_hash p) = 32"
proof
  fix p :: COutPoint and r
  assume "length (out_hash p) = 32"
  then show "COutPoint_Unserialize (COutPoint_Serialize p @ r) = Inr (p, r)"
    by (simp add: COutPoint_Unserialize_def COutPoint_Serialize_def ser32.unser_ser)
next
  fix s r :: bytes and p :: COutPoint
  assume "COutPoint_Unserialize s = Inr (p, r)"
  then show "length (out_hash p) = 32 \<and> s = COutPoint_Serialize p @ r"
    by (auto simp: COutPoint_Unserialize_def COutPoint_Serialize_def bind_result_Inr ser_read_Inr dest!: ser32.ser_unser)
qed

definition CTxIn_ok :: "CTxIn \<Rightarrow> bool" where
  "CTxIn_ok i \<longleftrightarrow> length (out_hash (prevout i)) = 32 \<and> length (scriptSig i) \<le> MAX_SIZE"

interpretation txin: codec CTxIn_Serialize CTxIn_Unserialize CTxIn_ok
proof
  fix i :: CTxIn and r
  assume "CTxIn_ok i"
  then show "CTxIn_Unserialize (CTxIn_Serialize i @ r) = Inr (i, r)"
    by (simp add: CTxIn_ok_def CTxIn_Unserialize_def CTxIn_Serialize_def outpoint.unser_ser bytes.unser_ser ser32.unser_ser)
next
  fix s r :: bytes and i :: CTxIn
  assume "CTxIn_Unserialize s = Inr (i, r)"
  then show "CTxIn_ok i \<and> s = CTxIn_Serialize i @ r"
    by (auto simp: CTxIn_ok_def CTxIn_Unserialize_def CTxIn_Serialize_def bind_result_Inr
        dest!: outpoint.ser_unser bytes.ser_unser ser32.ser_unser)
qed

text \<open>With no service databases nothing is pruned.\<close>

definition no_services :: prune_env where
  "no_services = \<lparr>GetTimeToPrune = \<lambda>_. None, TipMedianTimePast = None\<rparr>"

definition CTxOut_ok :: "CTxOut \<Rightarrow> bool" where
  "CTxOut_ok out \<longleftrightarrow>
     - (2 ^ 63) \<le> nValue out \<and> nValue out < 2 ^ 63 \<and> length (scriptPubKey out) \<le> MAX_SIZE \<and> nRounds out = - 10"

lemma CTxOut_script_no_services [simp]: "CTxOut_script no_services nType spk = spk"
  by (simp add: CTxOut_script_def no_services_def)

interpretation txout: codec "CTxOut_Serialize no_services nType" CTxOut_Unserialize CTxOut_ok for nType
proof
  fix out :: CTxOut and r
  assume "CTxOut_ok out"
  then show "CTxOut_Unserialize (CTxOut_Serialize no_services nType out @ r) = Inr (out, r)"
    using int64_eq [of "nValue out"]
    by (simp add: CTxOut_ok_def CTxOut_Unserialize_def CTxOut_Serialize_def bytes.unser_ser ser64.unser_ser int64_def)
next
  fix s r :: bytes and out :: CTxOut
  assume "CTxOut_Unserialize s = Inr (out, r)"
  then obtain v where "s = ser_writedata64 v @ Serialize_bytes (scriptPubKey out) @ r" "nValue out = sint v"
    "length (scriptPubKey out) \<le> MAX_SIZE" "nRounds out = - 10"
    by (auto simp: CTxOut_Unserialize_def bind_result_Inr dest!: bytes.ser_unser ser64.ser_unser)
  moreover have "- (2 ^ 63) \<le> sint v" "sint v < 2 ^ 63"
    using sint_ge [of v] sint_lt [of v] by simp_all
  ultimately show "CTxOut_ok out \<and> s = CTxOut_Serialize no_services nType out @ r"
    by (simp add: CTxOut_ok_def CTxOut_Serialize_def)
qed

definition CTransaction_ok :: "CTransaction \<Rightarrow> bool" where
  "CTransaction_ok tx \<longleftrightarrow>
     length (vin tx) \<le> MAX_SIZE \<and> list_all CTxIn_ok (vin tx) \<and> length (vout tx) \<le> MAX_SIZE \<and> list_all CTxOut_ok (vout tx)"

lemma transaction_codec:
  assumes "0 < a" and "a \<le> 5000000" and "0 < b" and "b \<le> 5000000"
  shows "codec (CTransaction_Serialize no_services nType) (CMutableTransaction_Unserialize a b) CTransaction_ok"
proof -
  note ins = vec_codec [OF txin.codec_axioms assms(1,2)]
  note outs = vec_codec [OF txout.codec_axioms assms(3,4)]
  show ?thesis
  proof
    fix tx :: CTransaction and r
    assume "CTransaction_ok tx"
    then show "CMutableTransaction_Unserialize a b (CTransaction_Serialize no_services nType tx @ r) = Inr (tx, r)"
      by (simp add: CTransaction_ok_def CMutableTransaction_Unserialize_def CTransaction_Serialize_def ser32.unser_ser
          codec.unser_ser [OF ins] codec.unser_ser [OF outs])
  next
    fix s r :: bytes and tx :: CTransaction
    assume "CMutableTransaction_Unserialize a b s = Inr (tx, r)"
    then show "CTransaction_ok tx \<and> s = CTransaction_Serialize no_services nType tx @ r"
      by (auto simp: CTransaction_ok_def CMutableTransaction_Unserialize_def CTransaction_Serialize_def bind_result_Inr
          dest!: ser32.ser_unser codec.ser_unser [OF ins] codec.ser_unser [OF outs])
  qed
qed

text \<open>What the other side sees of a transaction: the scripts that the writer lets through.\<close>

definition pruned :: "prune_env \<Rightarrow> u32 \<Rightarrow> CTransaction \<Rightarrow> CTransaction" where
  "pruned env nType tx = tx\<lparr>vout := map (\<lambda>out. out\<lparr>scriptPubKey := CTxOut_script env nType (scriptPubKey out)\<rparr>) (vout tx)\<rparr>"

lemma Serialize_pruned:
  "CTransaction_Serialize env nType tx = CTransaction_Serialize no_services nType' (pruned env nType tx)"
  by (simp add: CTransaction_Serialize_def pruned_def Serialize_vec_def CTxOut_Serialize_def [abs_def] comp_def)

lemma CTxOut_script_hash:
  "CTxOut_script env SER_GETHASH (CTxOut_script env nType spk) = CTxOut_script env SER_GETHASH spk"
  by (auto simp: CTxOut_script_def split: option.splits)

lemma CTransaction_ok_pruned: "CTransaction_ok tx \<Longrightarrow> CTransaction_ok (pruned env nType tx)"
  by (auto simp: CTransaction_ok_def pruned_def CTxOut_ok_def CTxOut_script_def list.pred_set MAX_SIZE_def split: option.splits)

lemma ComputeHash_pruned: "ComputeHash buf0 env (pruned env nType tx) = ComputeHash buf0 env tx"
  by (simp add: ComputeHash_def CTransaction_Serialize_def pruned_def Serialize_vec_def CTxOut_Serialize_def [abs_def]
      comp_def CTxOut_script_hash)

section \<open>Properties\<close>

text \<open>
  C21. A transaction that is serialised is read back with every script that is not pruned, leaving what
  follows, and has the same hash: dropping the data of an expired service output does not change
  the transaction hash a node computes. Conversely the reader accepts only what the writer writes.
\<close>

theorem CTransaction_roundtrip:
  assumes "CTransaction_ok tx" and "0 < sizeofTxIn" and "sizeofTxIn \<le> 5000000" and "0 < sizeofTxOut" and "sizeofTxOut \<le> 5000000"
  shows "CMutableTransaction_Unserialize sizeofTxIn sizeofTxOut (CTransaction_Serialize env nType tx @ r) = Inr (pruned env nType tx, r)
    \<and> ComputeHash buf0 env (pruned env nType tx) = ComputeHash buf0 env tx
    \<and> (CMutableTransaction_Unserialize sizeofTxIn sizeofTxOut s = Inr (tx', r) \<longrightarrow>
         s = CTransaction_Serialize no_services nType tx' @ r \<and> CTransaction_ok tx')"
  using codec.unser_ser [OF transaction_codec [OF assms(2-5), of nType] CTransaction_ok_pruned [OF assms(1)], of env nType r]
    codec.ser_unser [OF transaction_codec [OF assms(2-5), of nType], of s tx' r]
  by (simp add: Serialize_pruned [of env nType tx nType] ComputeHash_pruned)

theorem CTransaction_roundtrip_witness:
  "let out = \<lparr>nValue = 5, scriptPubKey = [OP_RETURN, 1, 7], nRounds = - 10\<rparr>;
       tx = \<lparr>nVersion = 2, vin = [], vout = [out], nLockTime = 0\<rparr>;
       env = \<lparr>GetTimeToPrune = \<lambda>_. Some 10, TipMedianTimePast = Some 20\<rparr>
   in CMutableTransaction_Unserialize 104 48 (CTransaction_Serialize env SER_NETWORK tx @ [9])
        = Inr (tx\<lparr>vout := [out\<lparr>scriptPubKey := [OP_RETURN]\<rparr>]\<rparr>, [9])
      \<and> ComputeHash (replicate 64 0) env (tx\<lparr>vout := [out\<lparr>scriptPubKey := [OP_RETURN]\<rparr>]\<rparr>) = ComputeHash (replicate 64 0) env tx"
proof -
  define out where "out = \<lparr>nValue = 5, scriptPubKey = [OP_RETURN, 1, 7], nRounds = - 10\<rparr>"
  define tx where "tx = \<lparr>nVersion = 2, vin = [], vout = [out], nLockTime = 0\<rparr>"
  define env where "env = \<lparr>GetTimeToPrune = \<lambda>_. Some 10, TipMedianTimePast = Some 20\<rparr>"
  have ok: "CTransaction_ok tx"
    by (simp add: CTransaction_ok_def CTxOut_ok_def tx_def out_def MAX_SIZE_def)
  have "pruned env SER_NETWORK tx = tx\<lparr>vout := [out\<lparr>scriptPubKey := [OP_RETURN]\<rparr>]\<rparr>"
    by (simp add: pruned_def tx_def out_def env_def CTxOut_script_def IsUnspendable_def IsSysServiceExpired_def)
  then have "CMutableTransaction_Unserialize 104 48 (CTransaction_Serialize env SER_NETWORK tx @ [9])
        = Inr (tx\<lparr>vout := [out\<lparr>scriptPubKey := [OP_RETURN]\<rparr>]\<rparr>, [9])
      \<and> ComputeHash (replicate 64 0) env (tx\<lparr>vout := [out\<lparr>scriptPubKey := [OP_RETURN]\<rparr>]\<rparr>) = ComputeHash (replicate 64 0) env tx"
    using CTransaction_roundtrip [OF ok, of 104 48 env SER_NETWORK "[9]" "replicate 64 0"] by simp
  then show ?thesis by (simp add: out_def tx_def env_def)
qed

text \<open>
  C31. \<open>GetValueOut\<close> returns exactly the sum of the outputs, computed without wrap-around, when every output and
  the sum are in the money range, and throws otherwise, whatever the 64-bit running sum wraps to.
\<close>

theorem GetValueOut_sum:
  "GetValueOut tx = Some v \<longleftrightarrow>
     list_all MoneyRange (map nValue (vout tx)) \<and> MoneyRange v \<and> v = sum_list (map nValue (vout tx))"
  using value_out_sum [of 0 "vout tx" v] by (simp add: GetValueOut_def MoneyRange_def MAX_MONEY_def COIN_def)

lemma COutPoint_eq_iff: "p = q \<longleftrightarrow> out_hash p = out_hash q \<and> out_n p = out_n (q :: COutPoint)"
  by (cases p; cases q) simp

lemma rev_lexordp_linear:
  "\<not> ord_class.lexordp (rev a) (rev b) \<Longrightarrow> \<not> ord_class.lexordp (rev b) (rev a) \<Longrightarrow> a = (b :: bytes)"
  using lexordp_linear [of "rev a" "rev b"] by simp

text \<open>
  The comparators of BIP 69 are strict orders, as the sort they are given to needs: irreflexive and
  transitive, and two inputs are incomparable only if they spend the same outpoint, two outputs only if they
  pay the same amount to the same script.
\<close>

theorem BIP69_strict_orders:
  "irreflp CompareInputBIP69 \<and> transp CompareInputBIP69 \<and> irreflp CompareOutputBIP69 \<and> transp CompareOutputBIP69
   \<and> ((\<not> CompareInputBIP69 a b \<and> \<not> CompareInputBIP69 b a) = (prevout a = prevout b))
   \<and> ((\<not> CompareOutputBIP69 x y \<and> \<not> CompareOutputBIP69 y x) = (nValue x = nValue y \<and> scriptPubKey x = scriptPubKey y))"
proof (intro conjI)
  show "irreflp CompareInputBIP69" "irreflp CompareOutputBIP69"
    by (simp_all add: irreflp_def CompareInputBIP69_def CompareOutputBIP69_def lexordp_irreflexive')
  show "transp CompareInputBIP69"
    by (rule transpI)
      (auto simp: CompareInputBIP69_def lexordp_irreflexive' split: if_splits intro: lexordp_trans dest: lexordp_antisym)
  show "transp CompareOutputBIP69"
    by (rule transpI) (auto simp: CompareOutputBIP69_def intro: lexordp_trans)
  show "(\<not> CompareInputBIP69 a b \<and> \<not> CompareInputBIP69 b a) = (prevout a = prevout b)"
    by (auto simp: CompareInputBIP69_def COutPoint_eq_iff lexordp_irreflexive' dest: rev_lexordp_linear)
  show "(\<not> CompareOutputBIP69 x y \<and> \<not> CompareOutputBIP69 y x) = (nValue x = nValue y \<and> scriptPubKey x = scriptPubKey y)"
    using lexordp_linear [of "scriptPubKey x" "scriptPubKey y"]
    by (auto simp: CompareOutputBIP69_def lexordp_irreflexive')
qed

end
