(* ===== verification/Verify.thy ===== *)
theory Verify
  imports Interpreter Transaction
begin

text \<open>
  Checking the script of an input, after \<^verbatim>\<open>src/script/interpreter.cpp\<close>: the hash a signature signs
  (\<open>CTransactionSignatureSerializer\<close> and \<open>SignatureHash\<close>), the checker that looks at the spending transaction
  (\<open>TransactionSignatureChecker\<close>) and \<open>VerifyScript\<close>.
\<close>

section \<open>The hash that is signed\<close>

text \<open>The hash type is an \<open>int\<close>; the model keeps its 32-bit pattern.\<close>

definition fAnyoneCanPay :: "u32 \<Rightarrow> bool" where
  "fAnyoneCanPay nHashType \<longleftrightarrow> nHashType AND of_nat SIGHASH_ANYONECANPAY \<noteq> 0"

definition fHashSingle :: "u32 \<Rightarrow> bool" where
  "fHashSingle nHashType \<longleftrightarrow> nHashType AND 0x1f = of_nat SIGHASH_SINGLE"

definition fHashNone :: "u32 \<Rightarrow> bool" where
  "fHashNone nHashType \<longleftrightarrow> nHashType AND 0x1f = of_nat SIGHASH_NONE"

text \<open>Counting the code separators, and writing what lies between them; \<open>it\<close> and \<open>itBegin\<close> are iterators.\<close>

function count_separators :: "bytes \<Rightarrow> nat \<Rightarrow> nat" where
  "count_separators it nCodeSeparators =
     (case GetOp2 it of (ok, opcode, vch, it') \<Rightarrow>
        if \<not> ok then nCodeSeparators
        else count_separators it' (if opcode = OP_CODESEPARATOR then nCodeSeparators + 1 else nCodeSeparators))"
  by pat_completeness auto
termination by (relation "measure (\<lambda>(it, n). length it)") (auto dest!: GetOp2_shorter [OF sym])

declare count_separators.simps [simp del]

function write_between :: "bytes \<Rightarrow> bytes \<Rightarrow> bytes" where
  "write_between itBegin it =
     (case GetOp2 it of (ok, opcode, vch, it') \<Rightarrow>
        if \<not> ok then if itBegin \<noteq> [] then take (length itBegin - length it') itBegin else []
        else if opcode = OP_CODESEPARATOR
        then take (length itBegin - length it' - 1) itBegin @ write_between it' it'
        else write_between itBegin it')"
  by pat_completeness auto
termination by (relation "measure (\<lambda>(itBegin, it). length it)") (auto dest!: GetOp2_shorter [OF sym])

declare write_between.simps [simp del]

definition SerializeScriptCode :: "CScript \<Rightarrow> bytes" where
  "SerializeScriptCode scriptCode =
     WriteCompactSize (of_nat (length scriptCode - count_separators scriptCode 0)) @ write_between scriptCode scriptCode"

definition SerializeInput :: "CTransaction \<Rightarrow> CScript \<Rightarrow> nat \<Rightarrow> u32 \<Rightarrow> nat \<Rightarrow> bytes" where
  "SerializeInput txTo scriptCode nIn nHashType nInput =
     (let nInput = (if fAnyoneCanPay nHashType then nIn else nInput)
      in COutPoint_Serialize (prevout (vin txTo ! nInput))
         @ (if nInput \<noteq> nIn then Serialize_bytes [] else SerializeScriptCode scriptCode)
         @ ser_writedata32 (if nInput \<noteq> nIn \<and> (fHashSingle nHashType \<or> fHashNone nHashType) then 0
                            else nSequence (vin txTo ! nInput)))"

definition SerializeOutput :: "prune_env \<Rightarrow> CTransaction \<Rightarrow> nat \<Rightarrow> u32 \<Rightarrow> nat \<Rightarrow> bytes" where
  "SerializeOutput env txTo nIn nHashType nOutput =
     CTxOut_Serialize env SER_GETHASH
       (if fHashSingle nHashType \<and> nOutput \<noteq> nIn then CTxOut_null else vout txTo ! nOutput)"

definition SignatureSerialize :: "prune_env \<Rightarrow> CTransaction \<Rightarrow> CScript \<Rightarrow> nat \<Rightarrow> u32 \<Rightarrow> bytes" where
  "SignatureSerialize env txTo scriptCode nIn nHashType =
     (let nInputs = (if fAnyoneCanPay nHashType then 1 else length (vin txTo));
          nOutputs = (if fHashNone nHashType then 0 else if fHashSingle nHashType then nIn + 1 else length (vout txTo))
      in ser_writedata32 (nVersion txTo)
         @ WriteCompactSize (of_nat nInputs) @ concat (map (SerializeInput txTo scriptCode nIn nHashType) [0..<nInputs])
         @ WriteCompactSize (of_nat nOutputs) @ concat (map (SerializeOutput env txTo nIn nHashType) [0..<nOutputs])
         @ ser_writedata32 (nLockTime txTo))"

definition uint256_one :: uint256 where
  "uint256_one = 1 # replicate 31 0"

definition SignatureHash :: "prune_env \<Rightarrow> CScript \<Rightarrow> CTransaction \<Rightarrow> nat \<Rightarrow> u32 \<Rightarrow> uint256" where
  "SignatureHash env scriptCode txTo nIn nHashType =
     (if nIn \<ge> length (vin txTo) then uint256_one
      else if fHashSingle nHashType \<and> nIn \<ge> length (vout txTo) then uint256_one
      else SerializeHash fresh_buf (SignatureSerialize env txTo scriptCode nIn nHashType @ ser_writedata32 nHashType))"

section \<open>The checker of a spending transaction\<close>

text \<open>\<open>CPubKey\<close> of \<^verbatim>\<open>src/pubkey.h\<close>: the bytes of a key, or none when the first byte is no valid header.\<close>

definition CPubKey_GetLen :: "byte \<Rightarrow> nat" where
  "CPubKey_GetLen chHeader =
     (if chHeader = 2 \<or> chHeader = 3 then 33
      else if chHeader = 4 \<or> chHeader = 6 \<or> chHeader = 7 then 65
      else 0)"

definition CPubKey :: "bytes \<Rightarrow> bytes option" where
  "CPubKey vch = (case vch of [] \<Rightarrow> None | b # _ \<Rightarrow> if length vch = CPubKey_GetLen b then Some vch else None)"

text \<open>\<open>Verify\<close> is \<open>CPubKey::Verify\<close>, the elliptic curve library: key, hash, signature.\<close>

definition tx_CheckSig :: "(bytes \<Rightarrow> uint256 \<Rightarrow> bytes \<Rightarrow> bool) \<Rightarrow> prune_env \<Rightarrow> CTransaction \<Rightarrow> nat
    \<Rightarrow> bytes \<Rightarrow> bytes \<Rightarrow> CScript \<Rightarrow> bool" where
  "tx_CheckSig Verify env txTo nIn vchSigIn vchPubKey scriptCode =
     (case CPubKey vchPubKey of
        None \<Rightarrow> False
      | Some pubkey \<Rightarrow>
          if vchSigIn = [] then False
          else
            let nHashType = ucast (last vchSigIn);
                vchSig = butlast vchSigIn;
                sighash = SignatureHash env scriptCode txTo nIn nHashType
            in Verify pubkey sighash vchSig)"

definition tx_CheckLockTime :: "CTransaction \<Rightarrow> nat \<Rightarrow> int \<Rightarrow> bool" where
  "tx_CheckLockTime txTo nIn nLock =
     (if \<not> (unat (nLockTime txTo) < LOCKTIME_THRESHOLD \<and> nLock < int LOCKTIME_THRESHOLD
            \<or> unat (nLockTime txTo) \<ge> LOCKTIME_THRESHOLD \<and> nLock \<ge> int LOCKTIME_THRESHOLD) then False
      else if nLock > uint (nLockTime txTo) then False
      else if nSequence (vin txTo ! nIn) = SEQUENCE_FINAL then False
      else True)"

abbreviation (input) SEQUENCE_LOCKTIME_TYPE_FLAG :: int where "SEQUENCE_LOCKTIME_TYPE_FLAG \<equiv> 0x400000"
abbreviation (input) SEQUENCE_LOCKTIME_MASK :: int where "SEQUENCE_LOCKTIME_MASK \<equiv> 0xffff"

definition tx_CheckSequence :: "CTransaction \<Rightarrow> nat \<Rightarrow> int \<Rightarrow> bool" where
  "tx_CheckSequence txTo nIn nSeq =
     (let txToSequence = uint (nSequence (vin txTo ! nIn));
          nLockTimeMask = SEQUENCE_LOCKTIME_TYPE_FLAG OR SEQUENCE_LOCKTIME_MASK;
          txToSequenceMasked = txToSequence AND nLockTimeMask;
          nSequenceMasked = nSeq AND nLockTimeMask
      in if unat (nVersion txTo) < 2 then False
         else if txToSequence AND SEQUENCE_LOCKTIME_DISABLE_FLAG \<noteq> 0 then False
         else if \<not> (txToSequenceMasked < SEQUENCE_LOCKTIME_TYPE_FLAG \<and> nSequenceMasked < SEQUENCE_LOCKTIME_TYPE_FLAG
                    \<or> txToSequenceMasked \<ge> SEQUENCE_LOCKTIME_TYPE_FLAG \<and> nSequenceMasked \<ge> SEQUENCE_LOCKTIME_TYPE_FLAG)
           then False
         else if nSequenceMasked > txToSequenceMasked then False
         else True)"

definition TransactionSignatureChecker :: "(bytes \<Rightarrow> uint256 \<Rightarrow> bytes \<Rightarrow> bool) \<Rightarrow> (bytes \<Rightarrow> bool) \<Rightarrow> prune_env
    \<Rightarrow> CTransaction \<Rightarrow> nat \<Rightarrow> checker" where
  "TransactionSignatureChecker Verify lowS env txTo nIn =
     \<lparr>CheckSig = tx_CheckSig Verify env txTo nIn, CheckLockTime = tx_CheckLockTime txTo nIn,
      CheckSequence = tx_CheckSequence txTo nIn, CheckLowS = lowS\<rparr>"

section \<open>VerifyScript\<close>

text \<open>The outcomes: accepted, refused with an error, or a failed assertion, which stops the program.\<close>

datatype verify_result = Verified | Refused ScriptError | AssertionFailed

definition verify_cleanstack :: "u32 \<Rightarrow> bytes list \<Rightarrow> verify_result" where
  "verify_cleanstack flags stk =
     (if flag flags SCRIPT_VERIFY_CLEANSTACK then
        if \<not> flag flags SCRIPT_VERIFY_P2SH then AssertionFailed
        else if length stk \<noteq> 1 then Refused SCRIPT_ERR_CLEANSTACK
        else Verified
      else Verified)"

definition verify_p2sh :: "checker \<Rightarrow> u32 \<Rightarrow> CScript \<Rightarrow> bytes list \<Rightarrow> verify_result" where
  "verify_p2sh ck flags sig stackCopy =
     (if \<not> IsPushOnly sig then Refused SCRIPT_ERR_SIG_PUSHONLY
      else
        case stackCopy of
          [] \<Rightarrow> AssertionFailed
        | pubKey2 # stk \<Rightarrow>
            case EvalScript ck flags stk pubKey2 of
              Inl e \<Rightarrow> Refused e
            | Inr stk' \<Rightarrow>
                if stk' = [] then Refused SCRIPT_ERR_EVAL_FALSE
                else if \<not> CastToBool (hd stk') then Refused SCRIPT_ERR_EVAL_FALSE
                else verify_cleanstack flags stk')"

definition VerifyScript :: "checker \<Rightarrow> u32 \<Rightarrow> CScript \<Rightarrow> CScript \<Rightarrow> verify_result" where
  "VerifyScript ck flags sig scriptPubKeyIn =
     (let pubKey = (case RemoveMineriumScript scriptPubKeyIn of Some out \<Rightarrow> out | None \<Rightarrow> scriptPubKeyIn)
      in if flag flags SCRIPT_VERIFY_SIGPUSHONLY \<and> \<not> IsPushOnly sig then Refused SCRIPT_ERR_SIG_PUSHONLY
         else
           case EvalScript ck flags [] sig of
             Inl e \<Rightarrow> Refused e
           | Inr stackCopy \<Rightarrow>
               case EvalScript ck flags stackCopy pubKey of
                 Inl e \<Rightarrow> Refused e
               | Inr stk \<Rightarrow>
                   if stk = [] then Refused SCRIPT_ERR_EVAL_FALSE
                   else if CastToBool (hd stk) = False then Refused SCRIPT_ERR_EVAL_FALSE
                   else if flag flags SCRIPT_VERIFY_P2SH \<and> IsPayToScriptHash pubKey
                   then verify_p2sh ck flags sig stackCopy
                   else verify_cleanstack flags stk)"

section \<open>Running the standard templates\<close>

lemma eval_loop_Nil [simp]: "eval_loop ck flags [] s = Inr s"
  by (simp add: eval_loop.simps)

lemma eval_loop_push:
  assumes "length b \<le> MAX_SCRIPT_ELEMENT_SIZE" and "False \<notin> set (vfExec s)"
    and "flag flags SCRIPT_VERIFY_MINIMALDATA \<Longrightarrow> CheckMinimalPush b (push_op (length b))"
    and "length (stack s) + length (altstack s) < 1000"
  shows "eval_loop ck flags (push_data [] b @ r) s = eval_loop ck flags r (s\<lparr>stack := b # stack s\<rparr>)"
proof -
  have g: "GetOp2 (push_data [] b @ r) = (True, push_op (length b), b, r)" using assms(1) by (intro GetOp2_push_data) simp
  have o: "push_op (length b) \<le> OP_PUSHDATA4" by (rule push_op_le)
  then have n: "\<not> OP_16 < push_op (length b)" by (simp add: not_less order_trans [OF o])
  have d: "\<not> disabled_opcode (push_op (length b))" using o by (auto simp: disabled_opcode_def)
  have "eval_step ck flags (push_data [] b @ r) s = Inr (r, s\<lparr>stack := b # stack s\<rparr>)"
    using assms n d o by (simp add: eval_step_def g op_push_def)
  then show ?thesis by (subst eval_loop.simps) simp
qed

text \<open>One operation that is not a push, executed.\<close>

lemma eval_loop_op:
  assumes "OP_PUSHDATA4 < c" and "\<not> disabled_opcode c" and "False \<notin> set (vfExec s)" and "nOpCount s < MAX_OPS_PER_SCRIPT"
  shows "eval_loop ck flags (c # r) s =
    (case eval_switch ck flags c r True (if c > OP_16 then s\<lparr>nOpCount := nOpCount s + 1\<rparr> else s) of
       Inl e \<Rightarrow> Inl e
     | Inr s' \<Rightarrow> if length (stack s') + length (altstack s') > 1000 then Inl SCRIPT_ERR_STACK_SIZE else eval_loop ck flags r s')"
proof -
  have "\<not> c \<le> OP_PUSHDATA4" using assms(1) by (simp add: not_le)
  then have "eval_step ck flags (c # r) s =
    (case eval_switch ck flags c r True (if c > OP_16 then s\<lparr>nOpCount := nOpCount s + 1\<rparr> else s) of
       Inl e \<Rightarrow> Inl e
     | Inr s' \<Rightarrow> if length (stack s') + length (altstack s') > 1000 then Inl SCRIPT_ERR_STACK_SIZE else Inr (r, s'))"
    using assms by (simp add: eval_step_def GetOp2_simple)
  then show ?thesis by (subst eval_loop.simps) (simp split: sum.split)
qed

lemma eval_switch_ops [script_simps]:
  "eval_switch ck flags OP_DUP pc fExec s = op_dup s"
  "eval_switch ck flags OP_HASH160 pc fExec s = Interpreter.op_hash OP_HASH160 s"
  "eval_switch ck flags OP_EQUAL pc fExec s = op_equal OP_EQUAL s"
  "eval_switch ck flags OP_EQUALVERIFY pc fExec s = op_equal OP_EQUALVERIFY s"
  "eval_switch ck flags OP_CHECKSIG pc fExec s = op_checksig ck flags OP_CHECKSIG s"
  "eval_switch ck flags OP_DROP pc fExec s = op_drop s"
  "eval_switch ck flags OP_RETURN pc fExec s = Inl SCRIPT_ERR_OP_RETURN"
  "eval_switch ck flags OP_1 pc fExec s = op_small OP_1 s"
  by (simp_all add: eval_switch_def Let_def)

lemma serialize_1 [simp]: "CScriptNum_serialize 1 = [1]"
  by code_simp

lemma not_disabled [simp]:
  "\<not> disabled_opcode OP_DUP" "\<not> disabled_opcode OP_HASH160" "\<not> disabled_opcode OP_EQUAL" "\<not> disabled_opcode OP_EQUALVERIFY"
  "\<not> disabled_opcode OP_CHECKSIG" "\<not> disabled_opcode OP_DROP" "\<not> disabled_opcode OP_RETURN" "\<not> disabled_opcode OP_1"
  by (simp_all add: disabled_opcode_def)

lemma push_20: "length h = 20 \<Longrightarrow> 0x14 # h @ r = push_data [] h @ r"
  by (simp add: push_data_def)

lemma minimal_20: "length h = 20 \<Longrightarrow> CheckMinimalPush h (push_op (length h))"
  by (simp add: CheckMinimalPush_def push_op_def)


definition p2pkh :: "bytes \<Rightarrow> CScript" where
  "p2pkh h = [OP_DUP, OP_HASH160, 0x14] @ h @ [OP_EQUALVERIFY, OP_CHECKSIG]"

definition p2sh :: "bytes \<Rightarrow> CScript" where
  "p2sh h = [OP_HASH160, 0x14] @ h @ [OP_EQUAL]"

lemma strip_high: "OP_16 < c \<Longrightarrow> strip_service (c # t) = c # t"
  by (simp add: strip_service_def RemoveMineriumScript_none)

lemma IsPayToScriptHash_p2sh:
  assumes "IsPayToScriptHash s"
  shows "\<exists>h. length h = 20 \<and> strip_service s = p2sh h"
proof -
  let ?t = "strip_service s"
  have l: "length ?t = 23" "?t ! 0 = OP_HASH160" "?t ! 1 = 0x14" "?t ! 22 = OP_EQUAL"
    using assms by (auto simp: IsPayToScriptHash_def Let_def)
  have "?t = p2sh (take 20 (drop 2 ?t))"
  proof (rule nth_equalityI)
    show "length ?t = length (p2sh (take 20 (drop 2 ?t)))" using l(1) by (simp add: p2sh_def)
    fix i assume "i < length ?t"
    then consider "i = 0" | "i = 1" | "2 \<le> i" "i < 22" | "i = 22" using l(1) by linarith
    moreover have "Suc (Suc (i - 2)) = i" if "2 \<le> i" using that by simp
    ultimately show "?t ! i = p2sh (take 20 (drop 2 ?t)) ! i"
      by cases (use l in \<open>auto simp: p2sh_def nth_append nth_Cons' numeral_2_eq_2 [symmetric]\<close>)
  qed
  moreover have "length (take 20 (drop 2 ?t)) = 20" using l(1) by simp
  ultimately show ?thesis by blast
qed

lemma eval_loop_p2sh_empty:
  "EvalScript ck flags [] (p2sh h) = Inl SCRIPT_ERR_INVALID_STACK_OPERATION \<or> length (p2sh h) > MAX_SCRIPT_SIZE"
  by (simp add: EvalScript_def p2sh_def eval_loop_op script_simps Interpreter.op_hash_def eval_init_def)

lemma eval_loop_p2pkh:
  assumes "length h = 20" and "length k = 20" and k: "k = hash160 pubkey"
    and s: "stack s = [pubkey, sig]" "altstack s = []" "vfExec s = []" "nOpCount s = 0"
  shows "eval_loop ck flags (p2pkh h) s =
    (if k \<noteq> h then Inl SCRIPT_ERR_EQUALVERIFY
     else op_checksig ck flags OP_CHECKSIG (s\<lparr>nOpCount := 4\<rparr>))"
proof -
  have len: "length (stack s') \<le> 1 \<and> altstack s' = []"
    if "op_checksig ck flags OP_CHECKSIG (s\<lparr>nOpCount := 4\<rparr>) = Inr s'" for s'
    using that s by (auto simp: op_checksig_def Let_def split: option.splits if_splits)
  have "eval_loop ck flags (p2pkh h) s = eval_loop ck flags (OP_HASH160 # 0x14 # h @ [OP_EQUALVERIFY, OP_CHECKSIG])
    (s\<lparr>nOpCount := 1, stack := [pubkey, pubkey, sig]\<rparr>)"
    by (simp add: p2pkh_def eval_loop_op script_simps op_dup_def s)
  also have "\<dots> = eval_loop ck flags (0x14 # h @ [OP_EQUALVERIFY, OP_CHECKSIG]) (s\<lparr>nOpCount := 2, stack := [k, pubkey, sig]\<rparr>)"
    by (simp add: eval_loop_op script_simps Interpreter.op_hash_def vch_hash_eq s k) (simp add: numeral_2_eq_2)
  also have "\<dots> = eval_loop ck flags [OP_EQUALVERIFY, OP_CHECKSIG] (s\<lparr>nOpCount := 2, stack := [h, k, pubkey, sig]\<rparr>)"
    using assms(1) minimal_20 [OF assms(1)] s by (simp add: push_20 eval_loop_push)
  also have "\<dots> = (if k \<noteq> h then Inl SCRIPT_ERR_EQUALVERIFY
     else eval_loop ck flags [OP_CHECKSIG] (s\<lparr>nOpCount := 3, stack := [pubkey, sig]\<rparr>))"
    by (simp add: eval_loop_op script_simps op_equal_def Let_def s)
  also have "eval_loop ck flags [OP_CHECKSIG] (s\<lparr>nOpCount := 3, stack := [pubkey, sig]\<rparr>) =
    op_checksig ck flags OP_CHECKSIG (s\<lparr>nOpCount := 4\<rparr>)"
  proof -
    have "s\<lparr>stack := [pubkey, sig], nOpCount := 4\<rparr> = s\<lparr>nOpCount := 4\<rparr>" using s(1) by (cases s) simp
    moreover have "eval_loop ck flags [OP_CHECKSIG] (s\<lparr>nOpCount := 3, stack := [pubkey, sig]\<rparr>) =
      (case op_checksig ck flags OP_CHECKSIG (s\<lparr>stack := [pubkey, sig], nOpCount := 4\<rparr>) of
         Inl e \<Rightarrow> Inl e
       | Inr s' \<Rightarrow> if length (stack s') + length (altstack s') > 1000 then Inl SCRIPT_ERR_STACK_SIZE else Inr s')"
      by (simp add: eval_loop_op script_simps s split: sum.split)
    ultimately show ?thesis using len by (cases "op_checksig ck flags OP_CHECKSIG (s\<lparr>nOpCount := 4\<rparr>)") auto
  qed
  finally show ?thesis .
qed

lemma eval_p2pkh:
  assumes "length h = 20"
  shows "EvalScript ck flags [pubkey, sig] (p2pkh h) =
    (if hash160 pubkey \<noteq> h then Inl SCRIPT_ERR_EQUALVERIFY
     else case check_encodings ck flags sig pubkey of
       Some e \<Rightarrow> Inl e
     | None \<Rightarrow>
         let fSuccess = CheckSig ck sig pubkey (snd (FindAndDelete (p2pkh h) (push_data [] sig)))
         in if \<not> fSuccess \<and> flag flags SCRIPT_VERIFY_NULLFAIL \<and> sig \<noteq> [] then Inl SCRIPT_ERR_SIG_NULLFAIL
            else Inr [bool_vch fSuccess])"
proof -
  have "\<not> length (p2pkh h) > MAX_SCRIPT_SIZE" using assms by (simp add: p2pkh_def)
  then show ?thesis
    using eval_loop_p2pkh [OF assms ripemd160.length_H refl, where s = "eval_init [pubkey, sig] (p2pkh h)" and ck = ck and flags = flags]
    by (simp add: EvalScript_def eval_init_def op_checksig_def Let_def split: option.split)
qed


text \<open>A script signature that pushes the given vectors leaves them on the stack.\<close>

lemma eval_loop_pushes:
  assumes "sized bs" and "flag flags SCRIPT_VERIFY_MINIMALDATA \<Longrightarrow> list_all (\<lambda>b. CheckMinimalPush b (push_op (length b))) bs"
    and "length bs + length (stack s) \<le> 1000" and "altstack s = []" and "vfExec s = []"
  shows "eval_loop ck flags (concat (map (push_data []) bs) @ r) s = eval_loop ck flags r (s\<lparr>stack := rev bs @ stack s\<rparr>)"
  using assms
proof (induction bs arbitrary: s)
  case (Cons b bs)
  have "eval_loop ck flags (concat (map (push_data []) (b # bs)) @ r) s =
    eval_loop ck flags (concat (map (push_data []) bs) @ r) (s\<lparr>stack := b # stack s\<rparr>)"
    using Cons.prems eval_loop_push [of b s flags ck "concat (map (push_data []) bs) @ r"] by simp
  also have "\<dots> = eval_loop ck flags r (s\<lparr>stack := rev bs @ b # stack s\<rparr>)"
    using Cons.prems Cons.IH [of "s\<lparr>stack := b # stack s\<rparr>"] by simp
  finally show ?case by simp
qed simp

lemma EvalScript_pushes:
  assumes "sized bs" and "flag flags SCRIPT_VERIFY_MINIMALDATA \<Longrightarrow> list_all (\<lambda>b. CheckMinimalPush b (push_op (length b))) bs"
    and "length bs \<le> 1000" and "length (concat (map (push_data []) bs)) \<le> MAX_SCRIPT_SIZE"
  shows "EvalScript ck flags [] (concat (map (push_data []) bs)) = Inr (rev bs)"
  using assms eval_loop_pushes [of bs flags "eval_init [] (concat (map (push_data []) bs))" ck "[]"]
  by (simp add: EvalScript_def eval_init_def)

lemma VerifyScript_strip:
  "VerifyScript ck flags sig spk =
     (if flag flags SCRIPT_VERIFY_SIGPUSHONLY \<and> \<not> IsPushOnly sig then Refused SCRIPT_ERR_SIG_PUSHONLY
      else
        case EvalScript ck flags [] sig of
          Inl e \<Rightarrow> Refused e
        | Inr stackCopy \<Rightarrow>
            case EvalScript ck flags stackCopy (strip_service spk) of
              Inl e \<Rightarrow> Refused e
            | Inr stk \<Rightarrow>
                if stk = [] \<or> \<not> CastToBool (hd stk) then Refused SCRIPT_ERR_EVAL_FALSE
                else if flag flags SCRIPT_VERIFY_P2SH \<and> IsPayToScriptHash (strip_service spk)
                then verify_p2sh ck flags sig stackCopy
                else verify_cleanstack flags stk)"
  unfolding VerifyScript_def strip_service_def [symmetric] Let_def by (auto split: sum.split)

section \<open>Properties\<close>

text \<open>
  C1. Spending a pay-to-pubkey-hash output, plain or behind a service prefix, with a signature and a key in
  valid encodings: the script is accepted exactly when the key hashes to the hash in the output and the
  checker accepts the signature over the output script; every other case is refused with the error given.
\<close>

theorem VerifyScript_p2pkh:
  assumes "strip_service spk = p2pkh h" and "length h = 20"
    and "sized [sig, pubkey]" and "flag flags SCRIPT_VERIFY_CLEANSTACK \<Longrightarrow> flag flags SCRIPT_VERIFY_P2SH"
    and "flag flags SCRIPT_VERIFY_MINIMALDATA \<Longrightarrow> list_all (\<lambda>b. CheckMinimalPush b (push_op (length b))) [sig, pubkey]"
    and "check_encodings ck flags sig pubkey = None"
  shows "VerifyScript ck flags (push_data (push_data [] sig) pubkey) spk =
    (if hash160 pubkey \<noteq> h then Refused SCRIPT_ERR_EQUALVERIFY
     else if CheckSig ck sig pubkey (snd (FindAndDelete (p2pkh h) (push_data [] sig))) then Verified
     else if flag flags SCRIPT_VERIFY_NULLFAIL \<and> sig \<noteq> [] then Refused SCRIPT_ERR_SIG_NULLFAIL
     else Refused SCRIPT_ERR_EVAL_FALSE)"
proof -
  let ?sig = "concat (map (push_data []) [sig, pubkey])"
  have sig: "push_data (push_data [] sig) pubkey = ?sig"
    using push_data_append [of "push_data [] sig" pubkey] by simp
  have len: "length ?sig \<le> MAX_SCRIPT_SIZE" using assms(3) by (simp add: push_data_def)
  have ev: "EvalScript ck flags [] ?sig = Inr [pubkey, sig]"
    using EvalScript_pushes [OF assms(3,5) _ len] by simp
  have po: "IsPushOnly ?sig" using assms(3) by (intro IsPushOnly_pushes) simp
  have nsh: "\<not> IsPayToScriptHash (p2pkh h)"
    using assms(2) by (simp add: IsPayToScriptHash_def p2pkh_def strip_high)
  have cl: "verify_cleanstack flags [x] = Verified" for x
    using assms(4) by (simp add: verify_cleanstack_def)
  have cast: "CastToBool (bool_vch b) = b" for b by (simp add: bool_vch_def vchTrue_def vchFalse_def)
  show ?thesis
    unfolding sig VerifyScript_strip assms(1)
    using po ev eval_p2pkh [OF assms(2), of ck flags pubkey sig] assms(6) nsh cl cast by (simp add: Let_def)
qed

text \<open>
  An output script that starts with \<open>OP_RETURN\<close> can never be spent: whatever the flags, the script
  signature and the checker, \<open>VerifyScript\<close> refuses it.
\<close>

theorem OP_RETURN_refused:
  "\<exists>e. VerifyScript ck flags sig (OP_RETURN # t) = Refused e"
proof -
  have st: "strip_service (OP_RETURN # t) = OP_RETURN # t" by (rule strip_high) simp
  have "\<exists>e. EvalScript ck flags stk (OP_RETURN # t) = Inl e" for stk
    by (simp add: EvalScript_def eval_loop_op script_simps eval_init_def)
  then obtain err where "EvalScript ck flags stk (OP_RETURN # t) = Inl (err stk)" for stk by metis
  then show ?thesis unfolding VerifyScript_strip st by (simp split: sum.split)
qed

text \<open>
  C34. Behind a service prefix an output script longer than \<open>MAX_SCRIPT_SIZE\<close>, which \<open>IsUnspendable\<close> reports as
  guaranteed to fail, can be spent: \<open>VerifyScript\<close> strips the prefix before it measures the script.
\<close>

theorem oversized_spendable:
  assumes "service_op svc op" and "is_drop d" and "length a = MAX_SCRIPT_SIZE"
    and "flag flags SCRIPT_VERIFY_CLEANSTACK \<Longrightarrow> flag flags SCRIPT_VERIFY_P2SH"
  shows "IsUnspendable (service_prefix svc op [a] [d] @ [OP_1])
    \<and> VerifyScript ck flags [] (service_prefix svc op [a] [d] @ [OP_1]) = Verified"
proof -
  let ?s = "service_prefix svc op [a] [d] @ [OP_1]"
  have st: "strip_service ?s = [OP_1]"
    using RemoveMineriumScript_simple [OF assms(1) _ assms(2), of "[a]" "[]" OP_1 "[]"] assms(3)
    by (simp add: strip_service_def is_drop_def)
  have run: "EvalScript ck flags [] [OP_1] = Inr [[1]]"
    by (simp add: EvalScript_def eval_loop_op script_simps op_small_def eval_init_def)
  have "IsUnspendable ?s" using assms(3) by (simp add: IsUnspendable_def service_prefix_def push_data_def)
  moreover have "\<not> IsPayToScriptHash [OP_1]"
  proof -
    have "length (strip_service [OP_1]) \<le> 1"
      by code_simp
    then show ?thesis by (auto simp: IsPayToScriptHash_def Let_def)
  qed
  moreover have "EvalScript ck flags [] [] = Inr []" by (simp add: EvalScript_def eval_init_def)
  ultimately show ?thesis
    unfolding VerifyScript_strip st using run assms(4)
    by (simp add: IsPushOnly.simps [of "[]"] verify_cleanstack_def)
qed

theorem VerifyScript_p2pkh_witness:
  "VerifyScript \<lparr>CheckSig = \<lambda>sig key code. sig = [1], CheckLockTime = \<lambda>_. False, CheckSequence = \<lambda>_. False, CheckLowS = \<lambda>_. True\<rparr>
     0 (push_data (push_data [] [1]) [2]) (p2pkh (hash160 [2])) = Verified"
proof -
  let ?ck = "\<lparr>CheckSig = \<lambda>sig key code. sig = [1], CheckLockTime = \<lambda>_. False, CheckSequence = \<lambda>_. False, CheckLowS = \<lambda>_. True\<rparr>"
  have "strip_service (p2pkh (hash160 [2])) = p2pkh (hash160 [2])"
    unfolding p2pkh_def append_Cons by (rule strip_high) simp
  moreover have "check_encodings ?ck 0 [1] [2] = None"
    by (simp add: check_encodings_def CheckSignatureEncoding_def CheckPubKeyEncoding_def flag_def)
  ultimately show ?thesis
    using VerifyScript_p2pkh [of "p2pkh (hash160 [2])" "hash160 [2]" "[1]" "[2]" 0 ?ck]
    by (simp add: ripemd160.length_H flag_def)
qed

theorem oversized_spendable_witness:
  "IsUnspendable (service_prefix 1 1 [replicate 10000 0] [OP_DROP] @ [OP_1])
   \<and> VerifyScript (BaseSignatureChecker (\<lambda>_. True)) 0 [] (service_prefix 1 1 [replicate 10000 0] [OP_DROP] @ [OP_1]) = Verified"
proof -
  have "service_op 1 1" "is_drop OP_DROP" by (simp_all add: service_op_def service_op_defs is_drop_def)
  then show ?thesis
    using oversized_spendable [of 1 1 OP_DROP "replicate 10000 0" 0 "BaseSignatureChecker (\<lambda>_. True)"]
    by (simp add: flag_def)
qed

text \<open>An alias activation that pushes no data.\<close>

definition alias_prefix :: CScript where
  "alias_prefix = [OP_1, OP_1, OP_0, OP_DROP]"

lemma strip_alias_prefix: "OP_PUSHDATA4 < c \<Longrightarrow> \<not> is_drop c \<Longrightarrow> strip_service (alias_prefix @ c # t) = c # t"
  using RemoveMineriumScript_simple [of 1 1 "[[]]" OP_DROP "[]" c t]
  by (simp add: strip_service_def service_op_def service_op_defs is_drop_def alias_prefix_def service_prefix_def push_data_def)

lemma eval_alias_p2sh:
  "EvalScript ck flags [] (alias_prefix @ p2sh (hash160 [1])) = Inr [vchTrue, [1]]"
proof -
  let ?s = "alias_prefix @ p2sh (hash160 [1])"
  define h where "h = hash160 [1]"
  have h: "length h = 20" by (simp add: h_def ripemd160.length_H)
  have "eval_loop ck flags ([OP_1, OP_1] @ r) (eval_init [] ?s) = eval_loop ck flags r (eval_init [[1], [1]] ?s)" for r
    by (simp add: eval_loop_op script_simps op_small_def eval_init_def)
  moreover have "eval_loop ck flags (0 # r) (eval_init [[1], [1]] ?s) = eval_loop ck flags r (eval_init [[], [1], [1]] ?s)" for r
    using eval_loop_push [of "[]" "eval_init [[1], [1]] ?s" flags ck r]
    by (simp add: push_data_def eval_init_def CheckMinimalPush_def push_op_def)
  moreover have "eval_loop ck flags (OP_DROP # OP_HASH160 # r) (eval_init [[], [1], [1]] ?s) =
    eval_loop ck flags r ((eval_init [h, [1]] ?s)\<lparr>nOpCount := 2\<rparr>)" for r
    by (simp add: eval_loop_op script_simps op_drop_def Interpreter.op_hash_def vch_hash_eq eval_init_def h_def)
      (simp add: numeral_2_eq_2)
  moreover have "eval_loop ck flags (0x14 # h @ [OP_EQUAL]) ((eval_init [h, [1]] ?s)\<lparr>nOpCount := 2\<rparr>) =
    Inr ((eval_init [vchTrue, [1]] ?s)\<lparr>nOpCount := 3\<rparr>)"
    using h minimal_20 [OF h]
    by (simp add: push_20 eval_loop_push eval_loop_op script_simps op_equal_def eval_init_def bool_vch_def)
  ultimately have "eval_loop ck flags ?s (eval_init [] ?s) = Inr ((eval_init [vchTrue, [1]] ?s)\<lparr>nOpCount := 3\<rparr>)"
    by (simp add: alias_prefix_def p2sh_def h_def)
  moreover have "length ?s \<le> MAX_SCRIPT_SIZE" using h by (simp add: alias_prefix_def p2sh_def h_def)
  ultimately show ?thesis by (simp add: EvalScript_def eval_init_def)
qed

text \<open>
  C33. The assertion in \<open>VerifyScript\<close> that the stack of a pay-to-script-hash input is not empty can fail, which
  stops the node: an output script with two service prefixes in front of pay-to-script-hash, spent with an
  empty script signature. \<open>VerifyScript\<close> strips one prefix and runs the rest, whose own prefix pushes the element
  that is hashed; \<open>IsPayToScriptHash\<close> strips a second prefix and recognises the template.
\<close>

theorem VerifyScript_assertion_fails:
  assumes "flag flags SCRIPT_VERIFY_P2SH"
  shows "VerifyScript ck flags [] (alias_prefix @ alias_prefix @ p2sh (hash160 [1])) = AssertionFailed"
proof -
  let ?t = "alias_prefix @ p2sh (hash160 [1])"
  have t: "?t = OP_1 # tl ?t" by (simp add: alias_prefix_def)
  have "strip_service (alias_prefix @ OP_1 # tl ?t) = OP_1 # tl ?t" by (rule strip_alias_prefix) (simp_all add: is_drop_def)
  then have st: "strip_service (alias_prefix @ ?t) = ?t" by (simp only: t [symmetric])
  have "strip_service ?t = p2sh (hash160 [1])"
    unfolding p2sh_def append_Cons by (rule strip_alias_prefix) (simp_all add: is_drop_def)
  then have "IsPayToScriptHash ?t"
    by (simp add: IsPayToScriptHash_def p2sh_def nth_append ripemd160.length_H)
  moreover have "EvalScript ck flags [] [] = Inr []" by (simp add: EvalScript_def eval_init_def)
  moreover have "IsPushOnly []" by (simp add: IsPushOnly.simps)
  ultimately show ?thesis
    unfolding VerifyScript_strip st using assms eval_alias_p2sh [of ck flags]
    by (simp add: vchTrue_def verify_p2sh_def)
qed

theorem VerifyScript_assertion_fails_witness:
  "VerifyScript (BaseSignatureChecker (\<lambda>_. True)) SCRIPT_VERIFY_P2SH [] (alias_prefix @ alias_prefix @ p2sh (hash160 [1]))
     = AssertionFailed"
  using VerifyScript_assertion_fails [of SCRIPT_VERIFY_P2SH "BaseSignatureChecker (\<lambda>_. True)"] by (simp add: flag_def)

text \<open>
  C32. That is the only way: for an output script whose stripped form has no second prefix, no assertion of
  \<open>VerifyScript\<close> fails, for flags that set \<open>SCRIPT_VERIFY_CLEANSTACK\<close> only together with \<open>SCRIPT_VERIFY_P2SH\<close>.
\<close>

theorem VerifyScript_no_assertion:
  assumes "strip_service (strip_service spk) = strip_service spk"
    and "flag flags SCRIPT_VERIFY_CLEANSTACK \<Longrightarrow> flag flags SCRIPT_VERIFY_P2SH"
  shows "VerifyScript ck flags sig spk \<noteq> AssertionFailed"
proof -
  have clean: "verify_cleanstack flags stk \<noteq> AssertionFailed" for stk
    using assms(2) by (simp add: verify_cleanstack_def)
  have "stackCopy \<noteq> []"
    if p: "IsPayToScriptHash (strip_service spk)" and ev: "EvalScript ck flags stackCopy (strip_service spk) = Inr stk" for stackCopy stk
  proof
    obtain h where h: "length h = 20" "strip_service spk = p2sh h"
      using IsPayToScriptHash_p2sh [OF p] assms(1) by auto
    assume "stackCopy = []"
    then show False using ev h eval_loop_p2sh_empty [of ck flags h] by (simp add: p2sh_def)
  qed
  moreover have "verify_p2sh ck flags sig stackCopy \<noteq> AssertionFailed" if "stackCopy \<noteq> []" for stackCopy
    using that clean by (auto simp: verify_p2sh_def split: list.split sum.split)
  ultimately show ?thesis
    unfolding VerifyScript_strip using clean by (auto split: sum.split)
qed

theorem VerifyScript_no_assertion_witness:
  "VerifyScript (BaseSignatureChecker (\<lambda>_. True)) SCRIPT_VERIFY_P2SH [] (OP_DUP # []) \<noteq> AssertionFailed"
proof -
  have "strip_service [OP_DUP] = [OP_DUP]" by (rule strip_high) simp
  then show ?thesis using VerifyScript_no_assertion [of "[OP_DUP]" SCRIPT_VERIFY_P2SH] by (simp add: flag_def)
qed

section \<open>What a signature commits to\<close>

lemma atomic_separator:
  assumes "atomic op" and "GetOp2 (op @ r) = (True, opcode, vch, r)"
  shows "opcode = OP_CODESEPARATOR \<longleftrightarrow> op = [OP_CODESEPARATOR]"
proof -
  obtain b t where op: "op = b # t" using atomic_not_Nil [OF assms(1)] by (cases op) auto
  have b: "opcode = b"
    using assms(2) by (auto simp: op GetOp2_def getop_data_def split: if_splits)
  show ?thesis
  proof
    assume "opcode = OP_CODESEPARATOR"
    then have "b = OP_CODESEPARATOR" using b by simp
    then have "t = []" using assms(2) by (simp add: op GetOp2_def)
    then show "op = [OP_CODESEPARATOR]" using op \<open>b = OP_CODESEPARATOR\<close> by simp
  qed (use b op in simp)
qed

definition without_separators :: "bytes list \<Rightarrow> CScript" where
  "without_separators ops = concat (filter (\<lambda>op. op \<noteq> [OP_CODESEPARATOR]) ops)"

lemma count_separators_ops:
  "list_all atomic ops \<Longrightarrow> count_separators (concat ops) n = n + length (filter (\<lambda>op. op = [OP_CODESEPARATOR]) ops)"
proof (induction ops arbitrary: n)
  case Nil
  then show ?case by (simp add: count_separators.simps)
next
  case (Cons op ops)
  then have a: "atomic op" by simp
  obtain opcode vch where g: "GetOp2 (op @ concat ops) = (True, opcode, vch, concat ops)" using a by (rule atomicE)
  show ?case
    using Cons atomic_separator [OF a g] by (subst count_separators.simps) (simp add: g)
qed

lemma write_between_ops:
  "list_all atomic ops \<Longrightarrow> write_between (pre @ concat ops) (concat ops) = pre @ without_separators ops"
proof (induction ops arbitrary: pre)
  case Nil
  then show ?case by (simp add: write_between.simps without_separators_def)
next
  case (Cons op ops)
  then have a: "atomic op" by simp
  obtain opcode vch where g: "GetOp2 (op @ concat ops) = (True, opcode, vch, concat ops)" using a by (rule atomicE)
  have "write_between (pre @ op @ concat ops) (op @ concat ops) =
    (if op = [OP_CODESEPARATOR] then pre @ write_between (concat ops) (concat ops)
     else write_between ((pre @ op) @ concat ops) (concat ops))"
    using atomic_separator [OF a g] by (subst write_between.simps) (simp add: g)
  then show ?case
    using Cons.IH [of "[]"] Cons.IH [of "pre @ op"] Cons.prems by (simp add: without_separators_def)
qed

lemma length_without_separators:
  "length (without_separators ops) + length (filter (\<lambda>op. op = [OP_CODESEPARATOR]) ops) = length (concat ops)"
  by (induction ops) (auto simp: without_separators_def)

lemma SerializeScriptCode_ops:
  assumes "list_all atomic ops"
  shows "SerializeScriptCode (concat ops) = Serialize_bytes (without_separators ops)"
  using assms count_separators_ops [of ops 0] write_between_ops [of ops "[]"] length_without_separators [of ops]
  by (simp add: SerializeScriptCode_def Serialize_bytes_def flip: length_without_separators)

text \<open>
  The transaction that is hashed: a copy of the spending transaction with the script signatures replaced,
  and with the inputs and outputs left out that the hash type lets others change.
\<close>

definition sighash_input :: "CTransaction \<Rightarrow> CScript \<Rightarrow> nat \<Rightarrow> u32 \<Rightarrow> nat \<Rightarrow> CTxIn" where
  "sighash_input tx code nIn nHashType i =
     \<lparr>prevout = prevout (vin tx ! i), scriptSig = (if i = nIn then code else []),
      nSequence = (if i \<noteq> nIn \<and> (fHashSingle nHashType \<or> fHashNone nHashType) then 0 else nSequence (vin tx ! i))\<rparr>"

definition sighash_tx :: "CTransaction \<Rightarrow> CScript \<Rightarrow> nat \<Rightarrow> u32 \<Rightarrow> CTransaction" where
  "sighash_tx tx code nIn nHashType =
     \<lparr>nVersion = nVersion tx,
      vin = map (sighash_input tx code nIn nHashType) (if fAnyoneCanPay nHashType then [nIn] else [0..<length (vin tx)]),
      vout = (if fHashNone nHashType then []
              else if fHashSingle nHashType then replicate nIn CTxOut_null @ [vout tx ! nIn]
              else vout tx),
      nLockTime = nLockTime tx\<rparr>"

lemma SerializeInput_sighash:
  assumes "list_all atomic ops"
  shows "SerializeInput tx (concat ops) nIn nHashType =
    (\<lambda>i. CTxIn_Serialize (sighash_input tx (without_separators ops) nIn nHashType (if fAnyoneCanPay nHashType then nIn else i)))"
  using assms by (simp add: fun_eq_iff SerializeInput_def CTxIn_Serialize_def sighash_input_def Let_def SerializeScriptCode_ops)

lemma map_SerializeOutput:
  "map (SerializeOutput env tx nIn nHashType) [0..<if fHashSingle nHashType then nIn + 1 else length (vout tx)] =
     map (CTxOut_Serialize env SER_GETHASH)
       (if fHashSingle nHashType then replicate nIn CTxOut_null @ [vout tx ! nIn] else vout tx)"
  by (rule nth_equalityI) (auto simp: SerializeOutput_def nth_append)

lemma SignatureSerialize_tx:
  assumes "list_all atomic ops"
  shows "SignatureSerialize env tx (concat ops) nIn nHashType =
    CTransaction_Serialize env SER_GETHASH (sighash_tx tx (without_separators ops) nIn nHashType)"
  using map_SerializeOutput [of env tx nIn nHashType]
  by (auto simp: SignatureSerialize_def CTransaction_Serialize_def sighash_tx_def Serialize_vec_def Let_def comp_def
      SerializeInput_sighash [OF assms])

lemma sighash_tx_ok:
  assumes "CTransaction_ok tx" and "nIn < length (vin tx)" and "fHashSingle nHashType \<Longrightarrow> nIn < length (vout tx)"
    and "length code \<le> MAX_SIZE"
  shows "CTransaction_ok (sighash_tx tx code nIn nHashType)"
  using assms
  by (auto simp: CTransaction_ok_def sighash_tx_def sighash_input_def CTxIn_ok_def CTxOut_ok_def CTxOut_null_def list.pred_set
      MAX_SIZE_def)

text \<open>
  C7. \<open>CTransactionSignatureSerializer\<close> serialises, in place, exactly the modified copy of the transaction: for
  every hash type the bytes that are signed are those of the transaction with the code separators removed
  from the script, the other scripts blanked, and the inputs and outputs reduced as the type says. Two
  such byte strings are equal exactly when these copies, as hashed, and the hash types are equal, so a
  signature commits to all of them.
\<close>

theorem SignatureSerialize_commits:
  assumes "list_all atomic ops" and "list_all atomic ops'"
    and "CTransaction_ok tx" and "nIn < length (vin tx)" and "fHashSingle t \<Longrightarrow> nIn < length (vout tx)"
    and "CTransaction_ok tx'" and "nIn' < length (vin tx')" and "fHashSingle t' \<Longrightarrow> nIn' < length (vout tx')"
    and "length (concat ops) \<le> MAX_SIZE" and "length (concat ops') \<le> MAX_SIZE"
  shows "SignatureSerialize env tx (concat ops) nIn t =
      CTransaction_Serialize env SER_GETHASH (sighash_tx tx (without_separators ops) nIn t)
    \<and> (SignatureSerialize env tx (concat ops) nIn t @ ser_writedata32 t =
       SignatureSerialize env tx' (concat ops') nIn' t' @ ser_writedata32 t'
       \<longleftrightarrow> pruned env SER_GETHASH (sighash_tx tx (without_separators ops) nIn t) =
            pruned env SER_GETHASH (sighash_tx tx' (without_separators ops') nIn' t') \<and> t = t')"
proof -
  let ?T = "pruned env SER_GETHASH (sighash_tx tx (without_separators ops) nIn t)"
  let ?T' = "pruned env SER_GETHASH (sighash_tx tx' (without_separators ops') nIn' t')"
  have len: "length (without_separators o1) \<le> length (concat o1)" for o1
    using length_without_separators [of o1] by simp
  have ok: "CTransaction_ok ?T" "CTransaction_ok ?T'"
    using assms len by (auto intro!: CTransaction_ok_pruned sighash_tx_ok intro: order_trans)
  have ser: "SignatureSerialize env tx (concat ops) nIn t = CTransaction_Serialize no_services 0 ?T"
    "SignatureSerialize env tx' (concat ops') nIn' t' = CTransaction_Serialize no_services 0 ?T'"
    by (simp_all add: SignatureSerialize_tx [OF assms(1)] SignatureSerialize_tx [OF assms(2)] Serialize_pruned [of env SER_GETHASH _ 0])
  have c: "codec (CTransaction_Serialize no_services 0) (CMutableTransaction_Unserialize 1 1) CTransaction_ok"
    by (rule transaction_codec) simp_all
  have "CTransaction_Serialize no_services 0 ?T @ ser_writedata32 t = CTransaction_Serialize no_services 0 ?T' @ ser_writedata32 t'
    \<longleftrightarrow> ?T = ?T' \<and> t = t'"
    using codec.prefix_free [OF c ok, of "ser_writedata32 t" "ser_writedata32 t'"] ser32.prefix_free [where r = "[]" and r' = "[]"] by auto
  then have "SignatureSerialize env tx (concat ops) nIn t @ ser_writedata32 t =
    SignatureSerialize env tx' (concat ops') nIn' t' @ ser_writedata32 t' \<longleftrightarrow> ?T = ?T' \<and> t = t'"
    by (simp only: ser)
  with SignatureSerialize_tx [OF assms(1)] show ?thesis by (rule conjI)
qed


theorem SignatureSerialize_commits_witness:
  "let tx = \<lparr>nVersion = 2, vin = [\<lparr>prevout = COutPoint_null, scriptSig = [], nSequence = 5\<rparr>],
        vout = [\<lparr>nValue = 7, scriptPubKey = [OP_1], nRounds = - 10\<rparr>], nLockTime = 0\<rparr>
   in SignatureSerialize no_services tx (concat [[OP_DUP], [OP_CODESEPARATOR], [OP_1]]) 0 1 =
        CTransaction_Serialize no_services SER_GETHASH (sighash_tx tx [OP_DUP, OP_1] 0 1)
      \<and> SignatureSerialize no_services tx (concat [[OP_DUP]]) 0 1 @ ser_writedata32 1 \<noteq>
        SignatureSerialize no_services (tx\<lparr>nLockTime := 9\<rparr>) (concat [[OP_DUP]]) 0 1 @ ser_writedata32 1"
proof -
  define tx where "tx = \<lparr>nVersion = 2, vin = [\<lparr>prevout = COutPoint_null, scriptSig = [], nSequence = 5\<rparr>],
    vout = [\<lparr>nValue = 7, scriptPubKey = [OP_1], nRounds = - 10\<rparr>], nLockTime = 0\<rparr>"
  have ok: "CTransaction_ok tx" "CTransaction_ok (tx\<lparr>nLockTime := 9\<rparr>)" "0 < length (vin tx)" "0 < length (vout tx)"
    by (simp_all add: tx_def CTransaction_ok_def CTxIn_ok_def CTxOut_ok_def COutPoint_null_def uint256_null_def MAX_SIZE_def)
  have at: "list_all atomic [[OP_DUP], [OP_CODESEPARATOR], [OP_1]]" "list_all atomic [[OP_DUP]]"
    by (simp_all add: atomic_opcode)
  have small: "length (concat [[OP_DUP], [OP_CODESEPARATOR], [OP_1]]) \<le> MAX_SIZE" "length (concat [[OP_DUP]]) \<le> MAX_SIZE"
    by (simp_all add: MAX_SIZE_def)
  have ne: "pruned no_services SER_GETHASH (sighash_tx tx c 0 1) \<noteq> pruned no_services SER_GETHASH (sighash_tx (tx\<lparr>nLockTime := 9\<rparr>) c 0 1)" for c
    by (simp add: tx_def pruned_def sighash_tx_def)
  have "SignatureSerialize no_services tx (concat [[OP_DUP], [OP_CODESEPARATOR], [OP_1]]) 0 1 =
      CTransaction_Serialize no_services SER_GETHASH (sighash_tx tx [OP_DUP, OP_1] 0 1)"
    using SignatureSerialize_commits [OF at(1,1) ok(1,3) _ ok(1,3) _ small(1,1), of 1 1 no_services] ok(4)
    by (simp add: without_separators_def)
  moreover have "SignatureSerialize no_services tx (concat [[OP_DUP]]) 0 1 @ ser_writedata32 1 \<noteq>
      SignatureSerialize no_services (tx\<lparr>nLockTime := 9\<rparr>) (concat [[OP_DUP]]) 0 1 @ ser_writedata32 1"
    using SignatureSerialize_commits [OF at(2,2) ok(1,3) _ ok(2) _ _ small(2,2), of 1 0 1 no_services] ok(3,4) ne
    by fastforce
  ultimately show ?thesis by (simp add: tx_def)
qed

end
