(* ===== verification/Merkle.thy ===== *)
theory Merkle
  imports Transaction
begin

text \<open>
  Merkle trees, after \<^verbatim>\<open>src/consensus/merkle.cpp\<close> and \<^verbatim>\<open>src/merkleblock.cpp\<close>: the constant-space computation of
  roots and branches, the recursive node hashes, and partial trees that prove which transactions a
  block contains. The theorems say that the constant-space computation gives the root of the recursive
  tree, that a branch leads back to the root, and that a partial tree gives back what was put in.
\<close>

section \<open>The constant-space computation\<close>

text \<open>
  \<open>count\<close> and the levels are 32-bit integers in the code, which is limited to \<open>2 ^ 32\<close> leaves; for at most
  \<open>2 ^ 31\<close> leaves none of them wraps, and the model uses natural numbers. The array \<open>inner\<close> has 32
  entries: the loops of the model stop at level 32, where the code would leave the array.
\<close>

definition merkle_hash :: "uint256 \<Rightarrow> uint256 \<Rightarrow> uint256" where
  "merkle_hash a b = fst (CHash256_Finalize (CHash256_Write (CHash256_Write (CSHA256 fresh_buf) a) b))"

text \<open>The variables of the loops; \<open>matchlevel\<close> is -1 when no entry of \<open>inner\<close> depends on the matching leaf.\<close>

record merkle_state =
  m_inner :: "uint256 list"
  m_level :: nat
  m_h :: uint256
  m_matchh :: bool
  m_matchlevel :: int
  m_mutated :: bool
  m_branch :: "uint256 list"

definition merkle_branch_step :: "merkle_state \<Rightarrow> merkle_state" where
  "merkle_branch_step s =
     (if m_matchh s then s\<lparr>m_branch := m_branch s @ [m_inner s ! m_level s]\<rparr>
      else if m_matchlevel s = int (m_level s) then s\<lparr>m_branch := m_branch s @ [m_h s], m_matchh := True\<rparr>
      else s)"

function merkle_carry :: "nat \<Rightarrow> merkle_state \<Rightarrow> merkle_state" where
  "merkle_carry count s =
     (if m_level s < 32 \<and> \<not> bit count (m_level s)
      then
        let s1 = merkle_branch_step s
        in merkle_carry count
             (s1\<lparr>m_mutated := m_mutated s1 \<or> m_inner s1 ! m_level s1 = m_h s1,
                 m_h := merkle_hash (m_inner s1 ! m_level s1) (m_h s1), m_level := m_level s1 + 1\<rparr>)
      else s)"
  by pat_completeness auto
termination by (relation "measure (\<lambda>(count, s). 32 - m_level s)") (auto simp: merkle_branch_step_def)

declare merkle_carry.simps [simp del]

definition merkle_leaf :: "nat \<Rightarrow> merkle_state \<Rightarrow> nat \<times> uint256 \<Rightarrow> merkle_state" where
  "merkle_leaf branchpos s leaf =
     (case leaf of (count, h) \<Rightarrow>
        let s1 = merkle_carry (count + 1) (s\<lparr>m_level := 0, m_h := h, m_matchh := (count = branchpos)\<rparr>)
        in s1\<lparr>m_inner := (m_inner s1)[m_level s1 := m_h s1],
              m_matchlevel := (if m_matchh s1 then int (m_level s1) else m_matchlevel s1)\<rparr>)"

text \<open>The final sweep: the lowest set bit, then the levels above it.\<close>

function lowest_bit :: "nat \<Rightarrow> nat \<Rightarrow> nat" where
  "lowest_bit count level = (if level < 32 \<and> \<not> bit count level then lowest_bit count (level + 1) else level)"
  by pat_completeness auto
termination by (relation "measure (\<lambda>(count, level). 32 - level)") auto

declare lowest_bit.simps [simp del]

function merkle_up :: "nat \<Rightarrow> merkle_state \<Rightarrow> merkle_state" where
  "merkle_up count s =
     (if m_level s < 32 \<and> \<not> bit count (m_level s)
      then
        let s1 = merkle_branch_step s
        in merkle_up count (s1\<lparr>m_h := merkle_hash (m_inner s1 ! m_level s1) (m_h s1), m_level := m_level s1 + 1\<rparr>)
      else s)"
  by pat_completeness auto
termination by (relation "measure (\<lambda>(count, s). 32 - m_level s)") (auto simp: merkle_branch_step_def)

declare merkle_up.simps [simp del]

lemma merkle_up_level: "m_level s \<le> m_level (merkle_up count s)"
proof (induction count s rule: merkle_up.induct)
  case (1 count s)
  then show ?case
    by (subst merkle_up.simps) (auto simp: Let_def merkle_branch_step_def split: if_splits)
qed

function merkle_sweep :: "nat \<Rightarrow> merkle_state \<Rightarrow> merkle_state" where
  "merkle_sweep count s =
     (if m_level s < 32 \<and> count \<noteq> 2 ^ m_level s
      then
        let s1 = (if m_matchh s then s\<lparr>m_branch := m_branch s @ [m_h s]\<rparr> else s);
            s2 = s1\<lparr>m_h := merkle_hash (m_h s1) (m_h s1), m_level := m_level s1 + 1\<rparr>;
            count' = count + 2 ^ m_level s
        in merkle_sweep count' (merkle_up count' s2)
      else s)"
  by pat_completeness auto
termination
  by (relation "measure (\<lambda>(count, s). 32 - m_level s)")
    (auto intro!: diff_less_mono2 less_le_trans [OF _ merkle_up_level])

declare merkle_sweep.simps [simp del]

definition merkle_start :: merkle_state where
  "merkle_start =
     \<lparr>m_inner = replicate 32 uint256_null, m_level = 0, m_h = uint256_null, m_matchh = False, m_matchlevel = - 1,
      m_mutated = False, m_branch = []\<rparr>"

text \<open>The root, whether two equal hashes were combined, and the branch.\<close>

definition MerkleComputation :: "uint256 list \<Rightarrow> nat \<Rightarrow> uint256 \<times> bool \<times> uint256 list" where
  "MerkleComputation leaves branchpos =
     (if length leaves = 0 then (uint256_null, False, [])
      else
        let count = length leaves;
            s = foldl (merkle_leaf branchpos) merkle_start (enumerate 0 leaves);
            level = lowest_bit count 0;
            s' = merkle_sweep count (s\<lparr>m_level := level, m_h := m_inner s ! level, m_matchh := (m_matchlevel s = int level)\<rparr>)
        in (m_h s', m_mutated s', m_branch s'))"

text \<open>The position -1 is the largest 32-bit number.\<close>

definition ComputeMerkleRoot :: "uint256 list \<Rightarrow> uint256 \<times> bool" where
  "ComputeMerkleRoot leaves = (case MerkleComputation leaves (2 ^ 32 - 1) of (root, mutated, branch) \<Rightarrow> (root, mutated))"

definition ComputeMerkleBranch :: "uint256 list \<Rightarrow> nat \<Rightarrow> uint256 list" where
  "ComputeMerkleBranch leaves position = snd (snd (MerkleComputation leaves position))"

fun ComputeMerkleRootFromBranch :: "uint256 \<Rightarrow> uint256 list \<Rightarrow> nat \<Rightarrow> uint256" where
  "ComputeMerkleRootFromBranch hash [] nIndex = hash"
| "ComputeMerkleRootFromBranch hash (it # vMerkleBranch) nIndex =
     ComputeMerkleRootFromBranch
       (if odd nIndex then Hash fresh_buf [it, hash] else Hash fresh_buf [hash, it]) vMerkleBranch (nIndex div 2)"

definition BlockMerkleRoot :: "prune_env \<Rightarrow> CTransaction list \<Rightarrow> uint256 \<times> bool" where
  "BlockMerkleRoot env vtx = ComputeMerkleRoot (map (ComputeHash fresh_buf env) vtx)"

definition BlockMerkleBranch :: "prune_env \<Rightarrow> CTransaction list \<Rightarrow> nat \<Rightarrow> uint256 list" where
  "BlockMerkleBranch env vtx position = ComputeMerkleBranch (map (ComputeHash fresh_buf env) vtx) position"

section \<open>The recursive tree\<close>

definition CalcTreeWidth :: "nat \<Rightarrow> nat \<Rightarrow> nat" where
  "CalcTreeWidth n height = (n + 2 ^ height - 1) div 2 ^ height"

primrec CalcHash :: "nat \<Rightarrow> uint256 list \<Rightarrow> nat \<Rightarrow> nat \<Rightarrow> uint256" where
  "CalcHash n vTxid 0 pos = vTxid ! pos"
| "CalcHash n vTxid (Suc height) pos =
     (let left = CalcHash n vTxid height (pos * 2);
          right = (if pos * 2 + 1 < CalcTreeWidth n height then CalcHash n vTxid height (pos * 2 + 1) else left)
      in Hash fresh_buf [left, right])"

declare CalcHash.simps(2) [simp del]

lemma CalcTreeWidth_Suc: "CalcTreeWidth n (Suc h) = (CalcTreeWidth n h + 1) div 2"
proof -
  define m where "m = n + 2 ^ h - 1"
  have "1 \<le> (2 :: nat) ^ h" by simp
  then have "n + 2 ^ Suc h - 1 = m + 2 ^ h" unfolding power_Suc m_def by linarith
  then have "CalcTreeWidth n (Suc h) = (m + 2 ^ h) div 2 ^ h div 2"
    unfolding CalcTreeWidth_def by (simp only: power_Suc2 div_mult2_eq)
  moreover have "CalcTreeWidth n h = m div 2 ^ h" by (simp add: CalcTreeWidth_def m_def)
  moreover have "(m + 2 ^ h) div 2 ^ h = m div 2 ^ h + 1" by (rule div_add_self2) simp
  ultimately show ?thesis by simp
qed

function tree_height :: "nat \<Rightarrow> nat \<Rightarrow> nat" where
  "tree_height n nHeight = (if CalcTreeWidth n nHeight > 1 then tree_height n (nHeight + 1) else nHeight)"
  by pat_completeness auto
termination
  by (relation "measure (\<lambda>(n, h). CalcTreeWidth n h)") (auto simp: CalcTreeWidth_Suc)

declare tree_height.simps [simp del]

section \<open>The nodes of the tree\<close>

abbreviation node :: "uint256 list \<Rightarrow> nat \<Rightarrow> nat \<Rightarrow> uint256" where
  "node leaves h p \<equiv> CalcHash (length leaves) leaves h p"

abbreviation width :: "uint256 list \<Rightarrow> nat \<Rightarrow> nat" where
  "width leaves h \<equiv> CalcTreeWidth (length leaves) h"

lemma merkle_hash_Hash: "merkle_hash a b = Hash fresh_buf [a, b]"
  by (simp add: merkle_hash_def Hash_def)

lemma node_pair:
  assumes "2 * p + 1 < width leaves h"
  shows "node leaves (Suc h) p = merkle_hash (node leaves h (2 * p)) (node leaves h (2 * p + 1))"
  using assms by (simp add: CalcHash.simps(2) merkle_hash_Hash Let_def mult.commute)

lemma node_single:
  assumes "width leaves h \<le> 2 * p + 1"
  shows "node leaves (Suc h) p = merkle_hash (node leaves h (2 * p)) (node leaves h (2 * p))"
  using assms by (simp add: CalcHash.simps(2) merkle_hash_Hash Let_def mult.commute)

text \<open>The other hash that is combined with node \<open>p\<close> at height \<open>h\<close>, and those on the way up from a leaf.\<close>

definition sibling :: "uint256 list \<Rightarrow> nat \<Rightarrow> nat \<Rightarrow> uint256" where
  "sibling leaves h p =
     (if odd p then node leaves h (p - 1) else if p + 1 < width leaves h then node leaves h (p + 1) else node leaves h p)"

definition path :: "uint256 list \<Rightarrow> nat \<Rightarrow> nat \<Rightarrow> uint256 list" where
  "path leaves pos h = map (\<lambda>k. sibling leaves k (pos div 2 ^ k)) [0..<h]"

lemma path_0 [simp]: "path leaves pos 0 = []"
  by (simp add: path_def)

lemma path_Suc: "path leaves pos (Suc h) = path leaves pos h @ [sibling leaves h (pos div 2 ^ h)]"
  by (simp add: path_def)

lemma node_sibling:
  assumes "p < width leaves h"
  shows "node leaves (Suc h) (p div 2) =
    (if odd p then merkle_hash (sibling leaves h p) (node leaves h p) else merkle_hash (node leaves h p) (sibling leaves h p))"
proof (cases "odd p")
  case True
  then have "2 * (p div 2) + 1 = p" by simp
  then show ?thesis using True assms node_pair [of "p div 2" leaves h] by (simp add: sibling_def)
next
  case False
  then have e: "2 * (p div 2) = p" by simp
  then show ?thesis
    using False node_pair [of "p div 2" leaves h] node_single [of leaves h "p div 2"] by (simp add: sibling_def)
qed

lemma width_bounds: "length leaves \<le> width leaves h * 2 ^ h" "width leaves h * 2 ^ h < length leaves + 2 ^ h"
proof -
  define d where "d = (2 :: nat) ^ h"
  define m where "m = length leaves + d - 1"
  define w where "w = m div d * d"
  have d: "0 < d" by (simp add: d_def)
  have "m = w + m mod d" by (simp add: w_def)
  moreover have "m mod d < d" "length leaves + d = m + 1" using d by (simp_all add: m_def)
  moreover have "width leaves h * 2 ^ h = w" by (simp add: CalcTreeWidth_def m_def d_def w_def)
  ultimately show "length leaves \<le> width leaves h * 2 ^ h" and "width leaves h * 2 ^ h < length leaves + 2 ^ h"
    unfolding d_def by linarith+
qed

lemma less_width: "pos < length leaves \<Longrightarrow> pos div 2 ^ h < width leaves h"
  using width_bounds(1) [of leaves h] by (simp add: less_mult_imp_div_less)

lemma RootFromBranch_path:
  assumes "pos < length leaves"
  shows "ComputeMerkleRootFromBranch (node leaves h (pos div 2 ^ h)) (map (\<lambda>k. sibling leaves k (pos div 2 ^ k)) [h..<h + m]) (pos div 2 ^ h)
    = node leaves (h + m) (pos div 2 ^ (h + m))"
proof (induction m arbitrary: h)
  case 0
  then show ?case by simp
next
  case (Suc m)
  let ?p = "pos div 2 ^ h"
  have "[h..<h + Suc m] = h # [Suc h..<Suc h + m]" by (simp add: upt_conv_Cons)
  moreover have "?p div 2 = pos div 2 ^ Suc h" by (simp add: div_mult2_eq [symmetric] mult.commute)
  moreover have "(if odd ?p then Hash fresh_buf [sibling leaves h ?p, node leaves h ?p]
      else Hash fresh_buf [node leaves h ?p, sibling leaves h ?p]) = node leaves (Suc h) (?p div 2)"
    using node_sibling [OF less_width [OF assms], of h] by (simp add: merkle_hash_Hash)
  ultimately show ?case using Suc.IH [of "Suc h"] by simp
qed

section \<open>The array of subtree hashes\<close>

text \<open>After \<open>count\<close> leaves, each set bit of \<open>count\<close> has the hash of the last complete subtree of that height.\<close>

definition inner_ok :: "uint256 list \<Rightarrow> nat \<Rightarrow> uint256 list \<Rightarrow> bool" where
  "inner_ok leaves count ins \<longleftrightarrow>
     length ins = 32 \<and> (\<forall>l. bit count l \<longrightarrow> ins ! l = node leaves l (count div 2 ^ l - 1))"

text \<open>The branch collected for the leaf \<open>pos\<close>, up to the entry of \<open>inner\<close> that depends on it.\<close>

definition match_ok :: "uint256 list \<Rightarrow> nat \<Rightarrow> nat \<Rightarrow> int \<Rightarrow> uint256 list \<Rightarrow> bool" where
  "match_ok leaves pos count ml branch \<longleftrightarrow>
     (if pos < count
      then \<exists>l. ml = int l \<and> bit count l \<and> pos div 2 ^ l = count div 2 ^ l - 1 \<and> branch = path leaves pos l
      else ml = - 1 \<and> branch = [])"

text \<open>Inside the loops: \<open>h\<close> is node \<open>p\<close> of the current level and either covers the leaf or not yet.\<close>

definition covers :: "uint256 list \<Rightarrow> nat \<Rightarrow> nat \<Rightarrow> nat \<Rightarrow> merkle_state \<Rightarrow> bool" where
  "covers leaves pos count p s \<longleftrightarrow>
     m_h s = node leaves (m_level s) p
     \<and> (if m_matchh s then pos div 2 ^ m_level s = p \<and> m_branch s = path leaves pos (m_level s)
        else match_ok leaves pos count (m_matchlevel s) (m_branch s)
          \<and> (\<forall>l. m_matchlevel s = int l \<longrightarrow> m_level s \<le> l))"

lemma div_pred:
  assumes "(2 :: nat) ^ l dvd c" and "0 < c"
  shows "(c - 1) div 2 ^ l = c div 2 ^ l - 1"
proof -
  obtain k where k: "c = 2 ^ l * k" using assms(1) by (rule dvdE)
  then obtain j where j: "k = Suc j" using assms(2) by (cases k) auto
  define d where "d = (2 :: nat) ^ l"
  have d: "0 < d" by (simp add: d_def)
  have "c - 1 = (d - 1) + d * j" using d by (simp add: k j d_def)
  then have "(c - 1) div d = j" using d by (simp only: div_mult_self2) simp
  then show ?thesis using d by (simp add: k j d_def)
qed

lemma combine_step:
  assumes ins: "inner_ok leaves c (m_inner s)" and prev: "c div 2 ^ m_level s = 2 * k - 1" and k0: "0 < k"
    and w: "2 * k \<le> width leaves (m_level s)" and cov: "covers leaves pos c (2 * k - 1) s"
  shows "covers leaves pos c (k - 1)
    ((merkle_branch_step s)\<lparr>m_h := merkle_hash (m_inner s ! m_level s) (m_h s), m_level := Suc (m_level s)\<rparr>)"
proof -
  define l where "l = m_level s"
  define q where "q = 2 * k"
  have q2: "q - 1 - 1 = q - 2" by simp
  have "bit c l" using prev k0 by (simp add: bit_iff_odd l_def)
  then have i: "m_inner s ! l = node leaves l (q - 2)"
    using ins prev unfolding inner_ok_def l_def [symmetric] q_def [symmetric] by (metis q2)
  have par: "node leaves (Suc l) (k - 1) = merkle_hash (node leaves l (q - 2)) (node leaves l (q - 1))"
  proof -
    have "2 * (k - 1) = q - 2" "2 * (k - 1) + 1 = q - 1" using k0 by (simp_all add: q_def)
    then show ?thesis using node_pair [of "k - 1" leaves l] w k0 by (simp add: q_def l_def)
  qed
  have sib: "sibling leaves l (q - 1) = node leaves l (q - 2)" "sibling leaves l (q - 2) = node leaves l (q - 1)"
  proof -
    have "q - 2 + 1 = q - 1" "odd (q - 1)" "even (q - 2)" "q - 1 < width leaves l" using k0 w by (auto simp: q_def l_def)
    then show "sibling leaves l (q - 1) = node leaves l (q - 2)" "sibling leaves l (q - 2) = node leaves l (q - 1)"
      using q2 by (simp_all add: sibling_def)
  qed
  have h: "m_h s = node leaves l (q - 1)" using cov by (simp add: covers_def l_def q_def)
  have half: "pos div 2 ^ Suc l = pos div 2 ^ l div 2" by (simp add: div_mult2_eq [symmetric] mult.commute)
  have d2: "(q - 1) div 2 = k - 1" "(q - 2) div 2 = k - 1" using k0 by (simp_all add: q_def)
  consider (m) "m_matchh s" | (l) "\<not> m_matchh s" "m_matchlevel s = int l" | (n) "\<not> m_matchh s" "m_matchlevel s \<noteq> int l"
    by blast
  then show ?thesis
  proof cases
    case m
    then have "pos div 2 ^ l = q - 1" "m_branch s = path leaves pos l"
      using cov by (simp_all add: covers_def l_def q_def)
    then show ?thesis
      using m i h par half d2 sib by (simp add: covers_def merkle_branch_step_def path_Suc l_def [symmetric])
  next
    case l
    then have "pos div 2 ^ l = q - 2 \<and> m_branch s = path leaves pos l"
      using cov prev q2 by (auto simp: covers_def match_ok_def l_def q_def split: if_splits)
    then show ?thesis
      using l i h par half d2 sib by (simp add: covers_def merkle_branch_step_def path_Suc l_def [symmetric])
  next
    case n
    then have "\<forall>j. m_matchlevel s = int j \<longrightarrow> Suc l \<le> j" "match_ok leaves pos c (m_matchlevel s) (m_branch s)"
      using cov by (auto simp: covers_def l_def [symmetric] Suc_le_eq order.strict_iff_order)
    then show ?thesis
      using n i h par by (simp add: covers_def merkle_branch_step_def l_def [symmetric])
  qed
qed

lemma carry_step:
  assumes "inner_ok leaves (c - 1) (m_inner s)" and dvd: "2 ^ m_level s dvd c" and c: "0 < c" "c \<le> length leaves"
    and lv: "\<not> bit c (m_level s)" and cov: "covers leaves pos (c - 1) (c div 2 ^ m_level s - 1) s"
  shows "2 ^ Suc (m_level s) dvd c"
    and "covers leaves pos (c - 1) (c div 2 ^ Suc (m_level s) - 1)
      ((merkle_branch_step s)\<lparr>m_h := merkle_hash (m_inner s ! m_level s) (m_h s), m_level := Suc (m_level s)\<rparr>)"
proof -
  define l where "l = m_level s"
  obtain q where c': "c = q * 2 ^ l" using dvd by (metis dvd_def l_def mult.commute)
  then have q: "c div 2 ^ l = q" by simp
  then have "even q" using lv by (simp add: bit_iff_odd l_def)
  then obtain k where k: "q = 2 * k" by (rule evenE)
  have k0: "0 < k" using c(1) c' k by (cases k) auto
  have prev: "(c - 1) div 2 ^ l = 2 * k - 1" using div_pred [OF dvd c(1)] q k by (simp add: l_def)
  have "q * 2 ^ l \<le> width leaves l * 2 ^ l" using c(2) c' width_bounds(1) [of leaves l] by linarith
  then have w: "2 * k \<le> width leaves l" using k by simp
  show "2 ^ Suc (m_level s) dvd c" using c' k by (simp add: l_def)
  have up: "c div 2 ^ Suc l = k" using c' k by simp
  show "covers leaves pos (c - 1) (c div 2 ^ Suc (m_level s) - 1)
      ((merkle_branch_step s)\<lparr>m_h := merkle_hash (m_inner s ! m_level s) (m_h s), m_level := Suc (m_level s)\<rparr>)"
    using combine_step [OF assms(1) prev [unfolded l_def] k0 w [unfolded l_def], of pos] cov q k up by (simp add: l_def)
qed

lemma carry_inner [simp]: "m_inner (merkle_branch_step s) = m_inner s" "m_level (merkle_branch_step s) = m_level s"
  "m_h (merkle_branch_step s) = m_h s" "m_mutated (merkle_branch_step s) = m_mutated s"
  "m_matchlevel (merkle_branch_step s) = m_matchlevel s"
  by (simp_all add: merkle_branch_step_def)

lemma covers_mutated [simp]: "covers leaves pos count p (s\<lparr>m_mutated := b\<rparr>) = covers leaves pos count p s"
  by (simp add: covers_def)

lemma exists_bit: "0 < c \<Longrightarrow> c < 2 ^ k \<Longrightarrow> \<exists>l<k. bit (c :: nat) l"
proof (rule ccontr)
  assume c: "0 < c" "c < 2 ^ k" "\<not> (\<exists>l<k. bit c l)"
  have "take_bit k c = 0" by (rule bit_eqI) (use c(3) in \<open>auto simp: bit_take_bit_iff\<close>)
  then show False using c(1,2) by (simp add: take_bit_nat_eq_self)
qed

lemma dvd_level:
  assumes "2 ^ l dvd (c :: nat)" and "0 < c" and "c \<le> 2 ^ 31"
  shows "l < 32"
proof -
  have "(2 :: nat) ^ l \<le> 2 ^ 31" using assms dvd_imp_le [OF assms(1)] by linarith
  then have "l \<le> 31" by (rule power_le_imp_le_exp [rotated]) simp
  then show ?thesis by simp
qed

lemma merkle_carry_ok:
  assumes "inner_ok leaves (c - 1) (m_inner s)" and "2 ^ m_level s dvd c" and "0 < c" "c \<le> length leaves" "length leaves \<le> 2 ^ 31"
    and "covers leaves pos (c - 1) (c div 2 ^ m_level s - 1) s"
  shows "let s' = merkle_carry c s
    in m_inner s' = m_inner s \<and> m_matchlevel s' = m_matchlevel s \<and> 2 ^ m_level s' dvd c \<and> bit c (m_level s')
      \<and> covers leaves pos (c - 1) (c div 2 ^ m_level s' - 1) s'"
  using assms
proof (induction c s rule: merkle_carry.induct)
  case (1 c s)
  have l: "m_level s < 32" using dvd_level [OF 1(3,4)] 1(5,6) by simp
  show ?case
  proof (cases "bit c (m_level s)")
    case True
    then show ?thesis using 1 by (subst merkle_carry.simps) (simp add: Let_def)
  next
    case False
    let ?b = "merkle_branch_step s"
    let ?t = "?b\<lparr>m_mutated := m_mutated ?b \<or> m_inner ?b ! m_level ?b = m_h ?b,
      m_h := merkle_hash (m_inner ?b ! m_level ?b) (m_h ?b), m_level := m_level ?b + 1\<rparr>"
    have c: "merkle_carry c s = merkle_carry c ?t"
      using False l by (subst merkle_carry.simps) (simp add: Let_def)
    note st = carry_step [OF 1(2,3,4,5) False 1(7)]
    have cov: "covers leaves pos (c - 1) (c div 2 ^ m_level ?t - 1) ?t"
      using st(2) by (simp add: covers_def split: if_splits)
    have "let s' = merkle_carry c ?t
      in m_inner s' = m_inner ?t \<and> m_matchlevel s' = m_matchlevel ?t \<and> 2 ^ m_level s' dvd c \<and> bit c (m_level s')
        \<and> covers leaves pos (c - 1) (c div 2 ^ m_level s' - 1) s'"
      by (rule 1(1) [OF _ refl]) (use False l 1(2,4,5,6) st(1) cov in \<open>simp_all\<close>)
    then show ?thesis by (simp add: c Let_def)
  qed
qed

text \<open>Adding one leaf.\<close>

lemma above_lowest:
  assumes "2 ^ k dvd c" and "bit c k" and "k < l"
  shows "bit (c - 1) l = bit (c :: nat) l" and "(c - 1) div 2 ^ l = c div 2 ^ l"
proof -
  have "0 < c" using assms(2) by (cases c) auto
  have "\<not> 2 ^ l dvd c"
  proof
    assume "2 ^ l dvd c"
    moreover have "(2 :: nat) ^ Suc k dvd 2 ^ l" using assms(3) by (intro le_imp_power_dvd) simp
    ultimately have "2 ^ Suc k dvd c" by (rule dvd_trans [rotated])
    then have "even (c div 2 ^ k)" by (metis dvd_div_iff_mult power_Suc2 mult.commute power_not_zero zero_neq_numeral assms(1))
    then show False using assms(2) by (simp add: bit_iff_odd)
  qed
  then have m: "0 < c mod 2 ^ l" by (simp add: mod_greater_zero_iff_not_dvd)
  define d where "d = (2 :: nat) ^ l"
  have d: "0 < d" by (simp add: d_def)
  have "c - 1 = c div d * d + (c mod d - 1)" using m div_mult_mod_eq [of c d] by (simp add: d_def)
  moreover have "c mod d - 1 < d" using d mod_less_divisor [of d c] by linarith
  ultimately have "(c - 1) div d = c div d" using d by simp
  then show q: "(c - 1) div 2 ^ l = c div 2 ^ l" by (simp add: d_def)
  then show "bit (c - 1) l = bit c l" by (simp add: bit_iff_odd)
qed

lemma merkle_leaf_ok:
  assumes ins: "inner_ok leaves count (m_inner s)" and mt: "match_ok leaves pos count (m_matchlevel s) (m_branch s)"
    and c: "count < length leaves" "length leaves \<le> 2 ^ 31"
  shows "inner_ok leaves (Suc count) (m_inner (merkle_leaf pos s (count, leaves ! count)))"
    and "match_ok leaves pos (Suc count) (m_matchlevel (merkle_leaf pos s (count, leaves ! count)))
      (m_branch (merkle_leaf pos s (count, leaves ! count)))"
proof -
  define s0 where "s0 = s\<lparr>m_level := 0, m_h := leaves ! count, m_matchh := (count = pos)\<rparr>"
  define s1 where "s1 = merkle_carry (Suc count) s0"
  define l where "l = m_level s1"
  have "covers leaves pos count count s0"
    using mt by (auto simp: covers_def s0_def match_ok_def)
  then have "m_inner s1 = m_inner s0 \<and> m_matchlevel s1 = m_matchlevel s0 \<and> 2 ^ l dvd Suc count \<and> bit (Suc count) l
      \<and> covers leaves pos count (Suc count div 2 ^ l - 1) s1"
    using merkle_carry_ok [of leaves "Suc count" s0 pos] ins c by (simp add: s0_def s1_def l_def Let_def)
  then have i1: "m_inner s1 = m_inner s" and ml1: "m_matchlevel s1 = m_matchlevel s" and dv: "2 ^ l dvd Suc count" and b: "bit (Suc count) l"
    and cov: "covers leaves pos count (Suc count div 2 ^ l - 1) s1"
    by (simp_all add: s0_def)
  have l32: "l < 32" using dvd_level [OF dv] c by simp
  have low: "\<not> bit (Suc count) j" if "j < l" for j
  proof -
    have "(2 :: nat) ^ Suc j dvd 2 ^ l" using that by (intro le_imp_power_dvd) simp
    then have "2 ^ Suc j dvd Suc count" using dv by (rule dvd_trans)
    then obtain k where "Suc count = 2 ^ Suc j * k" by (rule dvdE)
    then have "Suc count = 2 ^ j * (2 * k)" by simp
    then show ?thesis by (simp only: bit_iff_odd) simp
  qed
  have above: "bit count j = bit (Suc count) j" "count div 2 ^ j = Suc count div 2 ^ j" if "l < j" for j
    using above_lowest [OF dv b that] by simp_all
  have leaf: "merkle_leaf pos s (count, leaves ! count) = s1\<lparr>m_inner := (m_inner s1)[l := m_h s1],
    m_matchlevel := (if m_matchh s1 then int l else m_matchlevel s1)\<rparr>"
    by (simp add: merkle_leaf_def Let_def s0_def s1_def l_def)
  have h: "m_h s1 = node leaves l (Suc count div 2 ^ l - 1)" using cov by (simp add: covers_def l_def)
  have "(m_inner s1)[l := m_h s1] ! j = node leaves j (Suc count div 2 ^ j - 1)" if "bit (Suc count) j" for j
  proof -
    consider "j < l" | "j = l" | "l < j" by linarith
    then show ?thesis
    proof cases
      case 1
      then show ?thesis using low that by blast
    next
      case 2
      then show ?thesis using ins i1 h l32 by (simp add: inner_ok_def)
    next
      case 3
      then show ?thesis using ins i1 above [OF 3] that by (simp add: inner_ok_def)
    qed
  qed
  then show "inner_ok leaves (Suc count) (m_inner (merkle_leaf pos s (count, leaves ! count)))"
    using ins i1 by (simp add: leaf inner_ok_def)
  show "match_ok leaves pos (Suc count) (m_matchlevel (merkle_leaf pos s (count, leaves ! count)))
      (m_branch (merkle_leaf pos s (count, leaves ! count)))"
  proof (cases "m_matchh s1")
    case True
    then have m: "pos div 2 ^ l = Suc count div 2 ^ l - 1" "m_branch s1 = path leaves pos l"
      using cov by (simp_all add: covers_def l_def)
    have "pos < Suc count"
    proof -
      have "0 < Suc count div 2 ^ l" using b by (cases "Suc count div 2 ^ l") (auto simp: bit_iff_odd)
      then have "pos div 2 ^ l < Suc count div 2 ^ l" using m(1) by linarith
      then show ?thesis by (meson div_le_mono not_le)
    qed
    then show ?thesis using True m b by (simp add: leaf match_ok_def)
  next
    case False
    then have m: "match_ok leaves pos count (m_matchlevel s) (m_branch s1)" "\<And>j. m_matchlevel s = int j \<Longrightarrow> l \<le> j"
      using cov ml1 by (auto simp: covers_def l_def)
    have np: "pos \<noteq> count"
    proof
      assume "pos = count"
      then have "m_matchlevel s = - 1" using mt by (simp add: match_ok_def)
      have "m_matchh (merkle_carry c t)" if "m_matchh t" for c t
        using that
      proof (induction c t rule: merkle_carry.induct)
        case (1 c t)
        then show ?case by (subst merkle_carry.simps) (simp add: Let_def merkle_branch_step_def)
      qed
      then show False using False \<open>pos = count\<close> by (simp add: s1_def s0_def)
    qed
    show ?thesis
    proof (cases "pos < count")
      case True
      then obtain j where j: "m_matchlevel s = int j" "bit count j" "pos div 2 ^ j = count div 2 ^ j - 1" "m_branch s1 = path leaves pos j"
        using m(1) by (auto simp: match_ok_def)
      have "\<not> bit count l"
      proof -
        have "count div 2 ^ l = Suc count div 2 ^ l - 1" using div_pred [OF dv] by simp
        moreover have "odd (Suc count div 2 ^ l)" using b by (simp add: bit_iff_odd)
        ultimately show ?thesis by (simp add: bit_iff_odd)
      qed
      then have "l < j" using m(2) [OF j(1)] j(2) by (cases "j = l") auto
      then show ?thesis using False True j ml1 above [of j] by (simp add: leaf match_ok_def)
    next
      case not: False
      then show ?thesis using False np m(1) ml1 by (simp add: leaf match_ok_def)
    qed
  qed
qed

lemma merkle_leaves_ok:
  assumes "k \<le> length leaves" and "length leaves \<le> 2 ^ 31"
  shows "let s = foldl (merkle_leaf pos) merkle_start (enumerate 0 (take k leaves))
    in inner_ok leaves k (m_inner s) \<and> match_ok leaves pos k (m_matchlevel s) (m_branch s)"
  using assms(1)
proof (induction k)
  case 0
  then show ?case by (simp add: merkle_start_def inner_ok_def match_ok_def)
next
  case (Suc k)
  have "enumerate 0 (take (Suc k) leaves) = enumerate 0 (take k leaves) @ [(k, leaves ! k)]"
    using Suc.prems by (simp add: take_Suc_conv_app_nth enumerate_append_eq)
  then show ?case
    using Suc merkle_leaf_ok [of leaves k _ pos] assms(2) by (simp add: Let_def)
qed

section \<open>The final sweep\<close>

text \<open>
  In the sweep \<open>count\<close> is the number of leaves rounded up to whole nodes of the current level; \<open>k\<close> is the
  lowest set bit of the number of leaves.
\<close>

definition sweep_ok :: "uint256 list \<Rightarrow> nat \<Rightarrow> nat \<Rightarrow> nat \<Rightarrow> merkle_state \<Rightarrow> bool" where
  "sweep_ok leaves pos k count s \<longleftrightarrow>
     2 ^ k dvd length leaves \<and> bit (length leaves) k \<and> k \<le> m_level s
     \<and> count = width leaves (m_level s) * 2 ^ m_level s \<and> (\<forall>j<m_level s. 1 < width leaves j)
     \<and> inner_ok leaves (length leaves) (m_inner s)
     \<and> covers leaves pos (length leaves) (width leaves (m_level s) - 1) s"

lemma width_above_lowest:
  assumes "2 ^ k dvd length leaves" and "bit (length leaves) k" and "k < l"
  shows "length leaves div 2 ^ l = width leaves l - 1"
proof -
  define d where "d = (2 :: nat) ^ l"
  define n where "n = length leaves"
  have d: "0 < d" by (simp add: d_def)
  have nd: "\<not> d dvd n"
  proof
    assume "d dvd n"
    have "0 < n" using assms(2) by (cases n) (auto simp: n_def)
    then have "(n - 1) div d = n div d - 1" using div_pred [of l n] \<open>d dvd n\<close> by (simp add: d_def)
    moreover have "(n - 1) div d = n div d" using above_lowest(2) [OF assms] by (simp add: n_def d_def)
    moreover have "0 < n div d" using \<open>d dvd n\<close> \<open>0 < n\<close> d by (simp add: div_greater_zero_iff dvd_imp_le)
    ultimately show False by linarith
  qed
  then have m: "0 < n mod d" by (simp add: mod_greater_zero_iff_not_dvd)
  have "d * (n div d + 1) = n div d * d + d" by simp
  then have "n + d - 1 = (n mod d - 1) + d * (n div d + 1)" using m div_mult_mod_eq [of n d] by linarith
  then have "(n + d - 1) div d = (n div d + 1) + (n mod d - 1) div d" using d by (simp only: div_mult_self2)
  moreover have "(n mod d - 1) div d = 0" using d mod_less_divisor [of d n] by (intro div_less) linarith
  ultimately have "(n + d - 1) div d = n div d + 1" by simp
  then show ?thesis by (simp add: CalcTreeWidth_def n_def d_def)
qed

lemma width_pos: "0 < length leaves \<Longrightarrow> 0 < width leaves l"
  using width_bounds(1) [of leaves l] by (cases "width leaves l") auto

lemma sweep_level:
  assumes "sweep_ok leaves pos k count s" and "length leaves \<le> 2 ^ 31"
  shows "m_level s < 32"
proof (rule ccontr)
  assume "\<not> m_level s < 32"
  then have "1 < width leaves 31" using assms(1) by (simp add: sweep_ok_def)
  then have "2 * 2 ^ 31 \<le> width leaves 31 * 2 ^ 31" by (intro mult_le_mono1) simp
  moreover have "width leaves 31 * 2 ^ 31 < length leaves + 2 ^ 31" by (rule width_bounds)
  ultimately show False using assms(2) by linarith
qed

lemma bit_count: "bit (w * 2 ^ l) l \<longleftrightarrow> odd (w :: nat)"
  by (simp add: bit_iff_odd)

lemma merkle_up_ok:
  assumes "sweep_ok leaves pos k count s" and "k < m_level s" and "length leaves \<le> 2 ^ 31"
  shows "sweep_ok leaves pos k count (merkle_up count s) \<and> k < m_level (merkle_up count s)
    \<and> odd (width leaves (m_level (merkle_up count s)))"
  using assms
proof (induction count s rule: merkle_up.induct)
  case (1 count s)
  let ?l = "m_level s" and ?w = "width leaves (m_level s)"
  have l32: "?l < 32" using sweep_level [OF 1(2,4)] .
  have cnt: "count = ?w * 2 ^ ?l" using 1(2) by (simp add: sweep_ok_def)
  show ?case
  proof (cases "odd ?w")
    case True
    then have "bit count ?l" by (simp add: cnt bit_count)
    then show ?thesis using 1 True by (subst (1 2 3) merkle_up.simps) simp
  next
    case False
    then obtain j where j: "?w = 2 * j" by (auto elim: evenE)
    have n0: "0 < length leaves" using 1(2) by (cases leaves) (auto simp: sweep_ok_def)
    have j0: "0 < j" using width_pos [OF n0, of ?l] j by simp
    have nb: "\<not> bit count ?l" using False by (simp add: cnt bit_count)
    let ?t = "(merkle_branch_step s)\<lparr>m_h := merkle_hash (m_inner s ! ?l) (m_h s), m_level := Suc ?l\<rparr>"
    have step: "merkle_up count s = merkle_up count ?t"
      using l32 nb by (subst merkle_up.simps) (simp add: Let_def)
    have prev: "length leaves div 2 ^ ?l = 2 * j - 1"
      using width_above_lowest [of k leaves ?l] 1(2,3) j by (simp add: sweep_ok_def)
    have w': "width leaves (Suc ?l) = j" using j by (simp add: CalcTreeWidth_Suc)
    have cov: "covers leaves pos (length leaves) (j - 1) ?t"
      using combine_step [of leaves "length leaves" s j pos] 1(2) prev j j0 by (simp add: sweep_ok_def)
    have "\<forall>i<Suc ?l. 1 < width leaves i" using 1(2) j j0 by (auto simp: sweep_ok_def less_Suc_eq)
    then have ok: "sweep_ok leaves pos k count ?t"
      using 1(2,3) cov w' cnt j unfolding sweep_ok_def by simp
    show ?thesis
      unfolding step by (rule 1(1) [OF _ refl, simplified]) (use l32 nb ok 1(3,4) in simp_all)
  qed
qed

text \<open>Where the branch still waits for an entry of \<open>inner\<close>, that entry is above the current level.\<close>

definition waits_above :: "merkle_state \<Rightarrow> bool" where
  "waits_above s \<longleftrightarrow> (\<not> m_matchh s \<longrightarrow> (\<forall>j. m_matchlevel s = int j \<longrightarrow> m_level s < j))"

lemma up_waits_above:
  assumes "sweep_ok leaves pos k count s" and "k < m_level s" and "odd (width leaves (m_level s))"
  shows "waits_above s"
proof -
  have "length leaves div 2 ^ m_level s = width leaves (m_level s) - 1"
    using width_above_lowest [of k leaves "m_level s"] assms(1,2) by (simp add: sweep_ok_def)
  then have "\<not> bit (length leaves) (m_level s)" using assms(3) by (simp add: bit_iff_odd)
  then have "j \<noteq> m_level s" if "match_ok leaves pos (length leaves) (int j) (m_branch s)" for j
    using that by (auto simp: match_ok_def split: if_splits)
  then show ?thesis
    using assms(1) by (fastforce simp: waits_above_def sweep_ok_def covers_def order.strict_iff_order)
qed

lemma merkle_sweep_ok:
  assumes "sweep_ok leaves pos k count s" and "odd (width leaves (m_level s))" and "length leaves \<le> 2 ^ 31" and "waits_above s"
  shows "\<exists>count'. sweep_ok leaves pos k count' (merkle_sweep count s) \<and> waits_above (merkle_sweep count s)
    \<and> width leaves (m_level (merkle_sweep count s)) = 1"
  using assms
proof (induction count s rule: merkle_sweep.induct)
  case (1 count s)
  let ?l = "m_level s" and ?w = "width leaves (m_level s)"
  have l32: "?l < 32" using sweep_level [OF 1(2,4)] .
  have cnt: "count = ?w * 2 ^ ?l" using 1(2) by (simp add: sweep_ok_def)
  show ?case
  proof (cases "?w = 1")
    case True
    then have "merkle_sweep count s = s" using cnt by (subst merkle_sweep.simps) simp
    then show ?thesis using 1 True by auto
  next
    case False
    then have ne: "count \<noteq> 2 ^ ?l" by (simp add: cnt)
    obtain j where j: "?w = 2 * j + 1" using 1(3) by (rule oddE)
    have j0: "0 < j" using False j by (cases j) auto
    let ?s1 = "if m_matchh s then s\<lparr>m_branch := m_branch s @ [m_h s]\<rparr> else s"
    let ?s2 = "?s1\<lparr>m_h := merkle_hash (m_h ?s1) (m_h ?s1), m_level := m_level ?s1 + 1\<rparr>"
    let ?c = "count + 2 ^ ?l"
    have w': "width leaves (Suc ?l) = j + 1" using j by (simp add: CalcTreeWidth_Suc)
    have c': "?c = width leaves (Suc ?l) * 2 ^ Suc ?l" by (simp add: w' cnt j algebra_simps)
    have single: "node leaves (Suc ?l) j = merkle_hash (node leaves ?l (2 * j)) (node leaves ?l (2 * j))"
      by (rule node_single) (simp add: j)
    have sib: "sibling leaves ?l (2 * j) = node leaves ?l (2 * j)" by (simp add: sibling_def j)
    have cov: "covers leaves pos (length leaves) (2 * j) s" using 1(2) j by (simp add: sweep_ok_def)
    have half: "pos div 2 ^ Suc ?l = pos div 2 ^ ?l div 2" by (simp add: div_mult2_eq [symmetric] mult.commute)
    have cov2: "covers leaves pos (length leaves) j ?s2"
    proof (cases "m_matchh s")
      case True
      then show ?thesis using cov single sib half by (simp add: covers_def path_Suc)
    next
      case f: False
      then have "match_ok leaves pos (length leaves) (m_matchlevel s) (m_branch s)" "\<forall>i. m_matchlevel s = int i \<longrightarrow> Suc ?l \<le> i"
        using cov 1(5) by (auto simp: covers_def waits_above_def)
      then show ?thesis using f cov single by (simp add: covers_def)
    qed
    have "\<forall>i<Suc ?l. 1 < width leaves i" using 1(2) j j0 by (auto simp: sweep_ok_def less_Suc_eq)
    moreover have "m_inner ?s2 = m_inner s" "m_level ?s2 = Suc ?l" by simp_all
    ultimately have ok2: "sweep_ok leaves pos k ?c ?s2"
      using 1(2) cov2 w' c' unfolding sweep_ok_def by (simp del: power_Suc)
    have k2: "k < m_level ?s2" using 1(2) by (simp add: sweep_ok_def)
    note up = merkle_up_ok [OF ok2 k2 1(4)]
    have "merkle_sweep count s = merkle_sweep ?c (merkle_up ?c ?s2)"
      using l32 ne by (subst merkle_sweep.simps) (simp add: Let_def)
    moreover have "\<exists>count'. sweep_ok leaves pos k count' (merkle_sweep ?c (merkle_up ?c ?s2)) \<and> waits_above (merkle_sweep ?c (merkle_up ?c ?s2))
      \<and> width leaves (m_level (merkle_sweep ?c (merkle_up ?c ?s2))) = 1"
      by (rule 1(1) [OF _ refl refl refl]) (use l32 ne up 1(4) up_waits_above in auto)
    ultimately show ?thesis by simp
  qed
qed


lemma lowest_bit_ok:
  assumes "2 ^ l dvd c" and "0 < c" and "c \<le> 2 ^ 31"
  shows "2 ^ lowest_bit c l dvd c \<and> bit c (lowest_bit c l)"
  using assms
proof (induction c l rule: lowest_bit.induct)
  case (1 c l)
  have l32: "l < 32" using dvd_level [OF 1(2-4)] .
  show ?case
  proof (cases "bit c l")
    case True
    then show ?thesis using 1(2) by (subst (1 2) lowest_bit.simps) simp
  next
    case False
    then have "even (c div 2 ^ l)" by (simp add: bit_iff_odd)
    then obtain j where "c div 2 ^ l = 2 * j" by (rule evenE)
    then have "c = 2 ^ Suc l * j" using 1(2) by (metis dvd_mult_div_cancel mult.assoc mult.commute power_Suc)
    then have "2 ^ (l + 1) dvd c" by simp
    then show ?thesis using 1 False l32 by (subst (1 2) lowest_bit.simps) simp
  qed
qed

lemma low_bits_zero: "2 ^ k dvd (c :: nat) \<Longrightarrow> bit c j \<Longrightarrow> k \<le> j"
proof (rule ccontr)
  assume c: "2 ^ k dvd c" "bit c j" "\<not> k \<le> j"
  then have "(2 :: nat) ^ Suc j dvd 2 ^ k" by (intro le_imp_power_dvd) simp
  then have "2 ^ Suc j dvd c" using c(1) by (rule dvd_trans)
  then obtain i where "c = 2 ^ j * (2 * i)" by (auto elim!: dvdE)
  then show False using c(2) by (simp add: bit_iff_odd)
qed

lemma width_dvd: "2 ^ k dvd length leaves \<Longrightarrow> width leaves k = length leaves div 2 ^ k"
proof -
  assume "2 ^ k dvd length leaves"
  then obtain q where q: "length leaves = 2 ^ k * q" by (rule dvdE)
  define d where "d = (2 :: nat) ^ k"
  have "0 < d" by (simp add: d_def)
  then have "(d * q + d - 1) div d = q + (d - 1) div d" using div_mult_self2 [of d "d - 1" q] by (simp add: add.commute)
  then show ?thesis using q \<open>0 < d\<close> by (simp add: CalcTreeWidth_def d_def)
qed

lemma tree_height_eq:
  assumes "width leaves l = 1" and "\<forall>j<l. 1 < width leaves j" and "h \<le> l"
  shows "tree_height (length leaves) h = l"
  using assms(3)
proof (induction "l - h" arbitrary: h)
  case 0
  then show ?case using assms(1) by (subst tree_height.simps) simp
next
  case (Suc m)
  then have "h < l" by simp
  then have "tree_height (length leaves) h = tree_height (length leaves) (h + 1)"
    using assms(2) by (subst tree_height.simps) simp
  then show ?case using Suc(1) [of "h + 1"] Suc(2) \<open>h < l\<close> by simp
qed

lemma MerkleComputation_tree:
  assumes "0 < length leaves" and "length leaves \<le> 2 ^ 31" and "MerkleComputation leaves pos = (root, mutated, branch)"
  shows "root = node leaves (tree_height (length leaves) 0) 0 \<and> width leaves (tree_height (length leaves) 0) = 1
    \<and> (pos < length leaves \<longrightarrow> branch = path leaves pos (tree_height (length leaves) 0))"
proof -
  define n where "n = length leaves"
  define s where "s = foldl (merkle_leaf pos) merkle_start (enumerate 0 leaves)"
  define k where "k = lowest_bit n 0"
  define s0 where "s0 = s\<lparr>m_level := k, m_h := m_inner s ! k, m_matchh := (m_matchlevel s = int k)\<rparr>"
  define s' where "s' = merkle_sweep n s0"
  have res: "root = m_h s'" "branch = m_branch s'"
    using assms(1,3) by (auto simp: MerkleComputation_def Let_def s'_def s0_def s_def k_def n_def)
  have ins: "inner_ok leaves n (m_inner s)" and mt: "match_ok leaves pos n (m_matchlevel s) (m_branch s)"
    using merkle_leaves_ok [of n leaves pos] assms(2) by (simp_all add: n_def s_def Let_def)
  have k: "2 ^ k dvd n" "bit n k" using lowest_bit_ok [of 0 n] assms(1,2) by (simp_all add: k_def n_def)
  have w: "width leaves k = n div 2 ^ k" using width_dvd [of k leaves] k by (simp add: n_def)
  have odd: "odd (width leaves k)" using k(2) w by (simp add: bit_iff_odd)
  have cov: "covers leaves pos n (width leaves k - 1) s0"
    using ins mt k(2) low_bits_zero [OF k(1)] unfolding w
    by (auto simp: covers_def s0_def inner_ok_def match_ok_def split: if_splits)
  have wide: "1 < width leaves j" if "j < k" for j
  proof -
    have "(2 :: nat) * 2 ^ j \<le> 2 ^ k" using that power_increasing [of "Suc j" k "2 :: nat"] by simp
    also have "\<dots> \<le> n" using k(1) assms(1) by (simp add: n_def dvd_imp_le)
    also have "\<dots> \<le> width leaves j * 2 ^ j" unfolding n_def by (rule width_bounds)
    finally show ?thesis by simp
  qed
  have "sweep_ok leaves pos k n s0"
    using k w ins cov wide by (simp add: sweep_ok_def s0_def n_def)
  moreover have "waits_above s0"
    using mt low_bits_zero [OF k(1)] by (fastforce simp: waits_above_def s0_def match_ok_def order.strict_iff_order split: if_splits)
  ultimately obtain c where ok: "sweep_ok leaves pos k c s'" "waits_above s'" "width leaves (m_level s') = 1"
    using merkle_sweep_ok [of leaves pos k n s0] odd assms(2) by (auto simp: s'_def s0_def)
  have h: "tree_height n 0 = m_level s'"
    using tree_height_eq [OF ok(3), of 0] ok(1) by (simp add: sweep_ok_def n_def)
  have small: "n \<le> 2 ^ m_level s'" using width_bounds(1) [of leaves "m_level s'"] ok(3) by (simp add: n_def)
  have "branch = path leaves pos (m_level s')" if in_range: "pos < n"
  proof (cases "m_matchh s'")
    case True
    then show ?thesis using ok(1) res(2) by (simp add: sweep_ok_def covers_def)
  next
    case False
    then obtain j where "m_matchlevel s' = int j" "bit n j"
      using ok(1) in_range by (auto simp: sweep_ok_def covers_def match_ok_def n_def split: if_splits)
    then have "m_level s' < j" using ok(2) False by (simp add: waits_above_def)
    moreover have "2 ^ j \<le> n"
    proof (rule ccontr)
      assume "\<not> 2 ^ j \<le> n"
      then have "n div 2 ^ j = 0" by simp
      then show False using \<open>bit n j\<close> by (simp add: bit_iff_odd)
    qed
    ultimately have "(2 :: nat) ^ j \<le> 2 ^ m_level s'" "m_level s' < j" using small by (simp_all only: order_trans [of "2 ^ j" n])
    then show ?thesis by simp
  qed
  then show ?thesis
    using res(1) ok(1,3) h by (simp add: sweep_ok_def covers_def n_def)
qed

section \<open>Properties\<close>

text \<open>
  C10. The constant-space computation agrees with the recursive tree of \<open>CPartialMerkleTree\<close>: for up to \<open>2 ^ 31\<close>
  leaves \<open>ComputeMerkleRoot\<close> is the hash of the top node, and the branch that \<open>ComputeMerkleBranch\<close> collects for
  a leaf leads, by \<open>ComputeMerkleRootFromBranch\<close>, from the leaf back to that root.
\<close>

theorem ComputeMerkleRoot_tree:
  assumes "0 < length leaves" and "length leaves \<le> 2 ^ 31" and "position < length leaves"
  shows "fst (ComputeMerkleRoot leaves) = CalcHash (length leaves) leaves (tree_height (length leaves) 0) 0
    \<and> ComputeMerkleRootFromBranch (leaves ! position) (ComputeMerkleBranch leaves position) position = fst (ComputeMerkleRoot leaves)"
proof -
  let ?h = "tree_height (length leaves) 0"
  obtain r m b where r: "MerkleComputation leaves (2 ^ 32 - 1) = (r, m, b)" by (cases "MerkleComputation leaves (2 ^ 32 - 1)")
  obtain r' m' b' where b: "MerkleComputation leaves position = (r', m', b')" by (cases "MerkleComputation leaves position")
  have root: "fst (ComputeMerkleRoot leaves) = node leaves ?h 0" "width leaves ?h = 1"
    unfolding ComputeMerkleRoot_def r using MerkleComputation_tree [OF assms(1,2) r] by simp_all
  have "ComputeMerkleBranch leaves position = path leaves position ?h"
    using MerkleComputation_tree [OF assms(1,2) b] assms(3) by (simp add: ComputeMerkleBranch_def b)
  moreover have "position div 2 ^ ?h = 0" using less_width [OF assms(3), of ?h] root(2) by simp
  ultimately have "ComputeMerkleRootFromBranch (leaves ! position) (ComputeMerkleBranch leaves position) position = node leaves ?h 0"
    using RootFromBranch_path [OF assms(3), of 0 ?h] by (simp add: path_def)
  then show ?thesis using root(1) by simp
qed

theorem ComputeMerkleRoot_tree_witness:
  "fst (ComputeMerkleRoot [[1], [2], [3]]) = CalcHash 3 [[1], [2], [3]] (tree_height 3 0) 0
   \<and> ComputeMerkleRootFromBranch [3] (ComputeMerkleBranch [[1], [2], [3]] 2) 2 = fst (ComputeMerkleRoot [[1], [2], [3]])"
proof -
  define xs where "xs = [[1], [2], [3 :: byte]]"
  have "length xs = 3" "xs ! 2 = [3]" by (simp_all add: xs_def)
  then show ?thesis unfolding xs_def [symmetric] using ComputeMerkleRoot_tree [of xs 2] by simp
qed

end
