(* ===== verification/Block.thy ===== *)
theory Block
  imports Transaction
begin

text \<open>
  Block headers and blocks (\<open>primitives/pureheader.h\<close>, \<open>primitives/pureheader.cpp\<close>, \<open>primitives/block.h\<close>,
  \<open>primitives/block.cpp\<close>) and the merge-mining data that a header may carry (the data members and the wire format of
  \<open>CMerkleTx\<close> and \<open>CAuxPow\<close> in \<open>auxpow.h\<close>). The version is a signed 32-bit integer, kept as its word; bit 8 says that
  merge-mining data follow the header.
\<close>

unbundle bit_operations_syntax

section \<open>Pure headers\<close>

record CPureBlockHeader =
  hdr_nVersion :: u32
  hashPrevBlock :: uint256
  hashMerkleRoot :: uint256
  hdr_nTime :: u32
  nBits :: u32
  nNonce :: u32

abbreviation (input) VERSION_AUXPOW :: u32 where "VERSION_AUXPOW \<equiv> 0x100"
abbreviation (input) VERSION_CHAIN_START :: u32 where "VERSION_CHAIN_START \<equiv> 0x10000"
abbreviation (input) VERSIONBITS_TOP_MASK :: u32 where "VERSIONBITS_TOP_MASK \<equiv> 0xE0000000"

definition CPureBlockHeader_null :: CPureBlockHeader where
  "CPureBlockHeader_null =
     \<lparr>hdr_nVersion = 0, hashPrevBlock = uint256_null, hashMerkleRoot = uint256_null, hdr_nTime = 0, nBits = 0, nNonce = 0\<rparr>"

definition CPureBlockHeader_IsNull :: "'a CPureBlockHeader_scheme \<Rightarrow> bool" where
  "CPureBlockHeader_IsNull h \<longleftrightarrow> nBits h = 0"

definition CPureBlockHeader_Serialize :: "'a CPureBlockHeader_scheme \<Rightarrow> bytes" where
  "CPureBlockHeader_Serialize h =
     ser_writedata32 (hdr_nVersion h) @ hashPrevBlock h @ hashMerkleRoot h
     @ ser_writedata32 (hdr_nTime h) @ ser_writedata32 (nBits h) @ ser_writedata32 (nNonce h)"

definition CPureBlockHeader_Unserialize :: "CPureBlockHeader reader" where
  "CPureBlockHeader_Unserialize s =
     bind_result (ser_readdata32 s) (\<lambda>(ver, s).
     bind_result (ser_read 32 s) (\<lambda>(prev, s).
     bind_result (ser_read 32 s) (\<lambda>(root, s).
     bind_result (ser_readdata32 s) (\<lambda>(t, s).
     bind_result (ser_readdata32 s) (\<lambda>(b, s).
     bind_result (ser_readdata32 s) (\<lambda>(n, s).
       Inr (\<lparr>hdr_nVersion = ver, hashPrevBlock = prev, hashMerkleRoot = root, hdr_nTime = t, nBits = b, nNonce = n\<rparr>, s)))))))"

definition CPureBlockHeader_GetHash :: "'a CPureBlockHeader_scheme \<Rightarrow> uint256" where
  "CPureBlockHeader_GetHash h = SerializeHash fresh_buf (CPureBlockHeader_Serialize h)"

definition GetBlockTime :: "'a CPureBlockHeader_scheme \<Rightarrow> int" where
  "GetBlockTime h = uint (hdr_nTime h)"

text \<open>The remainder of C++ has the sign of the dividend.\<close>

definition crem :: "int \<Rightarrow> int \<Rightarrow> int" where
  "crem a b = a - b * cdiv a b"

definition GetBaseVersion :: "u32 \<Rightarrow> u32" where
  "GetBaseVersion ver = word_of_int (crem (sint ver) (sint VERSION_AUXPOW))"

definition SetBaseVersion :: "u32 \<Rightarrow> u32 \<Rightarrow> 'a CPureBlockHeader_scheme \<Rightarrow> 'a CPureBlockHeader_scheme" where
  "SetBaseVersion nBaseVersion nChainId h = h\<lparr>hdr_nVersion := nBaseVersion OR (nChainId * VERSION_CHAIN_START)\<rparr>"

definition GetChainId :: "'a CPureBlockHeader_scheme \<Rightarrow> u32" where
  "GetChainId h = word_of_int (cdiv (sint (hdr_nVersion h AND NOT VERSIONBITS_TOP_MASK)) (sint VERSION_CHAIN_START))"

definition SetChainId :: "u32 \<Rightarrow> 'a CPureBlockHeader_scheme \<Rightarrow> 'a CPureBlockHeader_scheme" where
  "SetChainId chainId h =
     h\<lparr>hdr_nVersion := word_of_int (crem (sint (hdr_nVersion h)) (sint VERSION_CHAIN_START)) OR (chainId * VERSION_CHAIN_START)\<rparr>"

definition IsAuxpow :: "'a CPureBlockHeader_scheme \<Rightarrow> bool" where
  "IsAuxpow h \<longleftrightarrow> hdr_nVersion h AND VERSION_AUXPOW \<noteq> 0"

definition SetAuxpowVersion :: "bool \<Rightarrow> 'a CPureBlockHeader_scheme \<Rightarrow> 'a CPureBlockHeader_scheme" where
  "SetAuxpowVersion auxpow h =
     (if auxpow then h\<lparr>hdr_nVersion := hdr_nVersion h OR VERSION_AUXPOW\<rparr>
      else h\<lparr>hdr_nVersion := hdr_nVersion h AND NOT VERSION_AUXPOW\<rparr>)"

definition IsLegacy :: "'a CPureBlockHeader_scheme \<Rightarrow> bool" where
  "IsLegacy h \<longleftrightarrow> hdr_nVersion h = 1"

section \<open>Merge-mining data\<close>

record CMerkleTx =
  m_tx :: CTransaction
  hashBlock :: uint256
  vMerkleBranch :: "uint256 list"
  nIndex :: u32

record CAuxPow = CMerkleTx +
  vChainMerkleBranch :: "uint256 list"
  nChainIndex :: u32
  parentBlock :: CPureBlockHeader

abbreviation (input) uint256_Serialize :: "uint256 \<Rightarrow> bytes" where "uint256_Serialize h \<equiv> h"

definition CMerkleTx_Serialize :: "prune_env \<Rightarrow> u32 \<Rightarrow> 'a CMerkleTx_scheme \<Rightarrow> bytes" where
  "CMerkleTx_Serialize env nType m =
     CTransaction_Serialize env nType (m_tx m) @ uint256_Serialize (hashBlock m)
     @ Serialize_vec (\<lambda>h. uint256_Serialize h) (vMerkleBranch m) @ ser_writedata32 (nIndex m)"

definition CMerkleTx_Unserialize :: "nat \<Rightarrow> nat \<Rightarrow> CMerkleTx reader" where
  "CMerkleTx_Unserialize sizeofTxIn sizeofTxOut s =
     bind_result (CMutableTransaction_Unserialize sizeofTxIn sizeofTxOut s) (\<lambda>(t, s).
     bind_result (ser_read 32 s) (\<lambda>(h, s).
     bind_result (Unserialize_vec (ser_read 32) 32 s) (\<lambda>(b, s).
     bind_result (ser_readdata32 s) (\<lambda>(i, s).
       Inr (\<lparr>m_tx = t, hashBlock = h, vMerkleBranch = b, nIndex = i\<rparr>, s)))))"

definition CAuxPow_Serialize :: "prune_env \<Rightarrow> u32 \<Rightarrow> CAuxPow \<Rightarrow> bytes" where
  "CAuxPow_Serialize env nType a =
     CMerkleTx_Serialize env nType a @ Serialize_vec (\<lambda>h. uint256_Serialize h) (vChainMerkleBranch a)
     @ ser_writedata32 (nChainIndex a) @ CPureBlockHeader_Serialize (parentBlock a)"

definition CAuxPow_Unserialize :: "nat \<Rightarrow> nat \<Rightarrow> CAuxPow reader" where
  "CAuxPow_Unserialize sizeofTxIn sizeofTxOut s =
     bind_result (CMerkleTx_Unserialize sizeofTxIn sizeofTxOut s) (\<lambda>(m, s).
     bind_result (Unserialize_vec (ser_read 32) 32 s) (\<lambda>(b, s).
     bind_result (ser_readdata32 s) (\<lambda>(i, s).
     bind_result (CPureBlockHeader_Unserialize s) (\<lambda>(p, s).
       Inr (\<lparr>m_tx = m_tx m, hashBlock = hashBlock m, vMerkleBranch = vMerkleBranch m, nIndex = nIndex m,
             vChainMerkleBranch = b, nChainIndex = i, parentBlock = p\<rparr>, s)))))"

section \<open>Headers and blocks\<close>

record CBlockHeader = CPureBlockHeader +
  auxpow :: "CAuxPow option"

record CBlock = CBlockHeader +
  vtx :: "CTransaction list"
  fChecked :: bool

text \<open>Writing a header that is marked but has no merge-mining data fails an assertion, \<open>None\<close>.\<close>

definition CBlockHeader_Serialize :: "prune_env \<Rightarrow> u32 \<Rightarrow> 'a CBlockHeader_scheme \<Rightarrow> bytes option" where
  "CBlockHeader_Serialize env nType h =
     (if IsAuxpow h
      then case auxpow h of
             None \<Rightarrow> None
           | Some a \<Rightarrow> Some (CPureBlockHeader_Serialize h @ CAuxPow_Serialize env nType a)
      else Some (CPureBlockHeader_Serialize h))"

definition CBlockHeader_Unserialize :: "nat \<Rightarrow> nat \<Rightarrow> CBlockHeader reader" where
  "CBlockHeader_Unserialize sizeofTxIn sizeofTxOut s =
     bind_result (CPureBlockHeader_Unserialize s) (\<lambda>(h, s).
       if IsAuxpow h
       then bind_result (CAuxPow_Unserialize sizeofTxIn sizeofTxOut s) (\<lambda>(a, s).
              Inr (CPureBlockHeader.extend h \<lparr>auxpow = Some a\<rparr>, s))
       else Inr (CPureBlockHeader.extend h \<lparr>auxpow = None\<rparr>, s))"

definition CBlock_Serialize :: "prune_env \<Rightarrow> u32 \<Rightarrow> CBlock \<Rightarrow> bytes option" where
  "CBlock_Serialize env nType b =
     map_option (\<lambda>s. s @ Serialize_vec (CTransaction_Serialize env nType) (vtx b)) (CBlockHeader_Serialize env nType b)"

text \<open>\<open>sizeofRef\<close> is the size of a \<open>CTransactionRef\<close>. The flag \<open>fChecked\<close> is not on the wire; it is that of the block read into.\<close>

definition CBlock_Unserialize :: "nat \<Rightarrow> nat \<Rightarrow> nat \<Rightarrow> bool \<Rightarrow> CBlock reader" where
  "CBlock_Unserialize sizeofTxIn sizeofTxOut sizeofRef checked s =
     bind_result (CBlockHeader_Unserialize sizeofTxIn sizeofTxOut s) (\<lambda>(h, s).
     bind_result (Unserialize_vec (CMutableTransaction_Unserialize sizeofTxIn sizeofTxOut) sizeofRef s) (\<lambda>(txs, s).
       Inr (CBlockHeader.extend h \<lparr>vtx = txs, fChecked = checked\<rparr>, s)))"

definition CBlock_null :: CBlock where
  "CBlock_null = CBlockHeader.extend (CPureBlockHeader.extend CPureBlockHeader_null \<lparr>auxpow = None\<rparr>) \<lparr>vtx = [], fChecked = False\<rparr>"

definition GetBlockHeader :: "CBlock \<Rightarrow> CBlockHeader" where
  "GetBlockHeader b =
     \<lparr>hdr_nVersion = hdr_nVersion b, hashPrevBlock = hashPrevBlock b, hashMerkleRoot = hashMerkleRoot b,
      hdr_nTime = hdr_nTime b, nBits = nBits b, nNonce = nNonce b, auxpow = auxpow b\<rparr>"

definition SetAuxpow :: "CAuxPow option \<Rightarrow> 'a CBlockHeader_scheme \<Rightarrow> 'a CBlockHeader_scheme" where
  "SetAuxpow apow h =
     (case apow of
        Some a \<Rightarrow> SetAuxpowVersion True (h\<lparr>auxpow := Some a\<rparr>)
      | None \<Rightarrow> SetAuxpowVersion False (h\<lparr>auxpow := None\<rparr>))"

section \<open>What is read is what was written\<close>

interpretation hash256: codec "\<lambda>h. uint256_Serialize h" "ser_read 32" "\<lambda>h. length h = 32"
  by unfold_locales (simp_all add: ser_read_Inr)

interpretation pure: codec CPureBlockHeader_Serialize CPureBlockHeader_Unserialize
  "\<lambda>h. length (hashPrevBlock h) = 32 \<and> length (hashMerkleRoot h) = 32"
proof
  fix h :: CPureBlockHeader and r
  assume "length (hashPrevBlock h) = 32 \<and> length (hashMerkleRoot h) = 32"
  then show "CPureBlockHeader_Unserialize (CPureBlockHeader_Serialize h @ r) = Inr (h, r)"
    by (simp add: CPureBlockHeader_Unserialize_def CPureBlockHeader_Serialize_def ser32.unser_ser)
next
  fix s r :: bytes and h :: CPureBlockHeader
  assume "CPureBlockHeader_Unserialize s = Inr (h, r)"
  then show "(length (hashPrevBlock h) = 32 \<and> length (hashMerkleRoot h) = 32) \<and> s = CPureBlockHeader_Serialize h @ r"
    by (auto simp: CPureBlockHeader_Unserialize_def CPureBlockHeader_Serialize_def bind_result_Inr ser_read_Inr dest!: ser32.ser_unser)
qed

lemmas branch_codec = vec_codec [OF hash256.codec_axioms, of 32, simplified]

definition CAuxPow_ok :: "CAuxPow \<Rightarrow> bool" where
  "CAuxPow_ok a \<longleftrightarrow>
     CTransaction_ok (m_tx a) \<and> length (hashBlock a) = 32
     \<and> length (vMerkleBranch a) \<le> MAX_SIZE \<and> list_all (\<lambda>h. length h = 32) (vMerkleBranch a)
     \<and> length (vChainMerkleBranch a) \<le> MAX_SIZE \<and> list_all (\<lambda>h. length h = 32) (vChainMerkleBranch a)
     \<and> length (hashPrevBlock (parentBlock a)) = 32 \<and> length (hashMerkleRoot (parentBlock a)) = 32"

lemma auxpow_codec:
  assumes "0 < a" and "a \<le> 5000000" and "0 < b" and "b \<le> 5000000"
  shows "codec (CAuxPow_Serialize no_services nType) (CAuxPow_Unserialize a b) CAuxPow_ok"
proof -
  note txs = transaction_codec [OF assms, of nType]
  show ?thesis
  proof
    fix p :: CAuxPow and r
    assume "CAuxPow_ok p"
    then show "CAuxPow_Unserialize a b (CAuxPow_Serialize no_services nType p @ r) = Inr (p, r)"
      by (simp add: CAuxPow_ok_def CAuxPow_Unserialize_def CAuxPow_Serialize_def CMerkleTx_Unserialize_def CMerkleTx_Serialize_def
          ser32.unser_ser pure.unser_ser codec.unser_ser [OF txs] codec.unser_ser [OF branch_codec])
  next
    fix s r :: bytes and p :: CAuxPow
    assume "CAuxPow_Unserialize a b s = Inr (p, r)"
    then show "CAuxPow_ok p \<and> s = CAuxPow_Serialize no_services nType p @ r"
      by (auto simp: CAuxPow_ok_def CAuxPow_Unserialize_def CAuxPow_Serialize_def CMerkleTx_Unserialize_def CMerkleTx_Serialize_def
          bind_result_Inr ser_read_Inr dest!: ser32.ser_unser pure.ser_unser codec.ser_unser [OF txs] codec.ser_unser [OF branch_codec])
  qed
qed

definition CBlock_ok :: "CBlock \<Rightarrow> bool" where
  "CBlock_ok b \<longleftrightarrow>
     length (hashPrevBlock b) = 32 \<and> length (hashMerkleRoot b) = 32
     \<and> (case auxpow b of None \<Rightarrow> \<not> IsAuxpow b | Some a \<Rightarrow> IsAuxpow b \<and> CAuxPow_ok a)
     \<and> length (vtx b) \<le> MAX_SIZE \<and> list_all CTransaction_ok (vtx b)"

text \<open>The part of a header that comes first on the wire.\<close>

definition pure_part :: "'a CPureBlockHeader_scheme \<Rightarrow> CPureBlockHeader" where
  "pure_part h =
     \<lparr>hdr_nVersion = hdr_nVersion h, hashPrevBlock = hashPrevBlock h, hashMerkleRoot = hashMerkleRoot h,
      hdr_nTime = hdr_nTime h, nBits = nBits h, nNonce = nNonce h\<rparr>"

lemma Serialize_pure_part: "CPureBlockHeader_Serialize h = CPureBlockHeader_Serialize (pure_part h)"
  by (simp add: CPureBlockHeader_Serialize_def pure_part_def)

lemma IsAuxpow_pure_part: "IsAuxpow (pure_part h) = IsAuxpow h"
  by (simp add: IsAuxpow_def pure_part_def)

lemma block_parts:
  fixes b :: CBlock
  shows "CBlockHeader.extend (CPureBlockHeader.extend (pure_part b) \<lparr>auxpow = auxpow b\<rparr>) \<lparr>vtx = vtx b, fChecked = fChecked b\<rparr> = b"
  by (simp add: pure_part_def CBlockHeader.defs CPureBlockHeader.defs)

lemma pure_part_extend [simp]:
  "pure_part (CBlockHeader.extend (CPureBlockHeader.extend h \<lparr>auxpow = a\<rparr>) x) = h"
  "auxpow (CBlockHeader.extend (CPureBlockHeader.extend h \<lparr>auxpow = a\<rparr>) x) = a"
  "vtx (CBlockHeader.extend (CPureBlockHeader.extend h \<lparr>auxpow = a\<rparr>) \<lparr>vtx = t, fChecked = c\<rparr>) = t"
  by (simp_all add: pure_part_def CBlockHeader.defs CPureBlockHeader.defs)

lemma extend_auxpow_eq [simp]:
  "CPureBlockHeader.extend h \<lparr>auxpow = a\<rparr> = CPureBlockHeader.extend h' \<lparr>auxpow = a'\<rparr> \<longleftrightarrow> h = h' \<and> a = a'"
  by (cases h; cases h') (auto simp: CPureBlockHeader.defs)

lemma CBlock_Serialize_parts:
  "CBlock_Serialize env nType b =
     (if IsAuxpow (pure_part b) then map_option (\<lambda>a. CPureBlockHeader_Serialize (pure_part b) @ CAuxPow_Serialize env nType a
          @ Serialize_vec (CTransaction_Serialize env nType) (vtx b)) (auxpow b)
      else Some (CPureBlockHeader_Serialize (pure_part b) @ Serialize_vec (CTransaction_Serialize env nType) (vtx b)))"
  by (simp add: CBlock_Serialize_def CBlockHeader_Serialize_def Serialize_pure_part [of b] IsAuxpow_pure_part split: option.splits)

lemma CBlock_ok_parts:
  "CBlock_ok b \<longleftrightarrow>
     length (hashPrevBlock (pure_part b)) = 32 \<and> length (hashMerkleRoot (pure_part b)) = 32
     \<and> (case auxpow b of None \<Rightarrow> \<not> IsAuxpow (pure_part b) | Some a \<Rightarrow> IsAuxpow (pure_part b) \<and> CAuxPow_ok a)
     \<and> length (vtx b) \<le> MAX_SIZE \<and> list_all CTransaction_ok (vtx b)"
  by (simp add: CBlock_ok_def IsAuxpow_pure_part split: option.split) (simp add: pure_part_def)

section \<open>Properties\<close>



end
