(* ===== verification/MerkleBlock.thy ===== *)
theory MerkleBlock
  imports Merkle Block
begin

text \<open>
  Partial Merkle trees (\<open>merkleblock.cpp\<close>, \<open>merkleblock.h\<close>): building one from the matched transactions, its wire
  format, and extracting the matches from it. The widths are natural numbers: \<open>ExtractMatches\<close> refuses a tree before it
  computes a width when the number of transactions could make the 32-bit sum wrap.
\<close>

unbundle bit_operations_syntax

section \<open>Partial trees\<close>

record CPartialMerkleTree =
  nTransactions :: nat
  vBits :: "bool list"
  vHash :: "uint256 list"
  fBad :: bool

text \<open>\<open>TraverseAndBuild\<close> appends to the two vectors.\<close>

primrec TraverseAndBuild :: "nat \<Rightarrow> uint256 list \<Rightarrow> bool list \<Rightarrow> nat \<Rightarrow> nat \<Rightarrow> bool list \<times> uint256 list \<Rightarrow> bool list \<times> uint256 list" where
  "TraverseAndBuild n vTxid vMatch 0 pos bh =
     (let fParentOfMatch = (\<exists>p\<in>set [pos..<min (pos + 1) n]. vMatch ! p)
      in (fst bh @ [fParentOfMatch], snd bh @ [CalcHash n vTxid 0 pos]))"
| "TraverseAndBuild n vTxid vMatch (Suc height) pos bh =
     (let fParentOfMatch = (\<exists>p\<in>set [pos * 2 ^ Suc height..<min ((pos + 1) * 2 ^ Suc height) n]. vMatch ! p)
      in if \<not> fParentOfMatch then (fst bh @ [fParentOfMatch], snd bh @ [CalcHash n vTxid (Suc height) pos])
         else
           let bh1 = TraverseAndBuild n vTxid vMatch height (pos * 2) (fst bh @ [fParentOfMatch], snd bh)
           in if pos * 2 + 1 < CalcTreeWidth n height then TraverseAndBuild n vTxid vMatch height (pos * 2 + 1) bh1 else bh1)"

definition CPartialMerkleTree_build :: "uint256 list \<Rightarrow> bool list \<Rightarrow> CPartialMerkleTree" where
  "CPartialMerkleTree_build vTxid vMatch =
     (let n = length vTxid;
          (bits, hashes) = TraverseAndBuild n vTxid vMatch (tree_height n 0) 0 ([], [])
      in \<lparr>nTransactions = n, vBits = bits, vHash = hashes, fBad = False\<rparr>)"

text \<open>The state of the extraction: the flag \<open>fBad\<close>, the two positions, and the matches with their indices.\<close>

record extract_state =
  x_bad :: bool
  nBitsUsed :: nat
  nHashUsed :: nat
  x_match :: "uint256 list"
  vnIndex :: "nat list"

primrec TraverseAndExtract :: "CPartialMerkleTree \<Rightarrow> nat \<Rightarrow> nat \<Rightarrow> extract_state \<Rightarrow> uint256 \<times> extract_state" where
  "TraverseAndExtract t 0 pos s =
     (if nBitsUsed s \<ge> length (vBits t) then (uint256_null, s\<lparr>x_bad := True\<rparr>)
      else
        let fParentOfMatch = vBits t ! nBitsUsed s;
            s1 = s\<lparr>nBitsUsed := nBitsUsed s + 1\<rparr>
        in if nHashUsed s1 \<ge> length (vHash t) then (uint256_null, s1\<lparr>x_bad := True\<rparr>)
           else
             let hash = vHash t ! nHashUsed s1;
                 s2 = s1\<lparr>nHashUsed := nHashUsed s1 + 1\<rparr>
             in (hash, if fParentOfMatch then s2\<lparr>x_match := x_match s2 @ [hash], vnIndex := vnIndex s2 @ [pos]\<rparr> else s2))"
| "TraverseAndExtract t (Suc height) pos s =
     (if nBitsUsed s \<ge> length (vBits t) then (uint256_null, s\<lparr>x_bad := True\<rparr>)
      else
        let fParentOfMatch = vBits t ! nBitsUsed s;
            s1 = s\<lparr>nBitsUsed := nBitsUsed s + 1\<rparr>
        in if \<not> fParentOfMatch then
             if nHashUsed s1 \<ge> length (vHash t) then (uint256_null, s1\<lparr>x_bad := True\<rparr>)
             else (vHash t ! nHashUsed s1, s1\<lparr>nHashUsed := nHashUsed s1 + 1\<rparr>)
           else
             let (left, s2) = TraverseAndExtract t height (pos * 2) s1
             in if pos * 2 + 1 < CalcTreeWidth (nTransactions t) height
                then
                  let (right, s3) = TraverseAndExtract t height (pos * 2 + 1) s2
                  in (Hash fresh_buf [left, right], if right = left then s3\<lparr>x_bad := True\<rparr> else s3)
                else (Hash fresh_buf [left, left], s2))"

definition MaxBlockSize :: "bool \<Rightarrow> nat" where
  "MaxBlockSize fDIP0001Active = (if fDIP0001Active then 10 * 1000 * 1000 else 10 * 1000 * 1000)"

text \<open>
  The result, the tree with its flag, the matches and the caller's vector of indices, which is extended; the null hash
  is failure.
\<close>

definition ExtractMatches :: "CPartialMerkleTree \<Rightarrow> nat list \<Rightarrow> uint256 \<times> CPartialMerkleTree \<times> uint256 list \<times> nat list" where
  "ExtractMatches t ix =
     (if nTransactions t = 0 then (uint256_null, t, [], ix)
      else if nTransactions t > MaxBlockSize True div 60 then (uint256_null, t, [], ix)
      else if length (vHash t) > nTransactions t then (uint256_null, t, [], ix)
      else if length (vBits t) < length (vHash t) then (uint256_null, t, [], ix)
      else
        let (hashMerkleRoot, s) = TraverseAndExtract t (tree_height (nTransactions t) 0) 0
              \<lparr>x_bad = fBad t, nBitsUsed = 0, nHashUsed = 0, x_match = [], vnIndex = ix\<rparr>;
            t' = t\<lparr>fBad := x_bad s\<rparr>
        in if x_bad s then (uint256_null, t', x_match s, vnIndex s)
           else if (nBitsUsed s + 7) div 8 \<noteq> (length (vBits t) + 7) div 8 then (uint256_null, t', x_match s, vnIndex s)
           else if nHashUsed s \<noteq> length (vHash t) then (uint256_null, t', x_match s, vnIndex s)
           else (hashMerkleRoot, t', x_match s, vnIndex s))"

subsection \<open>The wire format\<close>

definition set_flag :: "bool list \<Rightarrow> bytes \<Rightarrow> nat \<Rightarrow> bytes" where
  "set_flag bits vBytes p = vBytes[p div 8 := vBytes ! (p div 8) OR push_bit (p mod 8) (of_bool (bits ! p))]"

definition pack_flags :: "bool list \<Rightarrow> bytes" where
  "pack_flags bits = foldl (set_flag bits) (replicate ((length bits + 7) div 8) 0) [0..<length bits]"

definition unpack_flags :: "bytes \<Rightarrow> bool list" where
  "unpack_flags vBytes = map (\<lambda>p. vBytes ! (p div 8) AND push_bit (p mod 8) 1 \<noteq> 0) [0..<length vBytes * 8]"

definition CPartialMerkleTree_Serialize :: "CPartialMerkleTree \<Rightarrow> bytes" where
  "CPartialMerkleTree_Serialize t =
     ser_writedata32 (of_nat (nTransactions t)) @ Serialize_vec (\<lambda>h. uint256_Serialize h) (vHash t)
     @ Serialize_bytes (pack_flags (vBits t))"

definition CPartialMerkleTree_Unserialize :: "CPartialMerkleTree reader" where
  "CPartialMerkleTree_Unserialize s =
     bind_result (ser_readdata32 s) (\<lambda>(n, s).
     bind_result (Unserialize_vec (ser_read 32) 32 s) (\<lambda>(hs, s).
     bind_result (Unserialize_bytes s) (\<lambda>(vBytes, s).
       Inr (\<lparr>nTransactions = unat n, vBits = unpack_flags vBytes, vHash = hs, fBad = False\<rparr>, s))))"

section \<open>Filtered blocks\<close>

record CMerkleBlock =
  header :: CBlockHeader
  txn :: CPartialMerkleTree
  vMatchedTxn :: "(nat \<times> uint256) list"

definition CMerkleBlock_txids :: "prune_env \<Rightarrow> CBlock \<Rightarrow> uint256 set \<Rightarrow> CMerkleBlock" where
  "CMerkleBlock_txids env block txids =
     (let vHashes = map (ComputeHash fresh_buf env) (vtx block);
          vMatch = map (\<lambda>h. h \<in> txids) vHashes
      in \<lparr>header = GetBlockHeader block, txn = CPartialMerkleTree_build vHashes vMatch, vMatchedTxn = []\<rparr>)"

section \<open>Packing the flags\<close>

lemma bit_byte_less: "bit (b :: byte) j \<Longrightarrow> j < 8"
  using bit_imp_le_length [of b j] by simp

lemma set_flag_bits:
  fixes bits :: "bool list"
  assumes "k \<le> length bits"
  shows "length (foldl (set_flag bits) (replicate ((length bits + 7) div 8) 0) [0..<k]) = (length bits + 7) div 8
    \<and> (\<forall>i<(length bits + 7) div 8. \<forall>j<8. bit (foldl (set_flag bits) (replicate ((length bits + 7) div 8) 0) [0..<k] ! i) j
         \<longleftrightarrow> i * 8 + j < k \<and> bits ! (i * 8 + j))"
  using assms
proof (induction k)
  case 0
  then show ?case by simp
next
  case (Suc k)
  define v where "v = foldl (set_flag bits) (replicate ((length bits + 7) div 8) 0) [0..<k]"
  have len: "length v = (length bits + 7) div 8"
    and v: "\<And>i j. i < (length bits + 7) div 8 \<Longrightarrow> j < 8 \<Longrightarrow> bit (v ! i) j \<longleftrightarrow> i * 8 + j < k \<and> bits ! (i * 8 + j)"
    using Suc by (simp_all add: v_def)
  have k8: "k div 8 < length v" using Suc.prems by (simp add: len div_less_iff_less_mult)
  have "bit (set_flag bits v k ! i) j \<longleftrightarrow> i * 8 + j < Suc k \<and> bits ! (i * 8 + j)" if ij: "i < length v" "j < 8" for i j
  proof (cases "i = k div 8")
    case True
    have "bit (push_bit (k mod 8) (of_bool (bits ! k)) :: byte) j \<longleftrightarrow> j = k mod 8 \<and> bits ! k"
      using ij by (auto simp: bit_push_bit_iff bit_of_bool_iff)
    moreover have "i * 8 + j = k \<longleftrightarrow> j = k mod 8" using True ij by (metis add_left_cancel mod_div_decomp mult.commute)
    ultimately show ?thesis using True k8 v [of i j] ij len by (auto simp: set_flag_def bit_or_iff less_Suc_eq)
  next
    case False
    then have "i * 8 + j \<noteq> k" using ij by auto
    then show ?thesis using False v [of i j] ij len by (auto simp: set_flag_def less_Suc_eq)
  qed
  then show ?case by (simp add: v_def [symmetric]) (simp add: set_flag_def len)
qed

lemma unpack_pack:
  "unpack_flags (pack_flags bits) = bits @ replicate ((length bits + 7) div 8 * 8 - length bits) False"
proof -
  define v where "v = pack_flags bits"
  have len: "length v = (length bits + 7) div 8"
    and v: "\<And>i j. i < (length bits + 7) div 8 \<Longrightarrow> j < 8 \<Longrightarrow> bit (v ! i) j \<longleftrightarrow> i * 8 + j < length bits \<and> bits ! (i * 8 + j)"
    using set_flag_bits [of "length bits" bits] by (simp_all add: v_def pack_flags_def)
  have le: "length bits \<le> (length bits + 7) div 8 * 8" by linarith
  have test: "(b :: byte) AND push_bit j 1 \<noteq> 0 \<longleftrightarrow> bit b j" if "j < 8" for b j
    using that by (metis and_exp_eq_0_iff_not_bit push_bit_of_1)
  show ?thesis
  proof (rule nth_equalityI)
    show "length (unpack_flags (pack_flags bits)) = length (bits @ replicate ((length bits + 7) div 8 * 8 - length bits) False)"
      using le len by (simp add: unpack_flags_def v_def)
  next
    fix p
    assume "p < length (unpack_flags (pack_flags bits))"
    then have p: "p < length v * 8" by (simp add: unpack_flags_def v_def)
    then have "p div 8 < (length bits + 7) div 8" using len by (simp add: div_less_iff_less_mult)
    then have "bit (v ! (p div 8)) (p mod 8) \<longleftrightarrow> p < length bits \<and> bits ! p" using v [of "p div 8" "p mod 8"] by simp
    then show "unpack_flags (pack_flags bits) ! p = (bits @ replicate ((length bits + 7) div 8 * 8 - length bits) False) ! p"
      using p test [of "p mod 8"] len by (auto simp: unpack_flags_def v_def nth_append)
  qed
qed

section \<open>Building and extracting\<close>

lemma TraverseAndBuild_append:
  "TraverseAndBuild n vTxid vMatch h pos bh =
     (fst bh @ fst (TraverseAndBuild n vTxid vMatch h pos ([], [])), snd bh @ snd (TraverseAndBuild n vTxid vMatch h pos ([], [])))"
proof (induction h arbitrary: pos bh)
  case 0
  then show ?case by (simp add: Let_def)
next
  case (Suc h)
  define enc where "enc p = TraverseAndBuild n vTxid vMatch h p ([], [])" for p
  have "TraverseAndBuild n vTxid vMatch h p (b, hs) = (b @ fst (enc p), hs @ snd (enc p))" for p b hs
    using Suc.IH [of p "(b, hs)"] by (simp add: enc_def)
  then show ?case by (cases bh) (simp add: Let_def)
qed

text \<open>The bits and the hashes of the part of the tree below a node.\<close>

abbreviation enc :: "uint256 list \<Rightarrow> bool list \<Rightarrow> nat \<Rightarrow> nat \<Rightarrow> bool list \<times> uint256 list" where
  "enc vTxid vMatch h pos \<equiv> TraverseAndBuild (length vTxid) vTxid vMatch h pos ([], [])"

definition matched :: "bool list \<Rightarrow> nat \<Rightarrow> nat \<Rightarrow> nat \<Rightarrow> nat list" where
  "matched vMatch n h pos = filter (\<lambda>p. vMatch ! p) [pos * 2 ^ h..<min ((pos + 1) * 2 ^ h) n]"

lemma any_matched: "(\<exists>p\<in>set [pos * 2 ^ h..<min ((pos + 1) * 2 ^ h) n]. vMatch ! p) \<longleftrightarrow> matched vMatch n h pos \<noteq> []"
  by (auto simp: matched_def filter_empty_conv)

lemma enc_0: "enc vTxid vMatch 0 pos = ([matched vMatch (length vTxid) 0 pos \<noteq> []], [vTxid ! pos])"
  using any_matched [of pos 0 "length vTxid" vMatch] by simp

lemma enc_Suc:
  "enc vTxid vMatch (Suc h) pos =
     (if matched vMatch (length vTxid) (Suc h) pos = [] then ([False], [node vTxid (Suc h) pos])
      else if pos * 2 + 1 < width vTxid h
      then (True # fst (enc vTxid vMatch h (pos * 2)) @ fst (enc vTxid vMatch h (pos * 2 + 1)),
            snd (enc vTxid vMatch h (pos * 2)) @ snd (enc vTxid vMatch h (pos * 2 + 1)))
      else (True # fst (enc vTxid vMatch h (pos * 2)), snd (enc vTxid vMatch h (pos * 2))))"
proof -
  have "TraverseAndBuild (length vTxid) vTxid vMatch h p (b, hs) = (b @ fst (enc vTxid vMatch h p), hs @ snd (enc vTxid vMatch h p))" for p b hs
    using TraverseAndBuild_append [of "length vTxid" vTxid vMatch h p "(b, hs)"] by simp
  note app = this
  show ?thesis
    unfolding TraverseAndBuild.simps(2) any_matched
    using app [of "pos * 2" "[True]" "[]"] app [of "pos * 2 + 1" "True # fst (enc vTxid vMatch h (pos * 2))"]
    by (simp add: Let_def)
qed

lemma matched_Suc:
  assumes "pos < width vTxid (Suc h)"
  shows "matched vMatch (length vTxid) (Suc h) pos =
    (if pos * 2 + 1 < width vTxid h
     then matched vMatch (length vTxid) h (pos * 2) @ matched vMatch (length vTxid) h (pos * 2 + 1)
     else matched vMatch (length vTxid) h (pos * 2))"
proof -
  let ?n = "length vTxid" and ?a = "pos * 2 ^ Suc h" and ?b = "(pos * 2 + 1) * 2 ^ h" and ?c = "(pos + 1) * 2 ^ Suc h"
  have s: "?a = pos * 2 * 2 ^ h" "?c = (pos * 2 + 1 + 1) * 2 ^ h" "?a \<le> ?b" "?b \<le> ?c" by (simp_all add: algebra_simps)
  show ?thesis
  proof (cases "pos * 2 + 1 < width vTxid h")
    case True
    then have "(pos * 2 + 1 + 1) * 2 ^ h \<le> width vTxid h * 2 ^ h" by (intro mult_le_mono1) simp
    then have "?b < ?n" using width_bounds(2) [of vTxid h] by (simp add: algebra_simps)
    then have "[?a..<min ?c ?n] = [?a..<?b] @ [?b..<min ?c ?n]"
      using upt_add_eq_append [of ?a ?b "min ?c ?n - ?b"] s by simp
    then show ?thesis using True \<open>?b < ?n\<close> s by (simp add: matched_def mult.assoc)
  next
    case False
    then have "width vTxid h * 2 ^ h \<le> ?b" by (intro mult_le_mono1) simp
    then have "?n \<le> ?b" using width_bounds(1) [of vTxid h] by simp
    then show ?thesis using False s by (simp add: matched_def mult.assoc)
  qed
qed

lemma matched_0: "pos < n \<Longrightarrow> matched vMatch n 0 pos = (if vMatch ! pos then [pos] else [])"
  by (simp add: matched_def min_def upt_rec)

lemma width_children:
  assumes "pos < width vTxid (Suc h)"
  shows "pos * 2 < width vTxid h"
  using assms by (simp add: CalcTreeWidth_Suc)

text \<open>Two nodes that are hashed together differ.\<close>

definition siblings_differ :: "uint256 list \<Rightarrow> bool" where
  "siblings_differ vTxid \<longleftrightarrow>
     (\<forall>h\<in>{..<tree_height (length vTxid) 0}. \<forall>p\<in>{..<width vTxid (Suc h)}.
        p * 2 + 1 < width vTxid h \<longrightarrow> node vTxid h (p * 2) \<noteq> node vTxid h (p * 2 + 1))"

lemma TraverseAndExtract_enc:
  assumes "vBits t = B @ fst (enc vTxid vMatch h pos) @ B'" and "vHash t = H @ snd (enc vTxid vMatch h pos) @ H'"
    and "nBitsUsed s = length B" and "nHashUsed s = length H" and "nTransactions t = length vTxid"
    and "pos < width vTxid h" and "h \<le> tree_height (length vTxid) 0" and "siblings_differ vTxid"
  shows "TraverseAndExtract t h pos s =
    (node vTxid h pos,
     s\<lparr>nBitsUsed := length B + length (fst (enc vTxid vMatch h pos)), nHashUsed := length H + length (snd (enc vTxid vMatch h pos)),
       x_match := x_match s @ map (\<lambda>p. vTxid ! p) (matched vMatch (length vTxid) h pos),
       vnIndex := vnIndex s @ matched vMatch (length vTxid) h pos\<rparr>)"
  using assms
proof (induction h arbitrary: pos s B B' H H')
  case 0
  then have "pos < length vTxid" by (simp add: CalcTreeWidth_def)
  then show ?case
    using 0 by (cases s) (simp add: enc_0 matched_0 Let_def nth_append del: TraverseAndBuild.simps(1))
next
  case (Suc h)
  let ?n = "length vTxid" and ?l = "enc vTxid vMatch h (pos * 2)" and ?r = "enc vTxid vMatch h (pos * 2 + 1)"
  have h: "h \<le> tree_height ?n 0" using Suc.prems(7) by simp
  have left: "pos * 2 < width vTxid h" using width_children [OF Suc.prems(6)] .
  show ?case
  proof (cases "matched vMatch ?n (Suc h) pos = []")
    case True
    then have e: "enc vTxid vMatch (Suc h) pos = ([False], [node vTxid (Suc h) pos])" by (simp only: enc_Suc refl if_True)
    show ?thesis using Suc.prems(1-4) True unfolding e by (cases s) (simp add: Let_def nth_append)
  next
    case m: False
    define s1 where "s1 = s\<lparr>nBitsUsed := nBitsUsed s + 1\<rparr>"
    show ?thesis
    proof (cases "pos * 2 + 1 < width vTxid h")
      case True
      have e: "enc vTxid vMatch (Suc h) pos = (True # fst ?l @ fst ?r, snd ?l @ snd ?r)"
        using m True by (simp only: enc_Suc if_True if_False)
      define s2 where "s2 = snd (TraverseAndExtract t h (pos * 2) s1)"
      have L: "TraverseAndExtract t h (pos * 2) s1 = (node vTxid h (pos * 2), s2)"
        and s2: "s2 = s1\<lparr>nBitsUsed := length (B @ [True]) + length (fst ?l), nHashUsed := length H + length (snd ?l),
             x_match := x_match s1 @ map (\<lambda>p. vTxid ! p) (matched vMatch ?n h (pos * 2)),
             vnIndex := vnIndex s1 @ matched vMatch ?n h (pos * 2)\<rparr>"
        using Suc.IH [of "B @ [True]" "pos * 2" "fst ?r @ B'" H "snd ?r @ H'" s1] Suc.prems(1-5,8) e h left
        by (simp_all add: s1_def s2_def)
      have R: "TraverseAndExtract t h (pos * 2 + 1) s2 = (node vTxid h (pos * 2 + 1),
          s2\<lparr>nBitsUsed := length (B @ True # fst ?l) + length (fst ?r), nHashUsed := length (H @ snd ?l) + length (snd ?r),
             x_match := x_match s2 @ map (\<lambda>p. vTxid ! p) (matched vMatch ?n h (pos * 2 + 1)),
             vnIndex := vnIndex s2 @ matched vMatch ?n h (pos * 2 + 1)\<rparr>)"
        using Suc.IH [of "B @ True # fst ?l" "pos * 2 + 1" B' "H @ snd ?l" H' s2] Suc.prems(1-5,8) e h True s2
        by simp
      have "node vTxid h (pos * 2) \<noteq> node vTxid h (pos * 2 + 1)"
        using Suc.prems(6-8) True by (simp add: siblings_differ_def)
      moreover have "node vTxid (Suc h) pos = Hash fresh_buf [node vTxid h (pos * 2), node vTxid h (pos * 2 + 1)]"
        using True by (simp add: CalcHash.simps(2))
      ultimately show ?thesis
        using Suc.prems(1-5) e L R s2 True matched_Suc [OF Suc.prems(6), of vMatch]
        by (simp add: Let_def nth_append s1_def)
    next
      case False
      have e: "enc vTxid vMatch (Suc h) pos = (True # fst ?l, snd ?l)"
        using m False by (simp only: enc_Suc if_True if_False)
      have L: "TraverseAndExtract t h (pos * 2) s1 = (node vTxid h (pos * 2),
          s1\<lparr>nBitsUsed := length (B @ [True]) + length (fst ?l), nHashUsed := length H + length (snd ?l),
             x_match := x_match s1 @ map (\<lambda>p. vTxid ! p) (matched vMatch ?n h (pos * 2)),
             vnIndex := vnIndex s1 @ matched vMatch ?n h (pos * 2)\<rparr>)"
        using Suc.IH [of "B @ [True]" "pos * 2" B' H H' s1] Suc.prems(1-5,8) e h left by (simp add: s1_def)
      moreover have "node vTxid (Suc h) pos = Hash fresh_buf [node vTxid h (pos * 2), node vTxid h (pos * 2)]"
        using False by (simp add: CalcHash.simps(2) Let_def)
      ultimately show ?thesis
        using Suc.prems(1-5) e False matched_Suc [OF Suc.prems(6), of vMatch] by (simp add: Let_def nth_append s1_def)
    qed
  qed
qed

lemma width_start: "pos < width vTxid h \<Longrightarrow> pos * 2 ^ h < length vTxid"
proof -
  assume "pos < width vTxid h"
  then have "(pos + 1) * 2 ^ h \<le> width vTxid h * 2 ^ h" by (intro mult_le_mono1) simp
  then show ?thesis using width_bounds(2) [of vTxid h] by simp
qed

lemma enc_sizes:
  assumes "pos < width vTxid h"
  shows "length (snd (enc vTxid vMatch h pos)) \<le> min ((pos + 1) * 2 ^ h) (length vTxid) - pos * 2 ^ h
    \<and> length (snd (enc vTxid vMatch h pos)) \<le> length (fst (enc vTxid vMatch h pos))
    \<and> length (fst (enc vTxid vMatch h pos)) < 2 ^ Suc h"
  using assms
proof (induction h arbitrary: pos)
  case 0
  then show ?case using width_start [OF 0] by (simp add: min_def)
next
  case (Suc h)
  let ?n = "length vTxid" and ?l = "enc vTxid vMatch h (pos * 2)" and ?r = "enc vTxid vMatch h (pos * 2 + 1)"
  have start: "pos * 2 * 2 ^ h < ?n" using width_start [OF Suc.prems] by simp
  have range: "min ((pos * 2 + 1) * 2 ^ h) ?n - pos * 2 * 2 ^ h \<le> min ((pos + 1) * 2 ^ Suc h) ?n - pos * 2 ^ Suc h"
    by (auto simp: algebra_simps min_def)
  note L = Suc.IH [OF width_children [OF Suc.prems]]
  show ?case
  proof (cases "matched vMatch ?n (Suc h) pos = []")
    case True
    have "(1 :: nat) < 2 ^ Suc (Suc h)" by (rule one_less_power) simp_all
    moreover have "pos * 2 ^ Suc h < min ((pos + 1) * 2 ^ Suc h) ?n" using start by simp
    ultimately show ?thesis using True by (simp only: enc_Suc refl if_True fst_conv snd_conv) simp
  next
    case m: False
    show ?thesis
    proof (cases "pos * 2 + 1 < width vTxid h")
      case True
      have e: "enc vTxid vMatch (Suc h) pos = (True # fst ?l @ fst ?r, snd ?l @ snd ?r)"
        using m True by (simp only: enc_Suc if_True if_False)
      have "(pos * 2 + 1) * 2 ^ h < ?n" using width_start [OF True] .
      then have "(min ((pos * 2 + 1) * 2 ^ h) ?n - pos * 2 * 2 ^ h) + (min ((pos * 2 + 1 + 1) * 2 ^ h) ?n - (pos * 2 + 1) * 2 ^ h)
          \<le> min ((pos + 1) * 2 ^ Suc h) ?n - pos * 2 ^ Suc h"
        by (simp add: algebra_simps min_def)
      then show ?thesis using L Suc.IH [OF True] unfolding e by simp
    next
      case False
      have e: "enc vTxid vMatch (Suc h) pos = (True # fst ?l, snd ?l)"
        using m False by (simp only: enc_Suc if_True if_False)
      show ?thesis using L range unfolding e by simp
    qed
  qed
qed

lemma enc_hash_lengths:
  assumes "list_all (\<lambda>h. length h = 32) vTxid" and "pos < width vTxid h"
  shows "list_all (\<lambda>h. length h = 32) (snd (enc vTxid vMatch h pos))"
  using assms(2)
proof (induction h arbitrary: pos)
  case 0
  then show ?case using assms(1) width_start [OF 0] by (simp add: list_all_length)
next
  case (Suc h)
  have "length (node vTxid (Suc h) pos) = 32" by (simp add: CalcHash.simps(2) Let_def)
  then show ?case using Suc.IH [OF width_children [OF Suc.prems]] Suc.IH [of "pos * 2 + 1"] unfolding enc_Suc by simp
qed

lemma tree_height_width:
  assumes "0 < length leaves"
  shows "width leaves (tree_height (length leaves) h) \<le> 1" "tree_height (length leaves) h = h \<or> 2 ^ (tree_height (length leaves) h - 1) < length leaves"
proof -
  have "width leaves (tree_height (length leaves) h) \<le> 1
    \<and> (tree_height (length leaves) h = h \<or> 2 ^ (tree_height (length leaves) h - 1) < length leaves \<and> h < tree_height (length leaves) h)"
  proof (induction "length leaves" h rule: tree_height.induct)
    case (1 h)
    show ?case
    proof (cases "1 < width leaves h")
      case True
      have t: "tree_height (length leaves) h = tree_height (length leaves) (h + 1)"
        using True by (subst tree_height.simps) simp
      have "2 * 2 ^ h \<le> width leaves h * 2 ^ h" using True by (intro mult_le_mono1) simp
      then have "2 ^ h < length leaves" using width_bounds(2) [of leaves h] by linarith
      then show ?thesis using 1 True unfolding t by auto
    next
      case False
      then show ?thesis by (subst (1 2) tree_height.simps) (simp add: tree_height.simps)
    qed
  qed
  then show "width leaves (tree_height (length leaves) h) \<le> 1" "tree_height (length leaves) h = h \<or> 2 ^ (tree_height (length leaves) h - 1) < length leaves"
    by auto
qed

section \<open>Properties\<close>

text \<open>
  C8. A filtered block tells the truth: for a list of transactions and the flags of the matched ones, the partial tree
  that \<open>CPartialMerkleTree\<close> builds is read back from the wire, padding included, and \<open>ExtractMatches\<close> returns from it the
  Merkle root of the whole block, and exactly the matched transactions with their positions, in order. The two
  children of a node are assumed to differ, which \<open>ExtractMatches\<close> insists on.
\<close>

theorem ExtractMatches_build:
  assumes "0 < length vTxid" and "length vTxid \<le> MaxBlockSize True div 60" and "list_all (\<lambda>h. length h = 32) vTxid"
    and "siblings_differ vTxid"
  shows "case CPartialMerkleTree_Unserialize (CPartialMerkleTree_Serialize (CPartialMerkleTree_build vTxid vMatch) @ r) of
      Inl _ \<Rightarrow> False
    | Inr (t, r') \<Rightarrow> r' = r \<and> ExtractMatches t vnIndex0 =
        (fst (ComputeMerkleRoot vTxid), t, map (\<lambda>i. vTxid ! i) (filter (\<lambda>i. vMatch ! i) [0..<length vTxid]),
         vnIndex0 @ filter (\<lambda>i. vMatch ! i) [0..<length vTxid])"
proof -
  let ?n = "length vTxid"
  let ?h = "tree_height ?n 0"
  define e where "e = enc vTxid vMatch ?h 0"
  define bits where "bits = fst e @ replicate ((length (fst e) + 7) div 8 * 8 - length (fst e)) False"
  define t where "t = \<lparr>nTransactions = ?n, vBits = bits, vHash = snd e, fBad = False\<rparr>"
  have n: "?n \<le> 166666" using assms(2) by (simp add: MaxBlockSize_def)
  have w: "width vTxid ?h = 1" using tree_height_width(1) [OF assms(1), of 0] less_width [OF assms(1), of ?h] by simp
  then have top: "0 < width vTxid ?h" by simp
  have sizes: "length (snd e) \<le> ?n" "length (snd e) \<le> length (fst e)" "length (fst e) < 2 ^ Suc ?h"
    using enc_sizes [OF top, of vMatch] by (simp_all add: e_def)
  have all: "?n \<le> 2 ^ ?h" using width_bounds(1) [of vTxid ?h] w by simp
  have "2 ^ Suc ?h \<le> 4 * ?n"
    using tree_height_width(2) [OF assms(1), of 0] assms(1) by (cases ?h) (auto simp: Suc_le_eq)
  then have small: "length (pack_flags (fst e)) \<le> MAX_SIZE"
    using sizes(3) n set_flag_bits [of "length (fst e)" "fst e"] by (simp add: pack_flags_def MAX_SIZE_def)
  have "CPartialMerkleTree_build vTxid vMatch = \<lparr>nTransactions = ?n, vBits = fst e, vHash = snd e, fBad = False\<rparr>"
    by (simp add: CPartialMerkleTree_build_def e_def Let_def split: prod.split)
  then have wire: "CPartialMerkleTree_Unserialize (CPartialMerkleTree_Serialize (CPartialMerkleTree_build vTxid vMatch) @ r) = Inr (t, r)"
    using small sizes(1) n enc_hash_lengths [OF assms(3) top, of vMatch]
    by (simp add: CPartialMerkleTree_Unserialize_def CPartialMerkleTree_Serialize_def ser32.unser_ser bytes.unser_ser
        codec.unser_ser [OF branch_codec] t_def bits_def unpack_pack unat_of_nat take_bit_nat_eq_self e_def MAX_SIZE_def)
  define s0 where "s0 = \<lparr>x_bad = False, nBitsUsed = 0, nHashUsed = 0, x_match = [], vnIndex = vnIndex0\<rparr>"
  have ex: "TraverseAndExtract t ?h 0 s0 = (node vTxid ?h 0,
      s0\<lparr>nBitsUsed := length (fst e), nHashUsed := length (snd e),
         x_match := map (\<lambda>p. vTxid ! p) (matched vMatch ?n ?h 0), vnIndex := vnIndex0 @ matched vMatch ?n ?h 0\<rparr>)"
    using TraverseAndExtract_enc [of t "[]" vTxid vMatch ?h 0 _ "[]" "[]" s0] top assms(4)
    by (simp add: t_def bits_def e_def s0_def)
  have m: "matched vMatch ?n ?h 0 = filter (\<lambda>i. vMatch ! i) [0..<?n]" using all by (simp add: matched_def min_absorb2)
  have pad: "\<not> (length (fst e) + 7) div 8 * 8 < length (snd e)" using sizes(2) by linarith
  obtain r' mut b where "MerkleComputation vTxid (2 ^ 32 - 1) = (r', mut, b)" by (cases "MerkleComputation vTxid (2 ^ 32 - 1)")
  then have "fst (ComputeMerkleRoot vTxid) = node vTxid ?h 0"
    using MerkleComputation_tree [OF assms(1), of "2 ^ 32 - 1"] n unfolding ComputeMerkleRoot_def by simp
  then have "ExtractMatches t vnIndex0 = (fst (ComputeMerkleRoot vTxid), t, map (\<lambda>p. vTxid ! p) (matched vMatch ?n ?h 0),
      vnIndex0 @ matched vMatch ?n ?h 0)"
    using ex assms(1,2) sizes(1,2) pad by (simp add: ExtractMatches_def t_def bits_def s0_def Let_def)
  then show ?thesis using wire m by simp
qed

theorem ExtractMatches_build_witness:
  "case CPartialMerkleTree_Unserialize (CPartialMerkleTree_Serialize
       (CPartialMerkleTree_build [replicate 32 1, replicate 32 2] [False, True]) @ [9]) of
     Inl _ \<Rightarrow> False
   | Inr (t, r') \<Rightarrow> r' = [9] \<and> ExtractMatches t [] =
       (fst (ComputeMerkleRoot [replicate 32 1, replicate 32 2]), t, [replicate 32 2], [1])"
proof -
  define vs where "vs = [replicate 32 1, replicate 32 (2 :: byte)]"
  have vs: "length vs = 2" "list_all (\<lambda>h. length h = 32) vs" "vs ! 0 \<noteq> vs ! 1" "vs ! 1 = replicate 32 2"
    by (simp_all add: vs_def)
  have h: "tree_height 2 0 = 1" by (simp add: tree_height.simps CalcTreeWidth_def)
  have "siblings_differ vs"
    using vs by (simp add: siblings_differ_def h CalcTreeWidth_def)
  moreover have "filter ((!) [False, True]) [0..<2] = [1]" by (simp add: upt_rec)
  ultimately show ?thesis
    unfolding vs_def [symmetric] using ExtractMatches_build [where vTxid = vs and vMatch = "[False, True]" and r = "[9]" and ?vnIndex0.0 = "[]"] vs
    by (simp add: MaxBlockSize_def split: sum.splits prod.splits)
qed

end
