(* ===== verification/AuxPow.thy ===== *)
theory AuxPow
  imports Merkle Block
begin

text \<open>
  Merge mining (\<open>auxpow.cpp\<close>): a block may borrow its proof of work from a parent block of another chain, whose coinbase
  transaction commits to the block. A position in the coinbase script is the number of bytes before it.
\<close>

unbundle bit_operations_syntax

section \<open>Merkle branches\<close>

fun branch_loop :: "uint256 \<Rightarrow> uint256 list \<Rightarrow> u32 \<Rightarrow> uint256" where
  "branch_loop hash [] index = hash"
| "branch_loop hash (it # its) index =
     branch_loop (if index AND 1 \<noteq> 0 then Hash fresh_buf [it, hash] else Hash fresh_buf [hash, it]) its (signed_drop_bit 1 index)"

definition CheckMerkleBranch :: "uint256 \<Rightarrow> uint256 list \<Rightarrow> u32 \<Rightarrow> uint256" where
  "CheckMerkleBranch hash branch index = (if index = - 1 then uint256_null else branch_loop hash branch index)"

definition getExpectedIndex :: "u32 \<Rightarrow> u32 \<Rightarrow> nat \<Rightarrow> u32" where
  "getExpectedIndex nonce nChainId h =
     (let rand = nonce;
          rand = rand * 1103515245 + 12345;
          rand = rand + nChainId;
          rand = rand * 1103515245 + 12345
      in rand mod push_bit h 1)"

section \<open>Checking the data\<close>

text \<open>\<open>std::search\<close>: where the pattern first occurs, or the end.\<close>

fun std_search :: "bytes \<Rightarrow> bytes \<Rightarrow> nat" where
  "std_search [] pat = 0"
| "std_search (b # s) pat = (if take (length pat) (b # s) = pat then 0 else Suc (std_search s pat))"

definition pchMergedMiningHeader :: bytes where
  "pchMergedMiningHeader = [0xfa, 0xbe, 0x6d, 0x6d]"

definition CMerkleTx_GetHash :: "prune_env \<Rightarrow> 'a CMerkleTx_scheme \<Rightarrow> uint256" where
  "CMerkleTx_GetHash env m = ComputeHash fresh_buf env (m_tx m)"

text \<open>What is checked of the coinbase script, once the chain's Merkle root is known.\<close>

definition check_coinbase :: "CAuxPow \<Rightarrow> bytes \<Rightarrow> u32 \<Rightarrow> CScript \<Rightarrow> bool" where
  "check_coinbase a vchRootHash nChainId script =
     (let pcHead = std_search script pchMergedMiningHeader;
          pc = std_search script vchRootHash
      in if pc = length script then False
         else if pcHead \<noteq> length script
              \<and> std_search (drop (pcHead + 1) script) pchMergedMiningHeader \<noteq> length (drop (pcHead + 1) script) then False
         else if pcHead \<noteq> length script \<and> pcHead + length pchMergedMiningHeader \<noteq> pc then False
         else if pcHead = length script \<and> pc > 20 then False
         else
           let pc = pc + length vchRootHash
           in if length script - pc < 8 then False
              else
                let nSize = ReadLE32 (take 4 (drop pc script));
                    merkleHeight = length (vChainMerkleBranch a)
                in if nSize \<noteq> push_bit merkleHeight 1 then False
                   else nChainIndex a = getExpectedIndex (ReadLE32 (take 4 (drop (pc + 4) script))) nChainId merkleHeight)"

text \<open>\<open>None\<close> is the access to \<open>vin[0]\<close> of a transaction that has no inputs.\<close>

definition CAuxPow_check :: "prune_env \<Rightarrow> CAuxPow \<Rightarrow> uint256 \<Rightarrow> u32 \<Rightarrow> bool option" where
  "CAuxPow_check env a hashAuxBlock nChainId =
     (if nIndex a \<noteq> 0 then Some False
      else if GetChainId (parentBlock a) = nChainId then Some False
      else if length (vChainMerkleBranch a) > 30 then Some False
      else
        let nRootHash = CheckMerkleBranch hashAuxBlock (vChainMerkleBranch a) (nChainIndex a)
        in if CheckMerkleBranch (CMerkleTx_GetHash env a) (vMerkleBranch a) (nIndex a) \<noteq> hashMerkleRoot (parentBlock a)
           then Some False
           else case vin (m_tx a) of
                  [] \<Rightarrow> None
                | input # _ \<Rightarrow> Some (check_coinbase a (rev nRootHash) nChainId (scriptSig input)))"

section \<open>Minimal data\<close>

text \<open>The coinbase transaction of the parent block that \<open>initAuxPow\<close> makes up for a block hash.\<close>

definition init_coinbase :: "uint256 \<Rightarrow> CTransaction" where
  "init_coinbase blockHash =
     (let inputData = rev blockHash @ [1] @ replicate 7 0
      in \<lparr>nVersion = CURRENT_VERSION,
          vin = [\<lparr>prevout = COutPoint_null, scriptSig = push_data [] inputData, nSequence = SEQUENCE_FINAL\<rparr>],
          vout = [], nLockTime = 0\<rparr>)"

definition initAuxPow :: "prune_env \<Rightarrow> 'a CBlockHeader_scheme \<Rightarrow> 'a CBlockHeader_scheme" where
  "initAuxPow env h =
     (let h = SetAuxpowVersion True h;
          coinbase = init_coinbase (CPureBlockHeader_GetHash h);
          parent = CPureBlockHeader_null\<lparr>hdr_nVersion := 1, hashMerkleRoot := fst (BlockMerkleRoot env [coinbase])\<rparr>
      in SetAuxpow (Some \<lparr>m_tx = coinbase, hashBlock = uint256_null, vMerkleBranch = [], nIndex = 0,
                          vChainMerkleBranch = [], nChainIndex = 0, parentBlock = parent\<rparr>) h)"

text \<open>The branch of a transaction in its block.\<close>

definition InitMerkleBranch :: "prune_env \<Rightarrow> CBlock \<Rightarrow> nat \<Rightarrow> 'a CMerkleTx_scheme \<Rightarrow> 'a CMerkleTx_scheme" where
  "InitMerkleBranch env block posInBlock m =
     m\<lparr>hashBlock := CPureBlockHeader_GetHash block, nIndex := of_nat posInBlock,
       vMerkleBranch := BlockMerkleBranch env (vtx block) posInBlock\<rparr>"

section \<open>Searching\<close>

lemma std_search_le: "std_search s pat \<le> length s"
  by (induction s) auto

lemma std_search_found: "std_search s pat < length s \<Longrightarrow> take (length pat) (drop (std_search s pat) s) = pat"
  by (induction s) (auto split: if_splits)

lemma std_search_first: "take (length pat) (drop i s) = pat \<Longrightarrow> i < length s \<Longrightarrow> std_search s pat \<le> i"
proof (induction s arbitrary: i)
  case (Cons b s)
  then show ?case by (cases i) auto
qed simp

section \<open>Branches that meet\<close>

text \<open>What is hashed on the way along a branch.\<close>

fun branch_inputs :: "uint256 \<Rightarrow> uint256 list \<Rightarrow> u32 \<Rightarrow> bytes list" where
  "branch_inputs hash [] index = []"
| "branch_inputs hash (it # its) index =
     (if index AND 1 \<noteq> 0 then it @ hash else hash @ it)
     # branch_inputs (hash256 (if index AND 1 \<noteq> 0 then it @ hash else hash @ it)) its (signed_drop_bit 1 index)"

lemma branch_loop_meet:
  assumes "length bs = length cs" and "list_all (\<lambda>h. length h = 32) bs" and "list_all (\<lambda>h. length h = 32) cs"
    and "length h = 32" and "length g = 32" and "branch_loop h bs i = branch_loop g cs i"
  shows "h = g \<or> (\<exists>(x, y) \<in> set (zip (branch_inputs h bs i) (branch_inputs g cs i)). x \<noteq> y \<and> hash256 x = hash256 y)"
  using assms
proof (induction bs cs arbitrary: h g i rule: list_induct2)
  case Nil
  then show ?case by simp
next
  case (Cons b bs c cs)
  define x where "x = (if i AND 1 \<noteq> 0 then b @ h else h @ b)"
  define y where "y = (if i AND 1 \<noteq> 0 then c @ g else g @ c)"
  have loops: "branch_loop h (b # bs) i = branch_loop (hash256 x) bs (signed_drop_bit 1 i)"
    "branch_loop g (c # cs) i = branch_loop (hash256 y) cs (signed_drop_bit 1 i)"
    by (simp_all add: x_def y_def)
  have inputs: "branch_inputs h (b # bs) i = x # branch_inputs (hash256 x) bs (signed_drop_bit 1 i)"
    "branch_inputs g (c # cs) i = y # branch_inputs (hash256 y) cs (signed_drop_bit 1 i)"
    by (simp_all add: x_def y_def)
  have "x = y \<Longrightarrow> h = g" using Cons.prems by (auto simp: x_def y_def split: if_splits)
  moreover have "hash256 x = hash256 y \<or> (\<exists>(x, y) \<in> set (zip (branch_inputs (hash256 x) bs (signed_drop_bit 1 i))
      (branch_inputs (hash256 y) cs (signed_drop_bit 1 i))). x \<noteq> y \<and> hash256 x = hash256 y)"
    using Cons.IH [of "hash256 x" "hash256 y"] Cons.prems loops by simp
  ultimately show ?case unfolding inputs by auto
qed

section \<open>What an accepted coinbase says\<close>

lemma push_bit_u32: "h < 32 \<Longrightarrow> unat (push_bit h (1 :: u32)) = 2 ^ h"
proof -
  assume h: "h < 32"
  have "unat (push_bit h (1 :: u32)) = take_bit 32 (push_bit h 1)" unfolding unsigned_push_bit_eq by simp
  also have "\<dots> = push_bit h 1"
    using power_strict_increasing [OF h, of "2 :: nat"] by (intro take_bit_nat_eq_self) (simp add: push_bit_eq_mult)
  finally show ?thesis by (simp add: push_bit_eq_mult)
qed

lemma getExpectedIndex_less: "h < 32 \<Longrightarrow> unat (getExpectedIndex nonce nChainId h) < 2 ^ h"
  unfolding getExpectedIndex_def Let_def by (simp only: unat_mod push_bit_u32) simp

lemma getExpectedIndex_not_minus_1: "h \<le> 30 \<Longrightarrow> getExpectedIndex nonce nChainId h \<noteq> - 1"
proof
  assume h: "h \<le> 30" and "getExpectedIndex nonce nChainId h = - 1"
  then have "unat (- 1 :: u32) < 2 ^ h" using getExpectedIndex_less [of h nonce nChainId] by simp
  also have "(2 :: nat) ^ h \<le> 2 ^ 30" using h by (rule power_increasing) simp
  finally show False by (simp add: unsigned_minus_1_eq_mask mask_eq_exp_minus_1)
qed

lemma push_bit_u32_inj: "h < 32 \<Longrightarrow> k < 32 \<Longrightarrow> push_bit h (1 :: u32) = push_bit k 1 \<Longrightarrow> h = k"
  using push_bit_u32 [of h] push_bit_u32 [of k] power_inject_exp [of "2 :: nat" h k] by simp

lemma check_coinbase_marked:
  assumes "check_coinbase a vch nChainId script" and "std_search script pchMergedMiningHeader < length script"
  defines "pc \<equiv> std_search script pchMergedMiningHeader + 4"
  shows "vch = take (length vch) (drop pc script)"
    and "ReadLE32 (take 4 (drop (pc + length vch) script)) = push_bit (length (vChainMerkleBranch a)) 1"
    and "nChainIndex a = getExpectedIndex (ReadLE32 (take 4 (drop (pc + length vch + 4) script))) nChainId (length (vChainMerkleBranch a))"
proof -
  have pc: "std_search script vch = pc" "std_search script vch \<noteq> length script"
    using assms(1,2) by (auto simp: check_coinbase_def Let_def pc_def pchMergedMiningHeader_def split: if_splits)
  then show "vch = take (length vch) (drop pc script)"
    using std_search_found [of script vch] std_search_le [of script vch] by simp
  show "ReadLE32 (take 4 (drop (pc + length vch) script)) = push_bit (length (vChainMerkleBranch a)) 1"
    "nChainIndex a = getExpectedIndex (ReadLE32 (take 4 (drop (pc + length vch + 4) script))) nChainId (length (vChainMerkleBranch a))"
    using assms(1,2) pc by (auto simp: check_coinbase_def Let_def split: if_splits)
qed

lemma CAuxPow_check_True:
  assumes "CAuxPow_check env a h nChainId = Some True"
  shows "length (vChainMerkleBranch a) \<le> 30" and "vin (m_tx a) \<noteq> []"
    and "check_coinbase a (rev (CheckMerkleBranch h (vChainMerkleBranch a) (nChainIndex a))) nChainId (scriptSig (hd (vin (m_tx a))))"
    and "nIndex a = 0" and "GetChainId (parentBlock a) \<noteq> nChainId"
    and "CheckMerkleBranch (CMerkleTx_GetHash env a) (vMerkleBranch a) 0 = hashMerkleRoot (parentBlock a)"
  using assms by (auto simp: CAuxPow_check_def Let_def split: if_splits list.splits)

lemma length_branch_loop: "length h = 32 \<Longrightarrow> length (branch_loop h bs i) = 32"
  by (induction h bs i rule: branch_loop.induct) simp_all

lemma length_CheckMerkleBranch: "length h = 32 \<Longrightarrow> length (CheckMerkleBranch h bs i) = 32"
  by (simp add: CheckMerkleBranch_def length_branch_loop uint256_null_def)

section \<open>Properties\<close>

text \<open>
  C12. The same work cannot be used twice for the same chain: when two pieces of merge-mining data with the same parent
  coinbase, which carries the merged-mining header, are accepted for the same chain ID, they name the same slot of
  trees of the same height, and the two blocks are the same, unless the two branches exhibit two different inputs
  with the same double SHA-256.
\<close>

theorem auxpow_no_double_use:
  assumes "CAuxPow_check env a hashA nChainId = Some True" and "CAuxPow_check env b hashB nChainId = Some True"
    and "m_tx a = m_tx b" and "std_search (scriptSig (hd (vin (m_tx a)))) pchMergedMiningHeader < length (scriptSig (hd (vin (m_tx a))))"
    and "CAuxPow_ok a" and "CAuxPow_ok b" and "length hashA = 32" and "length hashB = 32"
  shows "length (vChainMerkleBranch a) = length (vChainMerkleBranch b) \<and> nChainIndex a = nChainIndex b
    \<and> (hashA = hashB
       \<or> (\<exists>(x, y) \<in> set (zip (branch_inputs hashA (vChainMerkleBranch a) (nChainIndex a))
                              (branch_inputs hashB (vChainMerkleBranch b) (nChainIndex b))). x \<noteq> y \<and> hash256 x = hash256 y))"
proof -
  let ?s = "scriptSig (hd (vin (m_tx a)))"
  note A = CAuxPow_check_True [OF assms(1)] and B = CAuxPow_check_True [OF assms(2), folded assms(3)]
  note MA = check_coinbase_marked [OF A(3) assms(4)] and MB = check_coinbase_marked [OF B(3) assms(4)]
  have roots: "CheckMerkleBranch hashA (vChainMerkleBranch a) (nChainIndex a) = CheckMerkleBranch hashB (vChainMerkleBranch b) (nChainIndex b)"
    using MA(1) MB(1) assms(7,8) by (metis length_CheckMerkleBranch length_rev rev_rev_ident)
  have h: "length (vChainMerkleBranch a) = length (vChainMerkleBranch b)"
    using MA(2) MB(2) A(1) B(1) assms(7,8) by (intro push_bit_u32_inj) (simp_all add: length_CheckMerkleBranch)
  have i: "nChainIndex a = nChainIndex b"
    using MA(3) MB(3) h assms(7,8) by (simp add: length_CheckMerkleBranch)
  have "nChainIndex a \<noteq> - 1" using MA(3) getExpectedIndex_not_minus_1 [OF A(1)] by metis
  then have "branch_loop hashA (vChainMerkleBranch a) (nChainIndex a) = branch_loop hashB (vChainMerkleBranch b) (nChainIndex a)"
    using roots i by (simp add: CheckMerkleBranch_def)
  then show ?thesis
    using branch_loop_meet [OF h _ _ assms(7,8)] assms(5,6) h i by (simp add: CAuxPow_ok_def)
qed

lemma SerializeHash_eq: "SerializeHash fresh_buf obj = hash256 obj"
  using chash256.digest1 [of fresh_buf obj] by (simp add: SerializeHash_def CHashWriter_GetHash_def CHashWriter_write_def)

lemma length_ComputeHash [simp]: "length (ComputeHash fresh_buf env t) = 32"
  by (simp add: ComputeHash_def SerializeHash_eq)

text \<open>Merge-mining data for a tree of one chain.\<close>

definition single_aux :: "prune_env \<Rightarrow> CScript \<Rightarrow> CAuxPow" where
  "single_aux env script =
     (let t = \<lparr>nVersion = 2, vin = [\<lparr>prevout = COutPoint_null, scriptSig = script, nSequence = 0\<rparr>], vout = [], nLockTime = 0\<rparr>
      in \<lparr>m_tx = t, hashBlock = uint256_null, vMerkleBranch = [], nIndex = 0, vChainMerkleBranch = [], nChainIndex = 0,
          parentBlock = CPureBlockHeader_null\<lparr>hashMerkleRoot := ComputeHash fresh_buf env t\<rparr>\<rparr>)"

lemma GetChainId_small: "hdr_nVersion h = 0 \<or> hdr_nVersion h = 1 \<Longrightarrow> GetChainId h = 0"
  by (auto simp: GetChainId_def cdiv_def)

lemma single_aux_check:
  assumes "nChainId \<noteq> 0" and "length script \<le> MAX_SIZE"
  shows "CAuxPow_check env (single_aux env script) h nChainId = Some (check_coinbase (single_aux env script) (rev h) nChainId script)"
    and "CAuxPow_ok (single_aux env script)"
proof -
  show "CAuxPow_check env (single_aux env script) h nChainId = Some (check_coinbase (single_aux env script) (rev h) nChainId script)"
    using assms(1) by (simp add: CAuxPow_check_def single_aux_def Let_def CheckMerkleBranch_def CMerkleTx_GetHash_def
        GetChainId_small CPureBlockHeader_null_def)
  show "CAuxPow_ok (single_aux env script)"
    using assms(2) by (simp add: CAuxPow_ok_def single_aux_def Let_def CTransaction_ok_def CTxIn_ok_def COutPoint_null_def
        uint256_null_def CPureBlockHeader_null_def MAX_SIZE_def)
qed

lemma single_aux_simps [simp]: "vChainMerkleBranch (single_aux env s) = []" "nChainIndex (single_aux env s) = 0"
  "vin (m_tx (single_aux env s)) = [\<lparr>prevout = COutPoint_null, scriptSig = s, nSequence = 0\<rparr>]"
  by (simp_all add: single_aux_def Let_def)

lemma check_hashBlock:
  "CAuxPow_check env (a\<lparr>hashBlock := x\<rparr>) h nChainId = CAuxPow_check env a h nChainId"
proof -
  have "check_coinbase (a\<lparr>hashBlock := x\<rparr>) = check_coinbase a" by (intro ext) (simp add: check_coinbase_def)
  then show ?thesis by (simp add: CAuxPow_check_def CMerkleTx_GetHash_def split: list.split)
qed

theorem auxpow_no_double_use_witness:
  "CAuxPow_check no_services (single_aux no_services (pchMergedMiningHeader @ replicate 32 5 @ [1, 0, 0, 0, 9, 0, 0, 0])) (replicate 32 5) 7
     = Some True
   \<and> nChainIndex (single_aux no_services (pchMergedMiningHeader @ replicate 32 5 @ [1, 0, 0, 0, 9, 0, 0, 0]))
     = nChainIndex ((single_aux no_services (pchMergedMiningHeader @ replicate 32 5 @ [1, 0, 0, 0, 9, 0, 0, 0]))\<lparr>hashBlock := replicate 32 1\<rparr>)"
proof -
  define s where "s = pchMergedMiningHeader @ replicate 32 5 @ [1, 0, 0, 0, 9, 0, 0, 0]"
  define a where "a = single_aux no_services s"
  define b where "b = a\<lparr>hashBlock := replicate 32 1\<rparr>"
  have s: "std_search s pchMergedMiningHeader = 0" "std_search s (replicate 32 5) = 4" "length s = 44"
    "std_search (drop 1 s) pchMergedMiningHeader = 43" "ReadLE32 (take 4 (drop 36 s)) = 1"
    unfolding s_def by code_simp+
  have "check_coinbase a (rev (replicate 32 5)) 7 s"
    using s unfolding check_coinbase_def a_def by (simp add: getExpectedIndex_def Let_def pchMergedMiningHeader_def)
  then have a: "CAuxPow_check no_services a (replicate 32 5) 7 = Some True" "CAuxPow_ok a"
    using single_aux_check(1) [of 7 s no_services "replicate 32 5"] single_aux_check(2) [of 7 s no_services] s(3)
    by (simp_all add: MAX_SIZE_def a_def)
  have b: "CAuxPow_check no_services b (replicate 32 5) 7 = Some True" "CAuxPow_ok b"
    using a check_hashBlock by (simp_all add: b_def) (simp add: CAuxPow_ok_def)
  have "m_tx a = m_tx b" "std_search (scriptSig (hd (vin (m_tx a)))) pchMergedMiningHeader < length (scriptSig (hd (vin (m_tx a))))"
    using s(1,3) by (simp_all add: b_def) (simp add: a_def)
  then have "nChainIndex a = nChainIndex b" using auxpow_no_double_use [OF a(1) b(1) _ _ a(2) b(2)] by simp
  then show ?thesis using a(1) unfolding b_def a_def s_def by blast
qed

lemma BlockMerkleRoot_single: "fst (BlockMerkleRoot env [t]) = ComputeHash fresh_buf env t"
proof -
  let ?l = "[ComputeHash fresh_buf env t]"
  obtain r m b where c: "MerkleComputation ?l (2 ^ 32 - 1) = (r, m, b)" by (cases "MerkleComputation ?l (2 ^ 32 - 1)")
  have "tree_height (length ?l) 0 = 0" by (simp add: tree_height.simps CalcTreeWidth_def)
  then have "r = ComputeHash fresh_buf env t" using MerkleComputation_tree [OF _ _ c] by simp
  then show ?thesis unfolding BlockMerkleRoot_def ComputeMerkleRoot_def using c by simp
qed

lemma shifted_constant: "x # take n l = l \<Longrightarrow> l = replicate (length l) x"
proof (induction l arbitrary: n)
  case (Cons a l)
  then have "x = a" and l: "take n (a # l) = l" by simp_all
  show ?case
  proof (cases n)
    case 0
    then show ?thesis using l \<open>x = a\<close> by simp
  next
    case (Suc m)
    then have "x # take m l = l" using l \<open>x = a\<close> by simp
    from Cons.IH [OF this] show ?thesis using \<open>x = a\<close> by simp
  qed
qed simp

text \<open>
  The minimal data that \<open>initAuxPow\<close> puts on a header are accepted by \<open>check\<close> for every chain ID but that of the
  parent it makes up, unless the block hash happens to contain the merged-mining header, or to be made of the byte
  that pushes it.
\<close>

theorem initAuxPow_accepted:
  "case auxpow (initAuxPow env h) of
     None \<Rightarrow> False
   | Some a \<Rightarrow> CAuxPow_check env a (CPureBlockHeader_GetHash (initAuxPow env h)) nChainId = Some True
       \<or> nChainId = 0
       \<or> std_search (scriptSig (hd (vin (m_tx a)))) pchMergedMiningHeader < length (scriptSig (hd (vin (m_tx a))))
       \<or> CPureBlockHeader_GetHash (initAuxPow env h) = replicate 32 0x28"
proof -
  let ?h = "SetAuxpowVersion True h"
  define H where "H = CPureBlockHeader_GetHash ?h"
  define s where "s = scriptSig (hd (vin (init_coinbase H)))"
  have len: "length H = 32" by (simp add: H_def CPureBlockHeader_GetHash_def SerializeHash_eq)
  have hash: "CPureBlockHeader_GetHash (initAuxPow env h) = H"
    by (simp add: H_def initAuxPow_def SetAuxpow_def SetAuxpowVersion_def Let_def CPureBlockHeader_GetHash_def
        CPureBlockHeader_Serialize_def or.assoc)
  have zeros: "replicate 7 (0 :: byte) = [0, 0, 0, 0, 0, 0, 0]" by (simp add: numeral_eq_Suc)
  have s: "s = 0x28 # rev H @ [1, 0, 0, 0, 0, 0, 0, 0]"
    using len zeros by (simp add: s_def init_coinbase_def push_data_def Let_def)
  have ls: "length s = 41" "drop 33 s = [1, 0, 0, 0, 0, 0, 0, 0]" using s len by simp_all
  have found: "std_search s (rev H) \<le> 1" using len s by (intro std_search_first) simp_all
  obtain a where a: "auxpow (initAuxPow env h) = Some a" "m_tx a = init_coinbase H" "vMerkleBranch a = []" "nIndex a = 0"
      "vChainMerkleBranch a = []" "nChainIndex a = 0" "hdr_nVersion (parentBlock a) = 1"
      "hashMerkleRoot (parentBlock a) = fst (BlockMerkleRoot env [init_coinbase H])"
    by (simp add: H_def initAuxPow_def SetAuxpow_def SetAuxpowVersion_def Let_def)
  have "CAuxPow_check env a H nChainId = Some True"
    if n: "nChainId \<noteq> 0" and none: "\<not> std_search s pchMergedMiningHeader < length s" and other: "H \<noteq> replicate 32 0x28"
  proof -
    have "std_search s (rev H) \<noteq> 0"
    proof
      assume "std_search s (rev H) = 0"
      then have "take 32 s = rev H" using std_search_found [of s "rev H"] len ls by simp
      then have "0x28 # take 31 (rev H) = rev H" using s len by (simp add: take_Cons')
      from shifted_constant [OF this] have "rev H = replicate 32 0x28" using len by simp
      then show False using other by (simp add: rev_swap)
    qed
    then have "std_search s (rev H) = 1" using found by simp
    moreover have "std_search s pchMergedMiningHeader = length s" using none std_search_le [of s pchMergedMiningHeader] by simp
    ultimately have "check_coinbase a (rev H) nChainId s"
      using ls len a(5,6) by (simp add: check_coinbase_def Let_def getExpectedIndex_def ReadLE32_def)
    moreover have "GetChainId (parentBlock a) = 0" using a(7) by (intro GetChainId_small) simp
    moreover have "fst (BlockMerkleRoot env [init_coinbase H]) = ComputeHash fresh_buf env (init_coinbase H)" by (rule BlockMerkleRoot_single)
    ultimately show ?thesis
      using a n by (simp add: CAuxPow_check_def Let_def CheckMerkleBranch_def CMerkleTx_GetHash_def s_def init_coinbase_def)
  qed
  then show ?thesis unfolding hash a(1) using a(2) by (auto simp: s_def)
qed

text \<open>
  C35. Merge-mining data that a peer can send make the check read the first input of a transaction that has none: for every
  block hash and chain ID there are well-formed data, accepted by the reader, on which \<open>check\<close> reaches \<open>vin[0]\<close> of an empty
  vector.
\<close>

theorem CAuxPow_check_out_of_range:
  "\<exists>a. CAuxPow_check env a hashAuxBlock nChainId = None
     \<and> CAuxPow_Unserialize 1 1 (CAuxPow_Serialize no_services nType a @ r) = Inr (a, r)"
proof -
  define t where "t = \<lparr>nVersion = 2, vin = [], vout = [], nLockTime = 0\<rparr>"
  define p where "p = CPureBlockHeader_null\<lparr>hdr_nVersion := (if nChainId = 0 then 0x10000 else 0), hashMerkleRoot := ComputeHash fresh_buf env t\<rparr>"
  define a where "a = \<lparr>m_tx = t, hashBlock = uint256_null, vMerkleBranch = [], nIndex = 0, vChainMerkleBranch = [], nChainIndex = 0, parentBlock = p\<rparr>"
  have "GetChainId p \<noteq> nChainId" by (simp add: p_def GetChainId_def cdiv_def)
  then have "CAuxPow_check env a hashAuxBlock nChainId = None"
    by (simp add: CAuxPow_check_def a_def t_def p_def CheckMerkleBranch_def CMerkleTx_GetHash_def)
  moreover have "CAuxPow_ok a"
    by (simp add: CAuxPow_ok_def a_def t_def p_def CTransaction_ok_def uint256_null_def CPureBlockHeader_null_def)
  then have "CAuxPow_Unserialize 1 1 (CAuxPow_Serialize no_services nType a @ r) = Inr (a, r)"
    by (intro codec.unser_ser [OF auxpow_codec]) simp_all
  ultimately show ?thesis by blast
qed

end
