(* ===== verification/Arith_Uint256.thy ===== *)
theory Arith_Uint256
  imports Transaction
begin

text \<open>
  The big integers \<open>base_uint\<close> and \<open>arith_uint256\<close> (\<open>arith_uint256.h\<close>, \<open>arith_uint256.cpp\<close>). A number is the list of its
  32-bit limbs \<open>pn\<close>, the least significant first; its width is the length of the list. The operations are those of the
  code, limb by limb with a 64-bit carry; \<open>uval\<close> is the number that the limbs stand for.
\<close>

unbundle bit_operations_syntax

type_synonym limbs = "u32 list"

abbreviation (input) WIDTH :: nat where "WIDTH \<equiv> 8"

section \<open>Construction and bitwise operations\<close>

definition uint_zero :: limbs where
  "uint_zero = replicate WIDTH 0"

definition uint_of64 :: "u64 \<Rightarrow> limbs" where
  "uint_of64 b = [ucast b, ucast (drop_bit 32 b)] @ replicate (WIDTH - 2) 0"

definition uint_is_zero :: "limbs \<Rightarrow> bool" where
  "uint_is_zero pn = list_all (\<lambda>x. x = 0) pn"

definition uint_compl :: "limbs \<Rightarrow> limbs" where
  "uint_compl pn = map NOT pn"

definition uint_xor :: "limbs \<Rightarrow> limbs \<Rightarrow> limbs" where
  "uint_xor pn b = map2 (XOR) pn b"

definition uint_and :: "limbs \<Rightarrow> limbs \<Rightarrow> limbs" where
  "uint_and pn b = map2 (AND) pn b"

definition uint_or :: "limbs \<Rightarrow> limbs \<Rightarrow> limbs" where
  "uint_or pn b = map2 (OR) pn b"

section \<open>Sums\<close>

fun uint_inc :: "limbs \<Rightarrow> limbs" where
  "uint_inc [] = []"
| "uint_inc (x # pn) = (x + 1) # (if x + 1 = 0 then uint_inc pn else pn)"

fun uint_dec :: "limbs \<Rightarrow> limbs" where
  "uint_dec [] = []"
| "uint_dec (x # pn) = (x - 1) # (if x - 1 = - 1 then uint_dec pn else pn)"

definition uint_neg :: "limbs \<Rightarrow> limbs" where
  "uint_neg pn = uint_inc (map NOT pn)"

fun add_loop :: "u64 \<Rightarrow> limbs \<Rightarrow> limbs \<Rightarrow> limbs" where
  "add_loop carry (x # pn) (y # b) =
     (let n = carry + ucast x + ucast y
      in ucast (n AND 0xffffffff) # add_loop (drop_bit 32 n) pn b)"
| "add_loop carry _ _ = []"

definition uint_add :: "limbs \<Rightarrow> limbs \<Rightarrow> limbs" where
  "uint_add pn b = add_loop 0 pn b"

definition uint_sub :: "limbs \<Rightarrow> limbs \<Rightarrow> limbs" where
  "uint_sub pn b = uint_add pn (uint_neg b)"

section \<open>Shifts\<close>

definition shl_step :: "limbs \<Rightarrow> nat \<Rightarrow> nat \<Rightarrow> limbs \<Rightarrow> nat \<Rightarrow> limbs" where
  "shl_step a k shift pn i =
     (let pn = (if i + k + 1 < length a \<and> shift \<noteq> 0
                then pn[i + k + 1 := pn ! (i + k + 1) OR drop_bit (32 - shift) (a ! i)] else pn)
      in if i + k < length a then pn[i + k := pn ! (i + k) OR push_bit shift (a ! i)] else pn)"

definition uint_shl :: "limbs \<Rightarrow> nat \<Rightarrow> limbs" where
  "uint_shl a shift = foldl (shl_step a (shift div 32) (shift mod 32)) (replicate (length a) 0) [0..<length a]"

definition shr_step :: "limbs \<Rightarrow> nat \<Rightarrow> nat \<Rightarrow> limbs \<Rightarrow> nat \<Rightarrow> limbs" where
  "shr_step a k shift pn i =
     (let pn = (if int i - int k - 1 \<ge> 0 \<and> shift \<noteq> 0
                then pn[i - k - 1 := pn ! (i - k - 1) OR push_bit (32 - shift) (a ! i)] else pn)
      in if int i - int k \<ge> 0 then pn[i - k := pn ! (i - k) OR drop_bit shift (a ! i)] else pn)"

definition uint_shr :: "limbs \<Rightarrow> nat \<Rightarrow> limbs" where
  "uint_shr a shift = foldl (shr_step a (shift div 32) (shift mod 32)) (replicate (length a) 0) [0..<length a]"

section \<open>Products\<close>

fun mul32_loop :: "u64 \<Rightarrow> u32 \<Rightarrow> limbs \<Rightarrow> limbs" where
  "mul32_loop carry b32 [] = []"
| "mul32_loop carry b32 (x # pn) =
     (let n = carry + ucast b32 * ucast x
      in ucast (n AND 0xffffffff) # mul32_loop (drop_bit 32 n) b32 pn)"

definition uint_mul32 :: "limbs \<Rightarrow> u32 \<Rightarrow> limbs" where
  "uint_mul32 pn b32 = mul32_loop 0 b32 pn"

text \<open>One pass of the inner loop, over the limbs from \<open>j\<close> on.\<close>

fun mul_row :: "u64 \<Rightarrow> u32 \<Rightarrow> limbs \<Rightarrow> limbs \<Rightarrow> limbs" where
  "mul_row carry aj (p # pn) (y # b) =
     (let n = carry + ucast p + ucast aj * ucast y
      in ucast (n AND 0xffffffff) # mul_row (drop_bit 32 n) aj pn b)"
| "mul_row carry aj pn _ = pn"

definition mul_step :: "limbs \<Rightarrow> limbs \<Rightarrow> limbs \<Rightarrow> nat \<Rightarrow> limbs" where
  "mul_step a b pn j = take j pn @ mul_row 0 (a ! j) (drop j pn) b"

definition uint_mul :: "limbs \<Rightarrow> limbs \<Rightarrow> limbs" where
  "uint_mul a b = foldl (mul_step a b) (replicate (length a) 0) [0..<length a]"

section \<open>Comparison\<close>

text \<open>The loop starts at the most significant limb.\<close>

fun compare_loop :: "limbs \<Rightarrow> limbs \<Rightarrow> int" where
  "compare_loop (x # pn) (y # b) = (if x < y then - 1 else if x > y then 1 else compare_loop pn b)"
| "compare_loop _ _ = 0"

definition CompareTo :: "limbs \<Rightarrow> limbs \<Rightarrow> int" where
  "CompareTo pn b = compare_loop (rev pn) (rev b)"

definition EqualTo :: "limbs \<Rightarrow> u64 \<Rightarrow> bool" where
  "EqualTo pn b =
     (if list_ex (\<lambda>x. x \<noteq> 0) (drop 2 pn) then False
      else if ucast (pn ! 1) \<noteq> drop_bit 32 b then False
      else if ucast (pn ! 0) \<noteq> b AND 0xffffffff then False
      else True)"

fun top_bit :: "u32 \<Rightarrow> nat \<Rightarrow> nat" where
  "top_bit x 0 = 1"
| "top_bit x (Suc n) = (if x AND push_bit (Suc n) 1 \<noteq> 0 then Suc n + 1 else top_bit x n)"

text \<open>The limbs from the most significant on, with the number of those that follow.\<close>

fun bits_loop :: "limbs \<Rightarrow> nat" where
  "bits_loop [] = 0"
| "bits_loop (x # pn) = (if x \<noteq> 0 then 32 * length pn + top_bit x 31 else bits_loop pn)"

definition uint_bits :: "limbs \<Rightarrow> nat" where
  "uint_bits pn = bits_loop (rev pn)"

section \<open>Division\<close>

definition set_bit_at :: "limbs \<Rightarrow> nat \<Rightarrow> limbs" where
  "set_bit_at pn shift = pn[shift div 32 := pn ! (shift div 32) OR push_bit (shift mod 32) 1]"

text \<open>The argument counts the passes that are left, one more than \<open>shift\<close>.\<close>

fun div_loop :: "nat \<Rightarrow> limbs \<Rightarrow> limbs \<Rightarrow> limbs \<Rightarrow> limbs \<times> limbs" where
  "div_loop 0 num dv pn = (pn, num)"
| "div_loop (Suc shift) num dv pn =
     (let (num, pn) = (if CompareTo num dv \<ge> 0 then (uint_sub num dv, set_bit_at pn shift) else (num, pn))
      in div_loop shift num (uint_shr dv 1) pn)"

text \<open>\<open>None\<close> is the exception.\<close>

definition uint_div :: "limbs \<Rightarrow> limbs \<Rightarrow> limbs option" where
  "uint_div a b =
     (let num_bits = uint_bits a;
          div_bits = uint_bits b;
          zero = replicate (length a) 0
      in if div_bits = 0 then None
         else if div_bits > num_bits then Some zero
         else
           let shift = num_bits - div_bits
           in Some (fst (div_loop (shift + 1) a (uint_shl b shift) zero)))"

section \<open>The compact format\<close>

definition GetLow64 :: "limbs \<Rightarrow> u64" where
  "GetLow64 pn = ucast (pn ! 0) OR push_bit 32 (ucast (pn ! 1))"

definition SetCompact :: "u32 \<Rightarrow> limbs \<times> bool \<times> bool" where
  "SetCompact nCompact =
     (let nSize = unat (drop_bit 24 nCompact);
          nWord = nCompact AND 0x007fffff;
          (nWord, v) = (if nSize \<le> 3
             then let nWord = drop_bit (8 * (3 - nSize)) nWord in (nWord, uint_of64 (ucast nWord))
             else (nWord, uint_shl (uint_of64 (ucast nWord)) (8 * (nSize - 3))));
          fNegative = (nWord \<noteq> 0 \<and> nCompact AND 0x00800000 \<noteq> 0);
          fOverflow = (nWord \<noteq> 0 \<and> (nSize > 34 \<or> nWord > 0xff \<and> nSize > 33 \<or> nWord > 0xffff \<and> nSize > 32))
      in (v, fNegative, fOverflow))"

text \<open>\<open>None\<close> is a failed assertion.\<close>

definition GetCompact :: "limbs \<Rightarrow> bool \<Rightarrow> u32 option" where
  "GetCompact pn fNegative =
     (let nSize = (uint_bits pn + 7) div 8;
          nCompact = (if nSize \<le> 3 then ucast (push_bit (8 * (3 - nSize)) (GetLow64 pn))
                      else ucast (GetLow64 (uint_shr pn (8 * (nSize - 3))))) :: u32;
          (nCompact, nSize) = (if nCompact AND 0x00800000 \<noteq> 0 then (drop_bit 8 nCompact, nSize + 1) else (nCompact, nSize))
      in if nCompact AND NOT 0x007fffff \<noteq> 0 then None
         else if nSize \<ge> 256 then None
         else
           let nCompact = nCompact OR push_bit 24 (of_nat nSize)
           in Some (nCompact OR (if fNegative \<and> nCompact AND 0x007fffff \<noteq> 0 then 0x00800000 else 0)))"

definition ArithToUint256 :: "limbs \<Rightarrow> uint256" where
  "ArithToUint256 a = concat (map WriteLE32 a)"

definition UintToArith256 :: "uint256 \<Rightarrow> limbs" where
  "UintToArith256 a = map (\<lambda>x. ReadLE32 (take 4 (drop (x * 4) a))) [0..<WIDTH]"

section \<open>The number that the limbs stand for\<close>

primrec uval :: "limbs \<Rightarrow> nat" where
  "uval [] = 0"
| "uval (x # pn) = unat x + 2 ^ 32 * uval pn"

lemma unat_u32_less: "unat (x :: u32) < 4294967296"
  using unsigned_less [of x, where ?'a = nat] by simp

lemma uval_less: "uval pn < 2 ^ (32 * length pn)"
proof (induction pn)
  case (Cons x pn)
  have "2 ^ 32 * uval pn + 2 ^ 32 \<le> 2 ^ 32 * 2 ^ (32 * length pn)"
    using mult_le_mono2 [of "uval pn + 1" "2 ^ (32 * length pn)" "2 ^ 32"] Cons by simp
  then show ?case using unat_u32_less [of x] by (simp add: power_add)
qed simp

lemma uval_append: "uval (a @ b) = uval a + 2 ^ (32 * length a) * uval b"
  by (induction a) (simp_all add: power_add algebra_simps)

lemma uval_replicate_0 [simp]: "uval (replicate n 0) = 0"
  by (induction n) simp_all

lemma limb_mod_div:
  "(unat (x :: u32) + 2 ^ 32 * v) mod 2 ^ 32 = unat x" "(unat x + 2 ^ 32 * v) div 2 ^ 32 = v"
  using unat_u32_less [of x] by (simp_all)

lemma uval_inj: "length a = length b \<Longrightarrow> uval a = uval b \<Longrightarrow> a = b"
proof (induction a b rule: list_induct2)
  case (Cons x a y b)
  then have "unat x = unat y" "uval a = uval b" using limb_mod_div [of x "uval a"] limb_mod_div [of y "uval b"] by simp_all
  then show ?case using Cons.IH by (simp add: unsigned_word_eqI)
qed simp

lemma bit_uval: "bit (uval pn) n \<longleftrightarrow> n div 32 < length pn \<and> bit (pn ! (n div 32)) (n mod 32)"
proof (induction pn arbitrary: n)
  case (Cons x pn)
  show ?case
  proof (cases "n < 32")
    case True
    have "bit (unat x + 2 ^ 32 * uval pn) n \<longleftrightarrow> bit (take_bit 32 (unat x + 2 ^ 32 * uval pn)) n"
      using True by (simp add: bit_take_bit_iff)
    also have "take_bit 32 (unat x + 2 ^ 32 * uval pn) = unat x"
      by (simp only: take_bit_eq_mod limb_mod_div)
    finally show ?thesis using True by (simp add: bit_unsigned_iff)
  next
    case False
    then have n: "n = 32 + (n - 32)" by simp
    have "bit (unat x + 2 ^ 32 * uval pn) n \<longleftrightarrow> bit (drop_bit 32 (unat x + 2 ^ 32 * uval pn)) (n - 32)"
      using n by (metis bit_drop_bit_eq comp_apply)
    also have "drop_bit 32 (unat x + 2 ^ 32 * uval pn) = uval pn"
      by (simp only: drop_bit_eq_div limb_mod_div)
    finally have b: "bit (uval (x # pn)) n \<longleftrightarrow> bit (uval pn) (n - 32)" by simp
    have "n div 32 = Suc ((n - 32) div 32)" "n mod 32 = (n - 32) mod 32" using False
      by (simp_all add: le_div_geq le_mod_geq)
    then show ?thesis using b Cons [of "n - 32"] by simp
  qed
qed simp

lemma limb_step:
  "unat (ucast ((n :: u64) AND 0xffffffff) :: u32) = unat n mod 2 ^ 32" "unat (drop_bit 32 n) = unat n div 2 ^ 32"
proof -
  have "(0xffffffff :: u64) = mask 32" by (simp add: mask_eq_exp_minus_1)
  then have "n AND 0xffffffff = take_bit 32 n" by (simp add: take_bit_eq_mask)
  then show "unat (ucast (n AND 0xffffffff) :: u32) = unat n mod 2 ^ 32"
    by (simp add: unsigned_ucast_eq unsigned_take_bit_eq take_bit_eq_mod unat_mod)
  show "unat (drop_bit 32 n) = unat n div 2 ^ 32" by (simp add: drop_bit_eq_div unat_div)
qed

lemma carry_split: "(n :: nat) mod 2 ^ 32 + 2 ^ 32 * ((n div 2 ^ 32 + v) mod M) = (n + 2 ^ 32 * v) mod (2 ^ 32 * M)"
proof -
  have "(n + 2 ^ 32 * v) mod (2 ^ 32 * M) = 2 ^ 32 * ((n + 2 ^ 32 * v) div 2 ^ 32 mod M) + (n + 2 ^ 32 * v) mod 2 ^ 32"
    by (rule mod_mult2_eq)
  then show ?thesis by (simp add: add.commute)
qed

section \<open>Sums\<close>

lemma length_add_loop: "length a = length b \<Longrightarrow> length (add_loop c a b) = length a"
  by (induction a b arbitrary: c rule: list_induct2) (simp_all add: Let_def)

lemma unat_add3: "unat (c :: u64) \<le> 1 \<Longrightarrow> unat (c + ucast (x :: u32) + ucast (y :: u32)) = unat c + unat x + unat y"
  using unat_u32_less [of x] unat_u32_less [of y] by (simp add: unat_word_ariths unsigned_ucast_eq take_bit_eq_mod)

lemma uval_add_loop:
  "length a = length b \<Longrightarrow> unat c \<le> 1 \<Longrightarrow> uval (add_loop c a b) = (unat c + uval a + uval b) mod 2 ^ (32 * length a)"
proof (induction a b arbitrary: c rule: list_induct2)
  case (Cons x a y b)
  define n where "n = c + ucast x + ucast y"
  have n: "unat n = unat c + unat x + unat y" unfolding n_def using Cons.prems by (rule unat_add3)
  then have "unat (drop_bit 32 n) \<le> 1"
    using Cons.prems unat_u32_less [of x] unat_u32_less [of y] by (simp add: limb_step)
  from Cons.IH [OF this] have "uval (add_loop c (x # a) (y # b)) =
      unat n mod 2 ^ 32 + 2 ^ 32 * ((unat n div 2 ^ 32 + (uval a + uval b)) mod 2 ^ (32 * length a))"
    by (simp add: n_def [symmetric] Let_def limb_step) (simp add: add.assoc)
  also have "\<dots> = (unat n + 2 ^ 32 * (uval a + uval b)) mod (2 ^ 32 * 2 ^ (32 * length a))" by (rule carry_split)
  finally show ?case by (simp add: n power_add algebra_simps)
qed simp

lemma length_uint_inc [simp]: "length (uint_inc a) = length a"
  by (induction a) simp_all

lemma unat_inc: "unat (x + 1 :: u32) = (unat x + 1) mod 2 ^ 32"
  by (simp add: unat_word_ariths)

lemma uval_inc: "uval (uint_inc a) = (uval a + 1) mod 2 ^ (32 * length a)"
proof (induction a)
  case (Cons x a)
  show ?case
  proof (cases "x + 1 = 0")
    case True
    then have "unat (x + 1) = 0" by simp
    then have "unat x + 1 = 2 ^ 32" using unat_inc [of x] unat_u32_less [of x] by (auto simp: mod_Suc split: if_splits)
    then have "(uval (x # a) + 1) = 0 + 2 ^ 32 * (1 + uval a)" by simp
    then show ?thesis using True Cons carry_split [of 0 "1 + uval a" "2 ^ (32 * length a)"] by (simp add: power_add add.commute)
  next
    case False
    then have "(unat x + 1) mod 2 ^ 32 \<noteq> 0" using unat_inc [of x] by (metis unat_eq_zero)
    then have "unat x + 1 < 2 ^ 32" using unat_u32_less [of x] by (auto simp: mod_Suc split: if_splits)
    then have "unat (x + 1) = unat x + 1" using unat_inc [of x] by simp
    moreover have "uval ((x + 1) # a) < 2 ^ (32 * length (x # a))" using uval_less [of "(x + 1) # a"] by simp
    ultimately show ?thesis using False by simp
  qed
qed simp

lemma uval_compl: "uval (map NOT a) + uval a + 1 = 2 ^ (32 * length a)"
proof (induction a)
  case (Cons x a)
  have "NOT x = - 1 - x" by (simp add: not_eq_complement)
  then have "unat (NOT x) + unat x + 1 = 2 ^ 32"
    using unat_u32_less [of x] unat_sub [of x "- 1"] by (simp add: unsigned_minus_1_eq_mask mask_eq_exp_minus_1)
  then show ?case using Cons by (simp add: power_add algebra_simps)
qed simp

lemma uval_neg: "uval (uint_neg a) = (2 ^ (32 * length a) - uval a) mod 2 ^ (32 * length a)"
proof -
  have "uval (map NOT a) + 1 = 2 ^ (32 * length a) - uval a" using uval_compl [of a] by linarith
  then show ?thesis using uval_inc [of "map NOT a"] by (simp add: uint_neg_def)
qed

lemma length_uint_add [simp]: "length a = length b \<Longrightarrow> length (uint_add a b) = length a"
  by (simp add: uint_add_def length_add_loop)

lemma length_uint_neg [simp]: "length (uint_neg a) = length a"
  by (simp add: uint_neg_def)

lemma uval_add: "length a = length b \<Longrightarrow> uval (uint_add a b) = (uval a + uval b) mod 2 ^ (32 * length a)"
  using uval_add_loop [of a b 0] by (simp add: uint_add_def)

lemma uval_sub: "length a = length b \<Longrightarrow> uval (uint_sub a b) = (uval a + (2 ^ (32 * length a) - uval b)) mod 2 ^ (32 * length a)"
  by (simp add: uint_sub_def uval_add uval_neg mod_add_right_eq)

lemma length_uint_sub [simp]: "length a = length b \<Longrightarrow> length (uint_sub a b) = length a"
  by (simp add: uint_sub_def)

lemma uval_sub_le: "length a = length b \<Longrightarrow> uval b \<le> uval a \<Longrightarrow> uval (uint_sub a b) = uval a - uval b"
proof -
  assume l: "length a = length b" and le: "uval b \<le> uval a"
  have "uval a + (2 ^ (32 * length a) - uval b) = (uval a - uval b) + 2 ^ (32 * length a)"
    using uval_less [of b] le by (simp add: l)
  then have "uval (uint_sub a b) = (uval a - uval b) mod 2 ^ (32 * length a)" unfolding uval_sub [OF l] by (simp only: mod_add_self2)
  then show ?thesis using uval_less [of a] by simp
qed

section \<open>Shifts\<close>

lemma length_shl_step [simp]: "length (shl_step a k s pn i) = length pn"
  by (simp add: shl_step_def Let_def)

lemma length_shr_step [simp]: "length (shr_step a k s pn i) = length pn"
  by (simp add: shr_step_def Let_def)

lemma length_foldl_step: "(\<And>pn i. length (f pn i) = length pn) \<Longrightarrow> length (foldl f pn is) = length pn"
  by (induction "is" arbitrary: pn) simp_all

text \<open>The limbs after the first \<open>j\<close> passes.\<close>

lemma shl_limbs:
  assumes "j \<le> length a" and "m < length a"
  shows "foldl (shl_step a k s) (replicate (length a) 0) [0..<j] ! m =
    (if k \<le> m \<and> m - k < j then push_bit s (a ! (m - k)) else 0)
    OR (if s \<noteq> 0 \<and> k + 1 \<le> m \<and> m - k - 1 < j then drop_bit (32 - s) (a ! (m - k - 1)) else 0)"
  using assms(1)
proof (induction j)
  case 0
  then show ?case using assms(2) by simp
next
  case (Suc j)
  define pn where "pn = foldl (shl_step a k s) (replicate (length a) 0) [0..<j]"
  have step: "foldl (shl_step a k s) (replicate (length a) 0) [0..<Suc j] = shl_step a k s pn j" by (simp add: pn_def)
  have len: "length pn = length a" by (simp add: pn_def length_foldl_step)
  have IH: "pn ! m = (if k \<le> m \<and> m - k < j then push_bit s (a ! (m - k)) else 0)
    OR (if s \<noteq> 0 \<and> k + 1 \<le> m \<and> m - k - 1 < j then drop_bit (32 - s) (a ! (m - k - 1)) else 0)"
    using Suc by (simp add: pn_def)
  consider "m = j + k + 1" | "m = j + k" | "m \<noteq> j + k + 1" "m \<noteq> j + k" by blast
  then show ?case
  proof cases
    case 1
    then show ?thesis using IH len assms(2) unfolding step by (auto simp: shl_step_def Let_def nth_list_update)
  next
    case 2
    then show ?thesis using IH len assms(2) unfolding step by (auto simp: shl_step_def Let_def nth_list_update or.commute)
  next
    case 3
    then have "shl_step a k s pn j ! m = pn ! m" by (auto simp: shl_step_def Let_def)
    moreover have "m - k < Suc j \<longleftrightarrow> m - k < j" if "k \<le> m" using that 3 by auto
    moreover have "m - k - 1 < Suc j \<longleftrightarrow> m - k - 1 < j" if "k + 1 \<le> m" using that 3 by auto
    ultimately show ?thesis using IH unfolding step by auto
  qed
qed

lemma shr_limbs:
  assumes "j \<le> length a" and "m < length a"
  shows "foldl (shr_step a k s) (replicate (length a) 0) [0..<j] ! m =
    (if m + k < j then drop_bit s (a ! (m + k)) else 0)
    OR (if s \<noteq> 0 \<and> m + k + 1 < j then push_bit (32 - s) (a ! (m + k + 1)) else 0)"
  using assms(1)
proof (induction j)
  case 0
  then show ?case using assms(2) by simp
next
  case (Suc j)
  define pn where "pn = foldl (shr_step a k s) (replicate (length a) 0) [0..<j]"
  have step: "foldl (shr_step a k s) (replicate (length a) 0) [0..<Suc j] = shr_step a k s pn j" by (simp add: pn_def)
  have len: "length pn = length a" by (simp add: pn_def length_foldl_step)
  have IH: "pn ! m = (if m + k < j then drop_bit s (a ! (m + k)) else 0)
    OR (if s \<noteq> 0 \<and> m + k + 1 < j then push_bit (32 - s) (a ! (m + k + 1)) else 0)"
    using Suc by (simp add: pn_def)
  consider "j = m + k + 1" | "j = m + k" | "j \<noteq> m + k + 1" "j \<noteq> m + k" by blast
  then show ?case
  proof cases
    case 1
    then show ?thesis using IH len assms(2) unfolding step by (auto simp: shr_step_def Let_def nth_list_update)
  next
    case 2
    then show ?thesis using IH len assms(2) unfolding step by (auto simp: shr_step_def Let_def nth_list_update)
  next
    case 3
    then have "shr_step a k s pn j ! m = pn ! m" by (auto simp: shr_step_def Let_def nth_list_update)
    then show ?thesis using IH 3 unfolding step by (auto simp: less_Suc_eq)
  qed
qed

lemma length_uint_shl [simp]: "length (uint_shl a n) = length a"
  by (simp add: uint_shl_def length_foldl_step)

lemma length_uint_shr [simp]: "length (uint_shr a n) = length a"
  by (simp add: uint_shr_def length_foldl_step)

lemma bit_u32_less: "bit (x :: u32) n \<Longrightarrow> n < 32"
  using bit_imp_le_length [of x n] by simp

lemma div_mod32: "x = r + 32 * q \<Longrightarrow> r < 32 \<Longrightarrow> x div 32 = q \<and> x mod 32 = (r :: nat)"
  by simp

lemma sub_div_mod32:
  fixes m k r s :: nat
  assumes "r < 32" and "s < 32"
  shows "s \<le> r \<Longrightarrow> k \<le> m \<Longrightarrow> (32 * m + r - (32 * k + s)) div 32 = m - k \<and> (32 * m + r - (32 * k + s)) mod 32 = r - s"
    and "r < s \<Longrightarrow> k + 1 \<le> m \<Longrightarrow> (32 * m + r - (32 * k + s)) div 32 = m - k - 1 \<and> (32 * m + r - (32 * k + s)) mod 32 = r + 32 - s"
  by (rule div_mod32; use assms in simp)+

lemma uval_shl: "uval (uint_shl a n) = (uval a * 2 ^ n) mod 2 ^ (32 * length a)"
proof -
  have "uval (uint_shl a n) = take_bit (32 * length a) (push_bit n (uval a))"
  proof (rule bit_eqI)
    fix i :: nat
    define m r k s where d: "m = i div 32" "r = i mod 32" "k = n div 32" "s = n mod 32"
    have i: "i = 32 * m + r" and n: "n = 32 * k + s" and r: "r < 32" and s: "s < 32" by (simp_all add: d)
    have range: "i < 32 * length a \<longleftrightarrow> m < length a" using r unfolding i by auto
    have "bit (uval (uint_shl a n)) i \<longleftrightarrow> m < length a \<and> bit (uint_shl a n ! m) r"
      by (simp add: bit_uval d)
    also have "\<dots> \<longleftrightarrow> m < length a \<and> (k \<le> m \<and> s \<le> r \<and> bit (a ! (m - k)) (r - s)
        \<or> s \<noteq> 0 \<and> k + 1 \<le> m \<and> bit (a ! (m - k - 1)) (r + 32 - s))"
      using shl_limbs [of "length a" a m k s] r s
      by (auto simp: uint_shl_def d [symmetric] bit_or_iff bit_push_bit_iff bit_drop_bit_eq add.commute split: if_splits)
    also have "\<dots> \<longleftrightarrow> m < length a \<and> n \<le> i \<and> bit (uval a) (i - n)"
    proof (cases "s \<le> r")
      case True
      then have "n \<le> i \<longleftrightarrow> k \<le> m" using r s unfolding i n by auto
      moreover have "\<not> bit (a ! (m - k - 1)) (r + 32 - s)" using True bit_u32_less by fastforce
      ultimately show ?thesis using True sub_div_mod32(1) [OF r s True, of k m] unfolding bit_uval by (auto simp: i n)
    next
      case False
      then have "n \<le> i \<longleftrightarrow> k + 1 \<le> m" using r s unfolding i n by auto
      then show ?thesis using False sub_div_mod32(2) [OF r s, of k m] unfolding bit_uval by (auto simp: i n)
    qed
    also have "\<dots> \<longleftrightarrow> bit (take_bit (32 * length a) (push_bit n (uval a))) i"
      using range by (simp add: bit_take_bit_iff bit_push_bit_iff)
    finally show "bit (uval (uint_shl a n)) i \<longleftrightarrow> bit (take_bit (32 * length a) (push_bit n (uval a))) i" .
  qed
  then show ?thesis by (simp add: take_bit_eq_mod push_bit_eq_mult)
qed

lemma add_div_mod32:
  fixes m k r s :: nat
  assumes "r < 32" and "s < 32"
  shows "r + s < 32 \<Longrightarrow> (32 * k + s + (32 * m + r)) div 32 = m + k \<and> (32 * k + s + (32 * m + r)) mod 32 = r + s"
    and "32 \<le> r + s \<Longrightarrow> (32 * k + s + (32 * m + r)) div 32 = m + k + 1 \<and> (32 * k + s + (32 * m + r)) mod 32 = r + s - 32"
  by (rule div_mod32; use assms in simp)+

lemma uval_shr: "uval (uint_shr a n) = uval a div 2 ^ n"
proof -
  have "uval (uint_shr a n) = drop_bit n (uval a)"
  proof (rule bit_eqI)
    fix i :: nat
    define m r k s where d: "m = i div 32" "r = i mod 32" "k = n div 32" "s = n mod 32"
    have i: "i = 32 * m + r" and n: "n = 32 * k + s" and r: "r < 32" and s: "s < 32" by (simp_all add: d)
    have "bit (uval (uint_shr a n)) i \<longleftrightarrow> m < length a \<and> bit (uint_shr a n ! m) r"
      by (simp add: bit_uval d)
    also have "\<dots> \<longleftrightarrow> m + k < length a \<and> bit (a ! (m + k)) (s + r)
        \<or> s \<noteq> 0 \<and> m + k + 1 < length a \<and> 32 - s \<le> r \<and> bit (a ! (m + k + 1)) (r - (32 - s))"
      using shr_limbs [of "length a" a m k s] r s
      by (auto simp: uint_shr_def d [symmetric] bit_or_iff bit_push_bit_iff bit_drop_bit_eq split: if_splits)
    also have "\<dots> \<longleftrightarrow> bit (uval a) (n + i)"
    proof (cases "r + s < 32")
      case True
      then show ?thesis using add_div_mod32(1) [OF r s True, of k m] unfolding bit_uval by (auto simp: i n add.commute)
    next
      case False
      then have "\<not> bit (a ! (m + k)) (s + r)" using bit_u32_less by fastforce
      moreover have "r - (32 - s) = r + s - 32" "32 - s \<le> r" "s \<noteq> 0" using False r s by auto
      ultimately show ?thesis using False add_div_mod32(2) [OF r s, of k m] unfolding bit_uval by (auto simp: i n)
    qed
    also have "\<dots> \<longleftrightarrow> bit (drop_bit n (uval a)) i" by (simp add: bit_drop_bit_eq)
    finally show "bit (uval (uint_shr a n)) i \<longleftrightarrow> bit (drop_bit n (uval a)) i" .
  qed
  then show ?thesis by (simp add: drop_bit_eq_div)
qed

section \<open>Products\<close>

lemma unat_u32_mult: "unat (ucast (x :: u32) * ucast (y :: u32) :: u64) = unat x * unat y"
proof -
  have "unat x * unat y \<le> 4294967295 * 4294967295"
    using unat_u32_less [of x] unat_u32_less [of y] by (intro mult_le_mono) simp_all
  then show ?thesis
    using unat_u32_less [of x] unat_u32_less [of y] by (simp add: unat_word_ariths unsigned_ucast_eq take_bit_eq_mod)
qed

lemma unat_mul_add:
  assumes "unat (c :: u64) \<le> 4294967295"
  shows "unat (c + ucast (p :: u32) + ucast (x :: u32) * ucast (y :: u32)) = unat c + unat p + unat x * unat y"
    and "unat c + unat p + unat x * unat y < 2 ^ 64"
proof -
  have m: "unat x * unat y \<le> 4294967295 * 4294967295"
    using unat_u32_less [of x] unat_u32_less [of y] by (intro mult_le_mono) simp_all
  have p: "unat (ucast p :: u64) = unat p" using unat_u32_less [of p] by (simp add: unsigned_ucast_eq take_bit_eq_mod)
  show b: "unat c + unat p + unat x * unat y < 2 ^ 64" using m assms unat_u32_less [of p] by simp
  show "unat (c + ucast p + ucast x * ucast y) = unat c + unat p + unat x * unat y"
    unfolding unat_word_ariths(1) [of "c + ucast p"] unat_word_ariths(1) [of c] unat_u32_mult p
    using b by (simp add: mod_add_left_eq)
qed

lemma carry_bound: "n < 2 ^ 64 \<Longrightarrow> n div 2 ^ 32 \<le> (4294967295 :: nat)"
  using div_le_mono [of n "2 ^ 64 - 1" "2 ^ 32"] by simp

lemma length_mul_row [simp]: "length (mul_row c x pn b) = length pn"
  by (induction c x pn b rule: mul_row.induct) (simp_all add: Let_def)

lemma uval_mul_row:
  assumes "length pn \<le> length b" and "unat c \<le> 4294967295"
  shows "uval (mul_row c x pn b) = (unat c + uval pn + unat x * uval b) mod 2 ^ (32 * length pn)"
  using assms
proof (induction c x pn b rule: mul_row.induct)
  case (1 c x p pn y b)
  define n where "n = c + ucast p + ucast x * ucast y"
  have n: "unat n = unat c + unat p + unat x * unat y" "unat n < 2 ^ 64"
    using unat_mul_add [OF 1(3), of p x y] by (simp_all add: n_def)
  then have "unat (drop_bit 32 n) \<le> 4294967295" using carry_bound by (simp add: limb_step)
  then have "uval (mul_row (drop_bit 32 n) x pn b) = (unat n div 2 ^ 32 + (uval pn + unat x * uval b)) mod 2 ^ (32 * length pn)"
    using 1(1) [OF n_def] 1(2) by (simp add: limb_step add.assoc)
  then have "uval (mul_row c x (p # pn) (y # b)) =
      unat n mod 2 ^ 32 + 2 ^ 32 * ((unat n div 2 ^ 32 + (uval pn + unat x * uval b)) mod 2 ^ (32 * length pn))"
    by (simp add: n_def [symmetric] Let_def limb_step)
  also have "\<dots> = (unat n + 2 ^ 32 * (uval pn + unat x * uval b)) mod (2 ^ 32 * 2 ^ (32 * length pn))" by (rule carry_split)
  finally show ?case by (simp add: n power_add algebra_simps)
qed simp_all

lemma take_uval: "j < length a \<Longrightarrow> uval (take (Suc j) a) = uval (take j a) + 2 ^ (32 * j) * unat (a ! j)"
  by (simp add: take_Suc_conv_app_nth uval_append)

lemma length_mul_step [simp]: "j \<le> length pn \<Longrightarrow> length (mul_step a b pn j) = length pn"
  by (simp add: mul_step_def)

lemma uval_mul_step:
  assumes "length pn = length a" and "length b = length a" and "j < length a"
  shows "uval (mul_step a b pn j) = (uval pn + 2 ^ (32 * j) * unat (a ! j) * uval b) mod 2 ^ (32 * length a)"
proof -
  have "uval (mul_step a b pn j) = uval (take j pn) + 2 ^ (32 * j) * ((uval (drop j pn) + unat (a ! j) * uval b) mod 2 ^ (32 * (length a - j)))"
    using assms uval_mul_row [of "drop j pn" b 0 "a ! j"] by (simp add: mul_step_def uval_append)
  also have "2 ^ (32 * j) * ((uval (drop j pn) + unat (a ! j) * uval b) mod 2 ^ (32 * (length a - j)))
      = (2 ^ (32 * j) * (uval (drop j pn) + unat (a ! j) * uval b)) mod 2 ^ (32 * length a)"
    using assms(3) by (simp add: mult_mod_right power_add [symmetric] flip: distrib_left)
  also have "uval (take j pn) + \<dots> = (uval (take j pn) + 2 ^ (32 * j) * (uval (drop j pn) + unat (a ! j) * uval b)) mod 2 ^ (32 * length a)"
  proof -
    define K where "K = (2 :: nat) ^ (32 * j)"
    have "uval (take j pn) < K" using uval_less [of "take j pn"] assms by (simp add: K_def)
    moreover have M: "2 ^ (32 * length a) = K * 2 ^ (32 * (length a - j))"
      using assms(3) by (simp add: K_def power_add [symmetric] flip: distrib_left)
    ultimately show ?thesis unfolding K_def [symmetric] M by (simp add: mod_mult2_eq)
  qed
  also have "uval (take j pn) + 2 ^ (32 * j) * (uval (drop j pn) + unat (a ! j) * uval b) = uval pn + 2 ^ (32 * j) * unat (a ! j) * uval b"
    using uval_append [of "take j pn" "drop j pn"] assms by (simp add: algebra_simps)
  finally show ?thesis .
qed

lemma uval_mul:
  assumes "length b = length a"
  shows "uval (uint_mul a b) = (uval a * uval b) mod 2 ^ (32 * length a)" "length (uint_mul a b) = length a"
proof -
  have "length (foldl (mul_step a b) (replicate (length a) 0) [0..<j]) = length a
    \<and> uval (foldl (mul_step a b) (replicate (length a) 0) [0..<j]) = (uval (take j a) * uval b) mod 2 ^ (32 * length a)"
    if "j \<le> length a" for j
    using that
  proof (induction j)
    case (Suc j)
    then show ?case
      using uval_mul_step [of "foldl (mul_step a b) (replicate (length a) 0) [0..<j]" a b j] assms take_uval [of j a]
      by (simp add: mod_add_left_eq mod_add_right_eq algebra_simps)
  qed simp
  from this [of "length a"] show "uval (uint_mul a b) = (uval a * uval b) mod 2 ^ (32 * length a)" "length (uint_mul a b) = length a"
    by (simp_all add: uint_mul_def)
qed

lemma uval_mul32_loop:
  "unat c \<le> 4294967295 \<Longrightarrow> uval (mul32_loop c b pn) = (unat c + unat b * uval pn) mod 2 ^ (32 * length pn) \<and> length (mul32_loop c b pn) = length pn"
proof (induction pn arbitrary: c)
  case (Cons x pn)
  define n where "n = c + ucast b * ucast x"
  have n: "unat n = unat c + unat b * unat x" "unat n < 2 ^ 64"
    using unat_mul_add [OF Cons(2), of 0 b x] by (simp_all add: n_def)
  then have "unat (drop_bit 32 n) \<le> 4294967295" using carry_bound by (simp add: limb_step)
  from Cons.IH [OF this] have "uval (mul32_loop c b (x # pn)) =
      unat n mod 2 ^ 32 + 2 ^ 32 * ((unat n div 2 ^ 32 + unat b * uval pn) mod 2 ^ (32 * length pn))"
    and "length (mul32_loop c b (x # pn)) = Suc (length pn)"
    by (simp_all add: n_def [symmetric] Let_def limb_step)
  then show ?case using carry_split [of "unat n" "unat b * uval pn" "2 ^ (32 * length pn)"] by (simp add: n power_add algebra_simps)
qed simp

lemma uval_mul32: "uval (uint_mul32 pn b) = (uval pn * unat b) mod 2 ^ (32 * length pn)" "length (uint_mul32 pn b) = length pn"
  using uval_mul32_loop [of 0 b pn] by (simp_all add: uint_mul32_def mult.commute)

section \<open>Comparison\<close>

lemma uval_rev_Cons: "uval (rev (x # xs)) = uval (rev xs) + 2 ^ (32 * length xs) * unat x"
  by (simp add: uval_append)

lemma uval_rev_less:
  assumes "length xs = length ys" and "x < y"
  shows "uval (rev (x # xs)) < uval (rev (y # ys))"
proof -
  define M where "M = (2 :: nat) ^ (32 * length ys)"
  have "unat x + 1 \<le> unat y" using assms(2) by (simp add: word_less_nat_alt)
  then have "M * (unat x + 1) \<le> M * unat y" by (rule mult_le_mono2)
  then have "M * unat x + M \<le> M * unat y" by simp
  then show ?thesis
    using uval_less [of "rev xs"] unfolding uval_rev_Cons assms(1) M_def [symmetric] by (simp add: assms(1) M_def [symmetric])
qed

lemma compare_loop_sgn:
  "length xs = length ys \<Longrightarrow> compare_loop xs ys = sgn (int (uval (rev xs)) - int (uval (rev ys)))"
proof (induction xs ys rule: list_induct2)
  case (Cons x xs y ys)
  consider "x < y" | "y < x" | "x = y" by (rule linorder_cases)
  then show ?case
  proof cases
    case 1
    then show ?thesis using uval_rev_less [OF Cons.hyps 1] by (simp del: rev.simps)
  next
    case 2
    then show ?thesis using uval_rev_less [OF Cons.hyps [symmetric] 2] by (simp del: rev.simps)
  next
    case 3
    then show ?thesis using Cons by (simp add: uval_append)
  qed
qed simp

lemma CompareTo_sgn: "length a = length b \<Longrightarrow> CompareTo a b = sgn (int (uval a) - int (uval b))"
  by (simp add: CompareTo_def compare_loop_sgn)

lemma CompareTo_ge: "length a = length b \<Longrightarrow> 0 \<le> CompareTo a b \<longleftrightarrow> uval b \<le> uval a"
  by (simp add: CompareTo_sgn sgn_if)

lemma CompareTo_gt: "length a = length b \<Longrightarrow> 0 < CompareTo a b \<longleftrightarrow> uval b < uval a"
  by (simp add: CompareTo_sgn sgn_if)

lemma uval_0_iff: "uval a = 0 \<longleftrightarrow> list_all (\<lambda>x. x = 0) a"
  by (induction a) (auto simp: unat_eq_zero)

lemma EqualTo_iff:
  assumes "2 \<le> length a"
  shows "EqualTo a b \<longleftrightarrow> uval a = unat b"
proof -
  obtain x y r where a: "a = x # y # r" using assms by (cases a; cases "tl a") auto
  have lo: "unat (b AND 0xffffffff) = unat b mod 2 ^ 32"
  proof -
    have "(0xffffffff :: u64) = mask 32" by (simp add: mask_eq_exp_minus_1)
    then have "b AND 0xffffffff = take_bit 32 b" by (simp add: take_bit_eq_mask)
    then show ?thesis by (simp add: take_bit_eq_mod unat_mod)
  qed
  have up: "unat (ucast z :: u64) = unat z" for z :: u32
    using unat_u32_less [of z] by (simp add: unsigned_ucast_eq take_bit_eq_mod)
  have b: "unat b < 2 ^ 64" using unsigned_less [of b, where ?'a = nat] by simp
  have "EqualTo a b \<longleftrightarrow> uval r = 0 \<and> unat y = unat b div 2 ^ 32 \<and> unat x = unat b mod 2 ^ 32"
  proof -
    have "ucast y = drop_bit 32 b \<longleftrightarrow> unat y = unat b div 2 ^ 32"
      by (subst word_unat_eq_iff) (simp add: up limb_step)
    moreover have "ucast x = b AND 0xffffffff \<longleftrightarrow> unat x = unat b mod 2 ^ 32"
      unfolding lo [symmetric] up [symmetric] by (rule word_unat_eq_iff)
    ultimately show ?thesis by (auto simp: EqualTo_def a uval_0_iff list_ex_iff list_all_iff)
  qed
  also have "\<dots> \<longleftrightarrow> uval a = unat b"
  proof
    assume "uval r = 0 \<and> unat y = unat b div 2 ^ 32 \<and> unat x = unat b mod 2 ^ 32"
    then show "uval a = unat b" by (simp add: a)
  next
    assume e: "uval a = unat b"
    have "unat x = uval a mod 2 ^ 32" "uval a div 2 ^ 32 = unat y + 2 ^ 32 * uval r"
      using limb_mod_div [of x "uval (y # r)"] by (simp_all add: a)
    moreover have "unat b div 2 ^ 32 < 2 ^ 32" using b by (simp add: div_less_iff_less_mult)
    ultimately show "uval r = 0 \<and> unat y = unat b div 2 ^ 32 \<and> unat x = unat b mod 2 ^ 32"
      using e by auto
  qed
  finally show ?thesis .
qed

section \<open>The position of the highest bit\<close>

lemma and_push_bit_1: "x AND push_bit k 1 \<noteq> (0 :: u32) \<longleftrightarrow> bit x k"
proof (cases "k < 32")
  case True
  then show ?thesis by (metis and_exp_eq_0_iff_not_bit push_bit_of_1)
next
  case False
  then have z: "(2 :: u32) ^ k = 0" by (simp add: exp_eq_zero_iff)
  have "x AND push_bit k 1 = 0" unfolding push_bit_of_1 z by simp
  then show ?thesis using False bit_u32_less [of x k] by (simp only:) auto
qed

lemma top_bit_bounds:
  "x \<noteq> 0 \<Longrightarrow> unat x < 2 ^ Suc n \<Longrightarrow> 1 \<le> top_bit x n \<and> top_bit x n \<le> Suc n \<and> 2 ^ (top_bit x n - 1) \<le> unat x \<and> unat x < 2 ^ top_bit x n"
proof (induction n)
  case 0
  then have "0 < unat x" by (simp add: unat_gt_0)
  then show ?case using 0 by simp
next
  case (Suc n)
  define d where "d = unat x div 2 ^ Suc n"
  have "d < 2" using Suc.prems(2) by (simp add: d_def div_less_iff_less_mult)
  moreover have "bit x (Suc n) \<longleftrightarrow> odd d" using bit_unsigned_iff [of x "Suc n", where ?'a = nat] bit_u32_less [of x "Suc n"]
    by (auto simp: d_def bit_iff_odd [of "unat x"])
  ultimately have b: "bit x (Suc n) \<longleftrightarrow> d = 1" by (auto simp: less_2_cases_iff)
  show ?case
  proof (cases "bit x (Suc n)")
    case True
    then have "2 ^ Suc n \<le> unat x" using b d_def by (metis div_less less_nat_zero_code linorder_not_less zero_neq_one)
    then show ?thesis using True Suc.prems(2) and_push_bit_1 [of x "Suc n"] by simp
  next
    case False
    then have "unat x < 2 ^ Suc n" using b \<open>d < 2\<close> by (auto simp: d_def less_2_cases_iff div_eq_0_iff)
    then show ?thesis using Suc False and_push_bit_1 [of x "Suc n"] by auto
  qed
qed

lemma bits_loop_bounds:
  "uval (rev xs) < 2 ^ bits_loop xs \<and> (bits_loop xs = 0 \<or> 2 ^ (bits_loop xs - 1) \<le> uval (rev xs)) \<and> bits_loop xs \<le> 32 * length xs"
proof (induction xs)
  case (Cons x xs)
  show ?case
  proof (cases "x = 0")
    case True
    then show ?thesis using Cons by (simp add: uval_append)
  next
    case False
    define t where "t = top_bit x 31"
    define n where "n = 32 * length xs"
    have t: "1 \<le> t" "t \<le> 32" "2 ^ (t - 1) \<le> unat x" "unat x < 2 ^ t"
      using top_bit_bounds [OF False, of 31] unat_u32_less [of x] by (simp_all add: t_def)
    have v: "uval (rev (x # xs)) = uval (rev xs) + 2 ^ n * unat x" unfolding n_def by (rule uval_rev_Cons)
    have lo: "uval (rev xs) < 2 ^ n" using uval_less [of "rev xs"] by (simp add: n_def)
    have "2 ^ n * (unat x + 1) \<le> 2 ^ n * 2 ^ t" using t(4) by (intro mult_le_mono2) simp
    then have "uval (rev (x # xs)) < 2 ^ (n + t)" using lo v by (simp add: power_add)
    moreover have "2 ^ (n + (t - 1)) \<le> uval (rev (x # xs))"
      using mult_le_mono2 [OF t(3), of "2 ^ n"] unfolding v power_add by linarith
    moreover have "n + (t - 1) = n + t - 1" using t(1) by simp
    ultimately show ?thesis using False t(2) by (simp add: n_def t_def del: rev.simps)
  qed
qed simp

lemma uint_bits_bounds:
  "uval a < 2 ^ uint_bits a" "uint_bits a \<noteq> 0 \<Longrightarrow> 2 ^ (uint_bits a - 1) \<le> uval a" "uint_bits a \<le> 32 * length a"
  using bits_loop_bounds [of "rev a"] by (simp_all add: uint_bits_def)

lemma uint_bits_0: "uint_bits a = 0 \<longleftrightarrow> uval a = 0"
proof (cases "uint_bits a = 0")
  case True
  then show ?thesis using uint_bits_bounds(1) [of a] by simp
next
  case False
  have "0 < (2 :: nat) ^ (uint_bits a - 1)" by simp
  then show ?thesis using uint_bits_bounds(2) [OF False] False by linarith
qed

section \<open>Division\<close>

lemma length_set_bit_at [simp]: "length (set_bit_at pn s) = length pn"
  by (simp add: set_bit_at_def)

lemma uval_set_bit_at:
  assumes "s < 32 * length pn" and "\<not> bit (uval pn) s"
  shows "uval (set_bit_at pn s) = uval pn + 2 ^ s"
proof -
  have i: "s div 32 < length pn" using assms(1) by (simp add: div_less_iff_less_mult mult.commute)
  have "uval (set_bit_at pn s) = uval pn OR push_bit s 1"
  proof (rule bit_eqI)
    fix n :: nat
    have e: "n div 32 = s div 32 \<and> n mod 32 = s mod 32 \<longleftrightarrow> n = s" by (metis div_mult_mod_eq)
    show "bit (uval (set_bit_at pn s)) n \<longleftrightarrow> bit (uval pn OR push_bit s 1) n"
    proof (cases "n div 32 = s div 32")
      case True
      have "bit (push_bit (s mod 32) 1 :: u32) (n mod 32) \<longleftrightarrow> n = s" using e True
        by (auto simp: bit_exp_iff)
      then show ?thesis using True i by (auto simp: bit_uval set_bit_at_def bit_or_iff bit_exp_iff)
    next
      case False
      then show ?thesis by (auto simp: bit_uval set_bit_at_def bit_or_iff bit_exp_iff)
    qed
  qed
  moreover have "uval pn AND push_bit s 1 = 0" using assms(2) by (intro bit_eqI) (auto simp: bit_and_iff bit_exp_iff)
  ultimately show ?thesis using disjunctive_add_eq_or [of "uval pn" "push_bit s 1"] by (simp add: push_bit_eq_mult)
qed

lemma div_loop_correct:
  assumes "length num = length pn" and "length dv = length pn" and "k \<le> 32 * length pn" and "0 < B"
    and "k \<noteq> 0 \<Longrightarrow> uval dv = B * 2 ^ (k - 1)" and "uval num < B * 2 ^ k" and "2 ^ k dvd uval pn"
  shows "uval (fst (div_loop k num dv pn)) = uval pn + uval num div B \<and> uval (snd (div_loop k num dv pn)) = uval num mod B
    \<and> length (fst (div_loop k num dv pn)) = length pn"
  using assms
proof (induction k arbitrary: num dv pn)
  case 0
  then show ?case by simp
next
  case (Suc s)
  have dv: "uval dv = B * 2 ^ s" using Suc.prems(5) by simp
  have shr: "uval (uint_shr dv 1) = B * 2 ^ (s - 1)" if "s \<noteq> 0"
    using that dv by (cases s) (simp_all add: uval_shr)
  have dvd: "2 ^ s dvd uval pn" using Suc.prems(7) by (metis dvd_trans le_imp_power_dvd le_SucI order_refl)
  show ?case
  proof (cases "0 \<le> CompareTo num dv")
    case True
    then have ge: "B * 2 ^ s \<le> uval num" using CompareTo_ge [of num dv] Suc.prems(1,2) dv by simp
    then have num: "uval (uint_sub num dv) = uval num - B * 2 ^ s" using uval_sub_le [of num dv] Suc.prems(1,2) dv by simp
    obtain q where q: "uval pn = 2 ^ Suc s * q" using Suc.prems(7) by (rule dvdE)
    then have "\<not> bit (uval pn) s" by (simp add: bit_iff_odd)
    then have pn: "uval (set_bit_at pn s) = uval pn + 2 ^ s" using Suc.prems(3) by (intro uval_set_bit_at) simp
    have small: "uval (uint_sub num dv) < B * 2 ^ s" using Suc.prems(6) num by simp
    have dvd': "2 ^ s dvd uval (set_bit_at pn s)" using dvd pn by simp
    have lens: "length (uint_sub num dv) = length (set_bit_at pn s)" "length (uint_shr dv 1) = length (set_bit_at pn s)"
      "s \<le> 32 * length (set_bit_at pn s)" using Suc.prems(1-3) by simp_all
    have "(uval num - B * 2 ^ s) div B = uval num div B - 2 ^ s" "(uval num - B * 2 ^ s) mod B = uval num mod B" "2 ^ s \<le> uval num div B"
    proof -
      obtain r where "uval num = B * 2 ^ s + r" using ge le_Suc_ex by blast
      then show "(uval num - B * 2 ^ s) div B = uval num div B - 2 ^ s" "(uval num - B * 2 ^ s) mod B = uval num mod B" "2 ^ s \<le> uval num div B"
        using Suc.prems(4) by simp_all
    qed
    then show ?thesis
      using Suc.IH [OF lens Suc.prems(4) shr small dvd'] True num pn by simp
  next
    case False
    then have "uval num < B * 2 ^ s" using CompareTo_ge [of num dv] Suc.prems(1,2) dv by simp
    then show ?thesis using Suc.IH [of num pn "uint_shr dv 1"] Suc.prems(1-4) False dvd shr by simp
  qed
qed

lemma uint_div_correct:
  assumes "length a = length b"
  shows "uint_div a b = None \<longleftrightarrow> uval b = 0"
    and "uint_div a b = Some q \<Longrightarrow> uval q = uval a div uval b \<and> length q = length a"
proof -
  show "uint_div a b = None \<longleftrightarrow> uval b = 0" by (simp add: uint_div_def Let_def uint_bits_0)
  assume q: "uint_div a b = Some q"
  then have b0: "uint_bits b \<noteq> 0" by (auto simp: uint_div_def Let_def split: if_splits)
  then have B: "0 < uval b" by (simp add: uint_bits_0)
  show "uval q = uval a div uval b \<and> length q = length a"
  proof (cases "uint_bits b > uint_bits a")
    case True
    have "uval a < 2 ^ uint_bits a" by (rule uint_bits_bounds)
    also have "\<dots> \<le> 2 ^ (uint_bits b - 1)" using True by (intro power_increasing) simp_all
    also have "\<dots> \<le> uval b" using b0 by (rule uint_bits_bounds)
    finally show ?thesis using q True b0 by (auto simp: uint_div_def Let_def)
  next
    case False
    define s where "s = uint_bits a - uint_bits b"
    have s: "uint_bits a = s + uint_bits b" using False by (simp add: s_def)
    have "uval b * 2 ^ s < 2 ^ (s + uint_bits b)"
      using uint_bits_bounds(1) [of b] by (simp add: power_add mult.commute)
    also have "(2 :: nat) ^ (s + uint_bits b) \<le> 2 ^ (32 * length b)" using uint_bits_bounds(3) [of a] assms unfolding s by (intro power_increasing) simp_all
    finally have dv: "uval (uint_shl b s) = uval b * 2 ^ s" by (simp add: uval_shl)
    have "uval a < 2 ^ (s + uint_bits b)" using uint_bits_bounds(1) [of a] by (simp add: s)
    also have "\<dots> = 2 ^ (uint_bits b - 1) * 2 ^ (s + 1)" using b0 by (cases "uint_bits b") (simp_all add: power_add)
    also have "\<dots> \<le> uval b * 2 ^ (s + 1)" using uint_bits_bounds(2) [OF b0] by (rule mult_le_mono1)
    finally have num: "uval a < uval b * 2 ^ (s + 1)" .
    have len: "s + 1 \<le> 32 * length (replicate (length a) (0 :: u32))" using b0 uint_bits_bounds(3) [of a] by (simp add: s)
    have "q = fst (div_loop (s + 1) a (uint_shl b s) (replicate (length a) 0))"
      using q b0 False by (simp add: uint_div_def Let_def s_def)
    then show ?thesis
      using div_loop_correct [of a "replicate (length a) 0" "uint_shl b s" "s + 1" "uval b"] dv num len B assms by simp
  qed
qed

section \<open>The compact format\<close>

lemma uval_uint_of64: "uval (uint_of64 b) = unat b" "length (uint_of64 b) = WIDTH"
proof -
  have "unat (ucast b :: u32) = unat b mod 2 ^ 32" by (simp add: unsigned_ucast_eq take_bit_eq_mod)
  moreover have "unat (ucast (drop_bit 32 b) :: u32) = unat b div 2 ^ 32"
  proof -
    have "unat b div 2 ^ 32 < 2 ^ 32" using unsigned_less [of b, where ?'a = nat] by (simp add: div_less_iff_less_mult)
    then show ?thesis unfolding unsigned_ucast_eq limb_step by (simp add: take_bit_eq_mod)
  qed
  ultimately show "uval (uint_of64 b) = unat b" by (simp add: uint_of64_def)
qed (simp add: uint_of64_def)

lemma unat_GetLow64:
  assumes "2 \<le> length a"
  shows "unat (GetLow64 a) = uval a mod 2 ^ 64"
proof -
  have "unat (GetLow64 a) = take_bit 64 (uval a)"
  proof (rule bit_eqI)
    fix n :: nat
    consider "n < 32" | "32 \<le> n" "n < 64" | "64 \<le> n" by linarith
    then show "bit (unat (GetLow64 a)) n \<longleftrightarrow> bit (take_bit 64 (uval a)) n"
    proof cases
      case 1
      then show ?thesis using assms
        by (auto simp: GetLow64_def bit_unsigned_iff bit_or_iff bit_push_bit_iff bit_take_bit_iff bit_uval bit_ucast_iff)
    next
      case 2
      then have "n div 32 = 1" "n mod 32 = n - 32" by (simp_all add: le_div_geq le_mod_geq)
      then show ?thesis using assms 2 bit_u32_less [of "a ! 0" n]
        by (auto simp: GetLow64_def bit_unsigned_iff bit_or_iff bit_push_bit_iff bit_take_bit_iff bit_uval bit_ucast_iff)
    next
      case 3
      then show ?thesis using bit_imp_le_length [of "GetLow64 a" n] by (auto simp: bit_unsigned_iff bit_take_bit_iff)
    qed
  qed
  then show ?thesis by (simp add: take_bit_eq_mod)
qed

text \<open>The mantissa and the exponent of a value with \<open>b\<close> bits, and the word made of them.\<close>

definition compact_parts :: "nat \<Rightarrow> nat \<Rightarrow> nat \<times> nat" where
  "compact_parts v b =
     (let size = (b + 7) div 8;
          n = (if size \<le> 3 then v * 256 ^ (3 - size) else v div 256 ^ (size - 3))
      in if 2 ^ 23 \<le> n then (n div 256, size + 1) else (n, size))"

definition compact_word :: "nat \<Rightarrow> nat \<Rightarrow> bool \<Rightarrow> u32" where
  "compact_word n s neg = of_nat (n + s * 2 ^ 24 + (if neg then 2 ^ 23 else 0))"

lemma unat_compact_word: "n < 2 ^ 23 \<Longrightarrow> s < 256 \<Longrightarrow> unat (compact_word n s neg) = n + s * 2 ^ 24 + (if neg then 2 ^ 23 else 0)"
proof -
  assume a: "n < 2 ^ 23" "s < 256"
  define N where "N = n + s * 2 ^ 24 + (if neg then 2 ^ 23 else 0)"
  have "N < 2 ^ 32" using a by (simp add: N_def)
  then have "unat (of_nat N :: u32) = N" by (simp add: unat_of_nat)
  then show ?thesis by (simp only: compact_word_def N_def)
qed

lemma and_7fffff: "unat (c AND 0x7fffff :: u32) = unat c mod 2 ^ 23"
proof -
  have "(0x7fffff :: u32) = mask 23" by (simp add: mask_eq_exp_minus_1)
  then have "c AND 0x7fffff = take_bit 23 c" by (simp add: take_bit_eq_mask)
  then show ?thesis by (simp add: take_bit_eq_mod unat_mod)
qed

lemma and_800000: "c AND 0x800000 \<noteq> (0 :: u32) \<longleftrightarrow> odd (unat c div 2 ^ 23)"
proof -
  have "c AND 0x800000 \<noteq> 0 \<longleftrightarrow> bit c 23" using and_push_bit_1 [of c 23] by simp
  then show ?thesis using bit_unsigned_iff [of c 23, where ?'a = nat] by (simp add: bit_iff_odd [of "unat c"])
qed

lemma SetCompact_word:
  assumes "n < 2 ^ 23" and "s < 256"
  defines "m \<equiv> (if s \<le> 3 then n div 256 ^ (3 - s) else n)"
  shows "uval (fst (SetCompact (compact_word n s neg))) = (if s \<le> 3 then m else m * 256 ^ (s - 3) mod 2 ^ 256)"
    and "length (fst (SetCompact (compact_word n s neg))) = WIDTH"
    and "fst (snd (SetCompact (compact_word n s neg))) \<longleftrightarrow> m \<noteq> 0 \<and> neg"
    and "snd (snd (SetCompact (compact_word n s neg))) \<longleftrightarrow> m \<noteq> 0 \<and> (34 < s \<or> 0xff < m \<and> 33 < s \<or> 0xffff < m \<and> 32 < s)"
proof -
  define c where "c = compact_word n s neg"
  define r where "r = n + (if neg then 2 ^ 23 else 0)"
  have r: "r < 2 ^ 24" using assms(1) by (simp add: r_def)
  have c: "unat c = r + s * 2 ^ 24" using unat_compact_word [OF assms(1,2), of neg] by (simp add: c_def r_def)
  have size: "unat (drop_bit 24 c) = s" using r c by (simp add: drop_bit_eq_div unat_div)
  have low: "unat (c AND 0x7fffff) = n"
  proof -
    have "unat c = n + 2 ^ 23 * (2 * s + (if neg then 1 else 0))" using c by (simp add: r_def)
    then have "unat c mod 2 ^ 23 = n mod 2 ^ 23" by (simp only: mod_mult_self2)
    then show ?thesis unfolding and_7fffff using assms(1) by simp
  qed
  have neg: "c AND 0x800000 \<noteq> 0 \<longleftrightarrow> neg"
  proof -
    have "unat c = n + 2 ^ 23 * (2 * s + (if neg then 1 else 0))" using c by (simp add: r_def)
    then have "unat c div 2 ^ 23 = 2 * s + (if neg then 1 else 0)" using assms(1) by simp
    then show ?thesis unfolding and_800000 by simp
  qed
  have zero: "w = 0 \<longleftrightarrow> unat w = 0" and gt: "w > of_nat k \<longleftrightarrow> unat w > k" if "k < 2 ^ 32" for w :: u32 and k
    using that by (simp_all add: unat_eq_zero word_less_nat_alt unat_of_nat)
  have up: "unat (ucast w :: u64) = unat w" for w :: u32
    using unat_u32_less [of w] by (simp add: unsigned_ucast_eq take_bit_eq_mod)
  have pow: "(2 :: nat) ^ (8 * k) = 256 ^ k" for k by (simp add: power_mult)
  have gts: "(0xff :: u32) < w \<longleftrightarrow> 0xff < unat w" "(0xffff :: u32) < w \<longleftrightarrow> 0xffff < unat w" for w :: u32
    using gt [of 255 w] gt [of 65535 w] by simp_all
  show "uval (fst (SetCompact (compact_word n s neg))) = (if s \<le> 3 then m else m * 256 ^ (s - 3) mod 2 ^ 256)"
    "length (fst (SetCompact (compact_word n s neg))) = WIDTH"
    "fst (snd (SetCompact (compact_word n s neg))) \<longleftrightarrow> m \<noteq> 0 \<and> neg"
    "snd (snd (SetCompact (compact_word n s neg))) \<longleftrightarrow> m \<noteq> 0 \<and> (34 < s \<or> 0xff < m \<and> 33 < s \<or> 0xffff < m \<and> 32 < s)"
  proof -
    define w where "w = (if s \<le> 3 then drop_bit (8 * (3 - s)) (c AND 0x7fffff) else c AND 0x7fffff)"
    have w: "unat w = m" unfolding w_def m_def using low by (cases "s \<le> 3") (simp_all only: unat_drop_bit pow if_True if_False)
    have S: "SetCompact c = ((if s \<le> 3 then uint_of64 (ucast w) else uint_shl (uint_of64 (ucast w)) (8 * (s - 3))),
        w \<noteq> 0 \<and> neg, w \<noteq> 0 \<and> (34 < s \<or> 0xff < w \<and> 33 < s \<or> 0xffff < w \<and> 32 < s))"
      using neg by (simp add: SetCompact_def Let_def size w_def)
    show "uval (fst (SetCompact (compact_word n s neg))) = (if s \<le> 3 then m else m * 256 ^ (s - 3) mod 2 ^ 256)"
      unfolding c_def [symmetric] S by (simp add: uval_shl uval_uint_of64 up w pow)
    show "length (fst (SetCompact (compact_word n s neg))) = WIDTH"
      unfolding c_def [symmetric] S by (simp add: uval_uint_of64)
    show "fst (snd (SetCompact (compact_word n s neg))) \<longleftrightarrow> m \<noteq> 0 \<and> neg"
      unfolding c_def [symmetric] S using w by (simp add: zero [of 0])
    show "snd (snd (SetCompact (compact_word n s neg))) \<longleftrightarrow> m \<noteq> 0 \<and> (34 < s \<or> 0xff < m \<and> 33 < s \<or> 0xffff < m \<and> 32 < s)"
      unfolding c_def [symmetric] S using w by (simp add: zero [of 0] gts)
  qed
qed

lemma compact_parts_bounds:
  assumes "v < 2 ^ b" and "b \<noteq> 0 \<Longrightarrow> 2 ^ (b - 1) \<le> v" and "b \<le> 256"
  defines "sz \<equiv> (b + 7) div 8"
  defines "n \<equiv> (if sz \<le> 3 then v * 256 ^ (3 - sz) else v div 256 ^ (sz - 3))"
  shows "n < 2 ^ 24" and "fst (compact_parts v b) < 2 ^ 23" and "snd (compact_parts v b) \<le> 33"
proof -
  have pow: "(2 :: nat) ^ (8 * k) = 256 ^ k" for k by (simp add: power_mult)
  have "v < 256 ^ sz"
  proof -
    have "b \<le> 8 * sz" by (simp add: sz_def)
    then have "(2 :: nat) ^ b \<le> 2 ^ (8 * sz)" by (intro power_increasing) simp_all
    then show ?thesis using assms(1) by (simp add: pow)
  qed
  note v = this
  show n: "n < 2 ^ 24"
  proof (cases "sz \<le> 3")
    case True
    have "v * 256 ^ (3 - sz) < 256 ^ sz * 256 ^ (3 - sz)" using v by simp
    also have "(256 :: nat) ^ sz * 256 ^ (3 - sz) = 256 ^ 3" using True by (simp flip: power_add)
    finally show ?thesis using True by (simp add: n_def)
  next
    case False
    have "(256 :: nat) ^ sz = 256 ^ 3 * 256 ^ (sz - 3)" using False power_add [of "256 :: nat" 3 "sz - 3"] by simp
    then have "v div 256 ^ (sz - 3) < 256 ^ 3" using v by (simp add: div_less_iff_less_mult)
    then show ?thesis using False by (simp add: n_def)
  qed
  have p: "compact_parts v b = (if 2 ^ 23 \<le> n then (n div 256, sz + 1) else (n, sz))"
    by (simp add: compact_parts_def Let_def n_def sz_def)
  show "fst (compact_parts v b) < 2 ^ 23" using n unfolding p by (auto simp: div_less_iff_less_mult)
  have "sz \<le> 32" using div_le_mono [of "b + 7" 263 8] assms(3) by (simp add: sz_def)
  then show "snd (compact_parts v b) \<le> 33" unfolding p by simp
qed

lemma bit_below: "unat (c :: 'a::len word) < 2 ^ m \<Longrightarrow> bit c n \<Longrightarrow> n < m"
proof (rule ccontr)
  assume c: "unat c < 2 ^ m" and b: "bit c n" "\<not> n < m"
  then have "unat c < 2 ^ n" by (intro less_le_trans [OF c] power_increasing) simp_all
  then have "unat c div 2 ^ n = 0" by simp
  moreover have "bit (unat c) n" using b(1) bit_imp_le_length [OF b(1)] by (simp add: bit_unsigned_iff)
  ultimately show False by (simp add: bit_iff_odd [of "unat c"])
qed

lemma and_not_7fffff: "unat c < 2 ^ 23 \<Longrightarrow> c AND NOT 0x7fffff = (0 :: u32)"
proof -
  assume c: "unat c < 2 ^ 23"
  have m: "(0x7fffff :: u32) = mask 23" by (simp add: mask_eq_exp_minus_1)
  have "bit c n \<Longrightarrow> n < 23" for n using bit_below [OF c] .
  then show ?thesis unfolding m by (intro bit_eqI) (auto simp: bit_and_iff bit_not_iff bit_mask_iff)
qed

lemma or_disjoint_unat: "a AND b = 0 \<Longrightarrow> unat a + unat b < 2 ^ 32 \<Longrightarrow> unat (a OR b :: u32) = unat a + unat b"
  by (subst disjunctive_add_eq_or [symmetric]) (simp_all add: unat_word_ariths)

lemma GetCompact_word:
  assumes "length pn = WIDTH"
  defines "p \<equiv> compact_parts (uval pn) (uint_bits pn)"
  shows "GetCompact pn fNegative = Some (compact_word (fst p) (snd p) (fNegative \<and> fst p \<noteq> 0))"
proof -
  define v where "v = uval pn"
  define b where "b = uint_bits pn"
  define k where "k = (b + 7) div 8"
  define n where "n = (if k \<le> 3 then v * 256 ^ (3 - k) else v div 256 ^ (k - 3))"
  have v: "v < 2 ^ b" "b \<noteq> 0 \<Longrightarrow> 2 ^ (b - 1) \<le> v" "b \<le> 256"
    using uint_bits_bounds [of pn] assms(1) by (simp_all add: v_def b_def)
  note bounds = compact_parts_bounds [OF v, folded k_def, folded n_def]
  have p: "p = (if 2 ^ 23 \<le> n then (n div 256, k + 1) else (n, k))"
    by (simp add: p_def compact_parts_def Let_def n_def k_def v_def b_def)
  have pow: "(2 :: nat) ^ (8 * j) = 256 ^ j" for j by (simp add: power_mult)
  define c where "c = (if k \<le> 3 then ucast (push_bit (8 * (3 - k)) (GetLow64 pn)) else ucast (GetLow64 (uint_shr pn (8 * (k - 3)))) :: u32)"
  have c: "unat c = n"
  proof (cases "k \<le> 3")
    case True
    have n: "v * 256 ^ (3 - k) = n" "n < 2 ^ 24" using True bounds(1) by (simp_all add: n_def)
    moreover have "v \<le> v * 256 ^ (3 - k)" by simp
    ultimately have "v < 2 ^ 24" by linarith
    then have "unat (GetLow64 pn) = v" using unat_GetLow64 [of pn] assms(1) by (simp add: v_def)
    then have "unat (push_bit (8 * (3 - k)) (GetLow64 pn)) = n"
      using n unfolding unsigned_push_bit_eq by (simp add: take_bit_eq_mod push_bit_eq_mult pow)
    then show ?thesis using True n(2) unfolding c_def by (simp add: unsigned_ucast_eq take_bit_eq_mod)
  next
    case False
    have "unat (GetLow64 (uint_shr pn (8 * (k - 3)))) = n"
      using unat_GetLow64 [of "uint_shr pn (8 * (k - 3))"] assms(1) bounds(1) False by (simp add: uval_shr v_def [symmetric] pow n_def)
    then show ?thesis using False bounds(1) unfolding c_def by (simp add: unsigned_ucast_eq take_bit_eq_mod)
  qed
  have flag: "c AND 0x800000 \<noteq> 0 \<longleftrightarrow> 2 ^ 23 \<le> n"
  proof -
    have "n div 2 ^ 23 < 2" using bounds(1) by (simp add: div_less_iff_less_mult)
    moreover have "n div 2 ^ 23 = 0 \<longleftrightarrow> n < 2 ^ 23" by (simp add: div_eq_0_iff)
    ultimately have "odd (n div 2 ^ 23) \<longleftrightarrow> \<not> n < 2 ^ 23" by (auto simp: less_2_cases_iff)
    then show ?thesis unfolding and_800000 c by auto
  qed
  define c1 where "c1 = (if c AND 0x800000 \<noteq> 0 then drop_bit 8 c else c)"
  have c1: "unat c1 = fst p" unfolding c1_def p by (auto simp: flag c unat_drop_bit)
  have size: "(if c AND 0x800000 \<noteq> 0 then k + 1 else k) = snd p" unfolding p by (simp add: flag)
  have mant: "fst p < 2 ^ 23" "snd p \<le> 33" using bounds(2,3) by (simp_all add: p_def v_def b_def)
  define c2 where "c2 = c1 OR push_bit 24 (of_nat (snd p))"
  have hi: "unat (push_bit 24 (of_nat (snd p)) :: u32) = snd p * 2 ^ 24"
    using mant(2) unfolding unsigned_push_bit_eq by (simp add: take_bit_eq_mod push_bit_eq_mult unat_of_nat)
  have bit_c1: "bit c1 j \<Longrightarrow> j < 23" for j using bit_below [of c1 23 j] c1 mant(1) by simp
  have "c1 AND push_bit 24 (of_nat (snd p)) = 0"
    using bit_c1 by (intro bit_eqI) (auto simp: bit_and_iff bit_push_bit_iff, fastforce)
  then have c2: "unat c2 = fst p + snd p * 2 ^ 24"
    using mant unfolding c2_def by (subst or_disjoint_unat) (simp_all add: c1 hi)
  have low: "c2 AND 0x7fffff \<noteq> 0 \<longleftrightarrow> fst p \<noteq> 0"
  proof -
    have "unat c2 = fst p + 2 ^ 23 * (2 * snd p)" using c2 by simp
    then have "unat c2 mod 2 ^ 23 = fst p mod 2 ^ 23" by (simp only: mod_mult_self2)
    then have "unat (c2 AND 0x7fffff) = fst p" unfolding and_7fffff using mant(1) by simp
    then show ?thesis by (metis unat_eq_zero)
  qed
  have neg: "c2 AND 0x800000 = 0"
  proof -
    have "unat c2 = fst p + 2 ^ 23 * (2 * snd p)" using c2 by simp
    then have "unat c2 div 2 ^ 23 = 2 * snd p" using mant(1) by simp
    then show ?thesis using and_800000 [of c2] by simp
  qed
  have out: "c2 OR (if fNegative \<and> fst p \<noteq> 0 then 0x800000 else 0) = compact_word (fst p) (snd p) (fNegative \<and> fst p \<noteq> 0)"
  proof (rule unsigned_word_eqI [where ?'a = nat])
    show "unat (c2 OR (if fNegative \<and> fst p \<noteq> 0 then 0x800000 else 0)) = unat (compact_word (fst p) (snd p) (fNegative \<and> fst p \<noteq> 0))"
      using c2 mant neg or_disjoint_unat [OF neg] unat_compact_word [OF mant(1), of "snd p"] by simp
  qed
  have nz: "c1 AND NOT 0x7fffff = 0" using and_not_7fffff [of c1] c1 mant(1) by simp
  have "GetCompact pn fNegative =
      (let (nCompact, nSize) = (c1, snd p)
       in if nCompact AND NOT 0x007fffff \<noteq> 0 then None else if nSize \<ge> 256 then None
          else let nCompact = nCompact OR push_bit 24 (of_nat nSize)
               in Some (nCompact OR (if fNegative \<and> nCompact AND 0x007fffff \<noteq> 0 then 0x00800000 else 0)))"
  proof -
    have "(if c AND 0x800000 \<noteq> 0 then (drop_bit 8 c, k + 1) else (c, k)) = (c1, snd p)"
      using size by (simp add: c1_def split: if_splits)
    then show ?thesis unfolding GetCompact_def Let_def b_def [symmetric] k_def [symmetric] c_def [symmetric] by simp
  qed
  then show ?thesis using nz mant(2) low out by (simp add: c2_def [symmetric] Let_def)
qed

section \<open>Compacting loses little\<close>

lemma bits_unique:
  assumes "v < 2 ^ b" and "b \<noteq> 0 \<Longrightarrow> 2 ^ (b - 1) \<le> v" and "v < 2 ^ b'" and "b' \<noteq> 0 \<Longrightarrow> 2 ^ (b' - 1) \<le> (v :: nat)"
  shows "b = b'"
proof -
  have *: "\<not> b < b'" if "v < 2 ^ b" "b' \<noteq> 0 \<Longrightarrow> 2 ^ (b' - 1) \<le> v" for b b' :: nat
  proof
    assume "b < b'"
    then have "v < 2 ^ (b' - 1)" by (intro less_le_trans [OF that(1)] power_increasing) simp_all
    then show False using that(2) \<open>b < b'\<close> by simp
  qed
  show ?thesis using * [OF assms(1,4)] * [OF assms(3,2)] by simp
qed

text \<open>What the mantissa and the exponent stand for: the value without its last \<open>j\<close> bytes.\<close>

definition compact_value :: "nat \<times> nat \<Rightarrow> nat" where
  "compact_value p = (if snd p \<le> 3 then fst p div 256 ^ (3 - snd p) else fst p * 256 ^ (snd p - 3))"

lemma compact_value_parts:
  assumes "v < 2 ^ b" and "b \<noteq> 0 \<Longrightarrow> 2 ^ (b - 1) \<le> v" and "b \<le> 256"
  shows "\<exists>j. compact_value (compact_parts v b) = v div 256 ^ j * 256 ^ j \<and> (j = 0 \<or> 2 ^ 15 * 256 ^ j \<le> v \<and> 8 * j < b)
    \<and> compact_parts (v div 256 ^ j * 256 ^ j) b = compact_parts v b
    \<and> (snd (compact_parts v b) = 33 \<longrightarrow> fst (compact_parts v b) \<le> 0xffff)"
proof -
  define k where "k = (b + 7) div 8"
  define n where "n = (if k \<le> 3 then v * 256 ^ (3 - k) else v div 256 ^ (k - 3))"
  have n24: "n < 2 ^ 24" unfolding n_def k_def by (rule compact_parts_bounds(1) [OF assms])
  have p: "compact_parts v b = (if 2 ^ 23 \<le> n then (n div 256, k + 1) else (n, k))"
    by (simp add: compact_parts_def Let_def n_def k_def)
  have k32: "k \<le> 32" using div_le_mono [of "b + 7" 263 8] assms(3) by (simp add: k_def)
  have k8: "8 * k \<le> b + 7" by (simp add: k_def)
  have last: "snd (compact_parts v b) = 33 \<longrightarrow> fst (compact_parts v b) \<le> 0xffff"
    using n24 k32 unfolding p by (auto simp: less_Suc_eq_le [symmetric] div_less_iff_less_mult)
  show ?thesis
  proof (cases "k < 3")
    case True
    have "compact_value (compact_parts v b) = v"
    proof (cases "2 ^ 23 \<le> n")
      case big: True
      have "n div 256 = v * 256 ^ (2 - k)"
      proof -
        have "3 - k = Suc (2 - k)" using True by simp
        then show ?thesis using True by (simp add: n_def)
      qed
      then show ?thesis using big True unfolding p by (simp add: compact_value_def)
    next
      case False
      then show ?thesis using True unfolding p by (simp add: compact_value_def n_def)
    qed
    then show ?thesis using last by (intro exI [of _ 0]) simp
  next
    case False
    define E where "E = (256 :: nat) ^ (k - 3)"
    have E: "0 < E" by (simp add: E_def)
    have n: "n = v div E" using False by (auto simp: n_def E_def)
    have parts: "compact_parts u b = (if 2 ^ 23 \<le> u div E then (u div E div 256, k + 1) else (u div E, k))" for u
      using False by (auto simp: compact_parts_def Let_def k_def [symmetric] E_def)
    show ?thesis
    proof (cases "2 ^ 23 \<le> n")
      case True
      have k2: "256 ^ (k - 2) = 256 * E"
      proof -
        have "k - 2 = Suc (k - 3)" using False by simp
        then show ?thesis by (simp add: E_def)
      qed
      define u where "u = v div (256 * E) * (256 * E)"
      have q: "v div (256 * E) = n div 256" by (simp add: n div_mult2_eq mult.commute)
      have "u div E = n div 256 * 256" using E by (simp add: u_def q)
      moreover have "2 ^ 23 \<le> n div 256 * 256"
      proof -
        have "2 ^ 23 div 256 \<le> n div 256" using True by (rule div_le_mono)
        then show ?thesis by simp
      qed
      ultimately have "compact_parts u b = compact_parts v b" using True by (simp add: parts n)
      moreover have "compact_value (compact_parts v b) = u"
        using True False unfolding p by (simp add: compact_value_def u_def q k2)
      moreover have "2 ^ 15 * (256 * E) \<le> v"
      proof -
        have "2 ^ 23 * E \<le> n * E" using True by (rule mult_le_mono1)
        also have "n * E \<le> v" by (simp add: n)
        finally show ?thesis by simp
      qed
      moreover have "8 * (k - 2) < b" using k8 False by simp
      ultimately show ?thesis using last by (intro exI [of _ "k - 2"]) (simp add: k2 u_def)
    next
      case small: False
      define u where "u = v div E * E"
      have "compact_parts u b = compact_parts v b" using E by (simp add: parts u_def)
      moreover have "compact_value (compact_parts v b) = u"
        using small False unfolding p by (auto simp: compact_value_def u_def n E_def)
      moreover have "k - 3 = 0 \<or> 2 ^ 15 * 256 ^ (k - 3) \<le> v \<and> 8 * (k - 3) < b"
      proof (cases "k = 3")
        case k: False
        have "b \<noteq> 0" and "8 * (k - 1) \<le> b - 1" using k8 k \<open>\<not> k < 3\<close> by simp_all
        then have "(2 :: nat) ^ (8 * (k - 1)) \<le> v" using assms(2) by (meson le_trans one_le_numeral power_increasing)
        moreover have "(2 :: nat) ^ (8 * (k - 1)) = 256 ^ 2 * E"
        proof -
          have "k - 1 = 2 + (k - 3)" using k \<open>\<not> k < 3\<close> by simp
          then show ?thesis by (simp add: E_def power_mult power_add)
        qed
        ultimately have "2 ^ 15 * E \<le> v" by simp
        moreover have "8 * (k - 3) < b" using k8 k \<open>\<not> k < 3\<close> by simp
        ultimately show ?thesis by (simp add: E_def)
      qed simp
      ultimately show ?thesis using last by (intro exI [of _ "k - 3"]) (simp add: E_def u_def)
    qed
  qed
qed

lemma bits_truncated:
  assumes "2 ^ (b - 1) \<le> (v :: nat)" and "v < 2 ^ b" and "8 * j < b"
  shows "2 ^ (b - 1) \<le> v div 256 ^ j * 256 ^ j" and "v div 256 ^ j * 256 ^ j < 2 ^ b"
proof -
  have K: "(256 :: nat) ^ j = 2 ^ (8 * j)" by (simp add: power_mult)
  have e: "(2 :: nat) ^ (b - 1) = 2 ^ (b - 1 - 8 * j) * 256 ^ j" using assms(3) unfolding K by (simp flip: power_add)
  then have "2 ^ (b - 1 - 8 * j) \<le> v div 256 ^ j" using div_le_mono [OF assms(1), of "256 ^ j"] by simp
  then show "2 ^ (b - 1) \<le> v div 256 ^ j * 256 ^ j" unfolding e by (rule mult_le_mono1)
  show "v div 256 ^ j * 256 ^ j < 2 ^ b" by (rule le_less_trans [OF _ assms(2)]) simp
qed

lemma GetCompact_SetCompact:
  assumes "length pn = WIDTH" and "GetCompact pn fNegative = Some c" and "SetCompact c = (t, neg, ovf)"
  shows "uval t \<le> uval pn" and "(uval pn - uval t) * 2 ^ 15 \<le> uval pn" and "neg \<longleftrightarrow> fNegative \<and> uval pn \<noteq> 0" and "\<not> ovf"
    and "GetCompact t fNegative = Some c" and "length t = WIDTH"
proof -
  define v where "v = uval pn"
  define b where "b = uint_bits pn"
  define p where "p = compact_parts v b"
  have v: "v < 2 ^ b" "b \<noteq> 0 \<Longrightarrow> 2 ^ (b - 1) \<le> v" "b \<le> 256"
    using uint_bits_bounds [of pn] assms(1) by (simp_all add: v_def b_def)
  have c: "c = compact_word (fst p) (snd p) (fNegative \<and> fst p \<noteq> 0)"
    using GetCompact_word [OF assms(1), of fNegative] assms(2) by (simp add: p_def v_def b_def)
  have p: "fst p < 2 ^ 23" "snd p \<le> 33" using compact_parts_bounds(2,3) [OF v] by (simp_all add: p_def)
  obtain j where j: "compact_value p = v div 256 ^ j * 256 ^ j" "j = 0 \<or> 2 ^ 15 * 256 ^ j \<le> v \<and> 8 * j < b"
      "compact_parts (v div 256 ^ j * 256 ^ j) b = p" "snd p = 33 \<longrightarrow> fst p \<le> 0xffff"
    using compact_value_parts [OF v] by (auto simp: p_def)
  define m where "m = (if snd p \<le> 3 then fst p div 256 ^ (3 - snd p) else fst p)"
  note S = SetCompact_word [OF p(1), of "snd p" "fNegative \<and> fst p \<noteq> 0", folded c m_def, unfolded assms(3), simplified]
  have le: "v div 256 ^ j * 256 ^ j \<le> v" by simp
  have "v < 2 ^ 256" using uval_less [of pn] assms(1) by (simp add: v_def)
  then have "compact_value p < 2 ^ 256" using j(1) le by linarith
  then have t: "uval t = v div 256 ^ j * 256 ^ j"
    using S(1) p(2) j(1) by (auto simp: compact_value_def m_def split: if_splits)
  show "length t = WIDTH" using S(2) p(2) by simp
  show "uval t \<le> uval pn" using t le by (simp add: v_def)
  show "(uval pn - uval t) * 2 ^ 15 \<le> uval pn"
  proof (cases "j = 0")
    case True
    then show ?thesis using t by (simp add: v_def)
  next
    case False
    have "v - v div 256 ^ j * 256 ^ j = v mod 256 ^ j" by (simp add: minus_div_mult_eq_mod)
    then have "(v - uval t) * 2 ^ 15 \<le> 256 ^ j * 2 ^ 15" using t by (intro mult_le_mono1) (simp add: less_imp_le)
    also have "\<dots> \<le> v" using j(2) False by (simp add: mult.commute)
    finally show ?thesis by (simp add: v_def)
  qed
  have "v div 256 ^ j * 256 ^ j = 0 \<longleftrightarrow> v = 0"
  proof (cases "j = 0")
    case False
    then have le: "2 ^ 15 * 256 ^ j \<le> v" using j(2) by simp
    have "0 < 2 ^ 15 * (256 :: nat) ^ j" "(256 :: nat) ^ j \<le> 2 ^ 15 * 256 ^ j" by simp_all
    then have "0 < v" "(256 :: nat) ^ j \<le> v" using le by (blast intro: less_le_trans le_trans)+
    then show ?thesis by (simp add: div_eq_0_iff)
  qed simp
  then have zero: "m = 0 \<longleftrightarrow> v = 0" using j(1) by (auto simp: compact_value_def m_def split: if_splits)
  have zero': "fst p = 0 \<longleftrightarrow> v = 0"
  proof
    assume "v = 0"
    then show "fst p = 0" by (simp add: p_def compact_parts_def Let_def)
  qed (use zero in \<open>simp add: m_def split: if_splits\<close>)
  show "neg \<longleftrightarrow> fNegative \<and> uval pn \<noteq> 0" using S(3) p(2) zero zero' by (auto simp: v_def)
  show "\<not> ovf" using S(4) p(2) j(4) by (auto simp: m_def split: if_splits)
  have "uint_bits t = b"
  proof (cases "b = 0")
    case True
    then show ?thesis using v(1) t by (simp add: uint_bits_0)
  next
    case False
    show ?thesis
    proof (cases "j = 0")
      case True
      then have "uval t = v" using t by simp
      then show ?thesis using bits_unique [of v "uint_bits t" b] uint_bits_bounds [of t] v by simp
    next
      case j0: False
      note tr = bits_truncated [OF v(2) [OF False] v(1), of j]
      show ?thesis
        using bits_unique [of "uval t" "uint_bits t" b] uint_bits_bounds(1,2) [of t] tr j(2) j0 t by simp
    qed
  qed
  then show "GetCompact t fNegative = Some c"
    using GetCompact_word [OF \<open>length t = WIDTH\<close>, of fNegative] t j(3) c by simp
qed

text \<open>The number a compact word stands for, its sign and overflow aside.\<close>

definition compact_nat :: "u32 \<Rightarrow> nat" where
  "compact_nat c = compact_value (unat c mod 2 ^ 23, unat c div 2 ^ 24)"

lemma compact_word_split: "c = compact_word (unat c mod 2 ^ 23) (unat c div 2 ^ 24) (odd (unat c div 2 ^ 23))"
proof -
  have "unat (compact_word (unat c mod 2 ^ 23) (unat c div 2 ^ 24) (odd (unat c div 2 ^ 23))) = unat c"
  proof -
    have s: "unat c div 2 ^ 24 < 256" using unat_u32_less [of c] by simp
    have "unat c = unat c mod 2 ^ 23 + 2 ^ 23 * (unat c div 2 ^ 23)" by simp
    also have "unat c div 2 ^ 23 = unat c div 2 ^ 23 mod 2 + 2 * (unat c div 2 ^ 24)" 
    proof -
      have "unat c div 2 ^ 24 = unat c div 2 ^ 23 div 2" by (simp add: div_mult2_eq [symmetric])
      then show ?thesis by presburger
    qed
    finally show ?thesis using s by (simp add: unat_compact_word odd_iff_mod_2_eq_one)
  qed
  then show ?thesis by (simp only: word_unat_eq_iff)
qed

lemma SetCompact_nat:
  assumes "SetCompact c = (t, neg, ovf)"
  shows "length t = WIDTH" and "\<not> ovf \<Longrightarrow> uval t = compact_nat c" and "\<not> ovf \<Longrightarrow> compact_nat c + 1 < 2 ^ 256"
proof -
  define n s where ns: "n = unat c mod 2 ^ 23" "s = unat c div 2 ^ 24"
  define m where "m = (if s \<le> 3 then n div 256 ^ (3 - s) else n)"
  have n: "n < 2 ^ 23" and s: "s < 256" using unat_u32_less [of c] by (simp_all add: ns)
  have c: "c = compact_word n s (odd (unat c div 2 ^ 23))" unfolding ns by (rule compact_word_split)
  note w = SetCompact_word [OF n s, of "odd (unat c div 2 ^ 23)", folded c m_def, unfolded assms fst_conv snd_conv]
  show "length t = WIDTH" by (rule w(2))
  assume "\<not> ovf"
  then have small: "m = 0 \<or> s \<le> 32 \<or> s = 33 \<and> m \<le> 0xffff \<or> s = 34 \<and> m \<le> 0xff" using w(4) by auto
  have v: "compact_nat c = (if s \<le> 3 then m else m * 256 ^ (s - 3))"
    by (simp only: compact_nat_def compact_value_def ns [symmetric] m_def fst_conv snd_conv) simp
  have "m \<le> n" by (simp add: m_def)
  then have m23: "m \<le> 2 ^ 23" using n by simp
  have bound: "m * 256 ^ (s - 3) + 1 < 2 ^ 256" if "\<not> s \<le> 3"
  proof -
    consider "m = 0" | "s \<le> 32" | "s = 33" "m \<le> 0xffff" | "s = 34" "m \<le> 0xff" using small by blast
    then show ?thesis
    proof cases
      case 2
      have "m * 256 ^ (s - 3) \<le> 2 ^ 23 * 256 ^ 29" using m23 2 by (intro mult_mono power_increasing) auto
      then show ?thesis by simp
    next
      case 3
      then show ?thesis by simp
    next
      case 4
      then show ?thesis by simp
    qed simp
  qed
  have b2: "m + 1 < 2 ^ 256" using m23 by (rule_tac le_less_trans [of _ "2 ^ 23 + 1"]) auto
  show "compact_nat c + 1 < 2 ^ 256" using bound b2 v by (cases "s \<le> 3") (simp_all only: if_True if_False not_True_eq_False not_False_eq_True)
  show "uval t = compact_nat c"
    using w(1) v bound by (cases "s \<le> 3") (simp_all del: power_numeral)
qed

lemma int_sub_mod: "b \<le> M \<Longrightarrow> int ((a + (M - b)) mod M) = (int a - int b) mod int M"
proof -
  assume "b \<le> M"
  then have "int (a + (M - b)) = (int a - int b) + int M" by simp
  then show ?thesis by (simp only: of_nat_mod mod_add_self2)
qed

section \<open>Properties\<close>

text \<open>
  C36. The limb arithmetic of \<open>arith_uint256\<close> refines arithmetic modulo \<open>2 ^ 256\<close>: sums, differences, negation, products,
  shifts in both directions, comparisons and the position of the highest bit are those of the numbers the limbs stand for,
  and the long division returns the quotient, or throws exactly when the divisor is zero.
\<close>

theorem arith_uint256_refines:
  assumes "length a = WIDTH" and "length b = WIDTH"
  shows "uval (uint_add a b) = (uval a + uval b) mod 2 ^ 256
    \<and> int (uval (uint_sub a b)) = (int (uval a) - int (uval b)) mod 2 ^ 256
    \<and> uval (uint_inc a) = (uval a + 1) mod 2 ^ 256
    \<and> uval (uint_mul a b) = (uval a * uval b) mod 2 ^ 256
    \<and> uval (uint_mul32 a w) = (uval a * unat w) mod 2 ^ 256
    \<and> uval (uint_shl a n) = (uval a * 2 ^ n) mod 2 ^ 256
    \<and> uval (uint_shr a n) = uval a div 2 ^ n
    \<and> CompareTo a b = sgn (int (uval a) - int (uval b))
    \<and> EqualTo a x = (uval a = unat x)
    \<and> uval a < 2 ^ uint_bits a \<and> (uint_bits a = 0 \<or> 2 ^ (uint_bits a - 1) \<le> uval a)
    \<and> (case uint_div a b of None \<Rightarrow> uval b = 0 | Some q \<Rightarrow> uval b \<noteq> 0 \<and> uval q = uval a div uval b)"
proof -
  have "int (uval (uint_sub a b)) = (int (uval a) - int (uval b)) mod 2 ^ 256"
    using int_sub_mod [of "uval b" "2 ^ 256" "uval a"] uval_less [of b] uval_sub [of a b] assms by simp
  moreover have "case uint_div a b of None \<Rightarrow> uval b = 0 | Some q \<Rightarrow> uval b \<noteq> 0 \<and> uval q = uval a div uval b"
    using uint_div_correct [of a b] assms by (auto split: option.split)
  moreover have "uint_bits a = 0 \<or> 2 ^ (uint_bits a - 1) \<le> uval a" using uint_bits_bounds(2) [of a] by blast
  moreover have len: "32 * length a = 256" "length a = length b" "length b = length a" "2 \<le> length a" using assms by simp_all
  ultimately show ?thesis
    unfolding uval_add [OF len(2)] uval_inc uval_mul(1) [OF len(3)] uval_mul32(1) uval_shl uval_shr CompareTo_sgn [OF len(2)]
      EqualTo_iff [OF len(4)] len(1)
    by (intro conjI refl uint_bits_bounds(1))
qed

theorem arith_uint256_refines_witness:
  "uval (uint_add (uint_of64 5) (uint_of64 7)) = 12
   \<and> (case uint_div (uint_of64 100) (uint_of64 7) of None \<Rightarrow> False | Some q \<Rightarrow> uval q = 14)"
proof -
  have "uval (uint_add (uint_of64 5) (uint_of64 7)) = (5 + 7) mod 2 ^ 256"
    using arith_uint256_refines [of "uint_of64 5" "uint_of64 7" 0 0 0] by (simp add: uval_uint_of64 del: power_numeral)
  moreover have "case uint_div (uint_of64 100) (uint_of64 7) of None \<Rightarrow> uval (uint_of64 7) = 0
      | Some q \<Rightarrow> uval (uint_of64 7) \<noteq> 0 \<and> uval q = uval (uint_of64 100) div uval (uint_of64 7)"
    using arith_uint256_refines [of "uint_of64 100" "uint_of64 7" 0 0 0] by (simp only: uval_uint_of64)
  ultimately show ?thesis by (simp add: uval_uint_of64 split: option.splits)
qed

text \<open>
  C37. The compact format: \<open>GetCompact\<close> never fails an assertion; \<open>SetCompact\<close> reads the word back without overflow, with the
  sign, as a number that is not larger and differs by at most one part in \<open>2 ^ 15\<close>; and compacting that number again gives
  the same word.
\<close>

theorem Compact_roundtrip:
  assumes "length pn = WIDTH"
  shows "case GetCompact pn fNegative of
      None \<Rightarrow> False
    | Some c \<Rightarrow> (case SetCompact c of (t, neg, ovf) \<Rightarrow>
        uval t \<le> uval pn \<and> (uval pn - uval t) * 2 ^ 15 \<le> uval pn \<and> neg = (fNegative \<and> uval pn \<noteq> 0) \<and> \<not> ovf
        \<and> GetCompact t fNegative = Some c)"
proof -
  obtain c where c: "GetCompact pn fNegative = Some c" using GetCompact_word [OF assms] by blast
  obtain t neg ovf where "SetCompact c = (t, neg, ovf)" by (cases "SetCompact c")
  then show ?thesis using c GetCompact_SetCompact [OF assms c] by simp
qed

theorem Compact_roundtrip_witness:
  "case GetCompact (uint_of64 0x12345678) False of
     None \<Rightarrow> False
   | Some c \<Rightarrow> (case SetCompact c of (t, neg, ovf) \<Rightarrow> uval t \<le> 0x12345678 \<and> \<not> neg \<and> \<not> ovf \<and> GetCompact t False = Some c)"
  using Compact_roundtrip [of "uint_of64 0x12345678" False] by (auto simp: uval_uint_of64 split: option.splits prod.splits)

end
