(* ===== verification/Chain.thy ===== *)
theory Chain
  imports Block Arith_Uint256
begin

text \<open>
  The block index and the active chain (\<open>chain.h\<close>, \<open>chain.cpp\<close>). The objects of class \<open>CBlockIndex\<close> live in
  \<open>mapBlockIndex\<close>, the map from block hashes to entries; a pointer to an entry is the hash under which the map holds it,
  and \<open>NULL\<close> is \<open>None\<close>. An operation that follows pointers takes the map as an argument and returns \<open>None\<close> where the code
  would dereference an invalid pointer, fail an assertion or throw. Heights are natural numbers in the entries, as the
  code counts them up from 0, and integers where the code may pass a negative height.
\<close>

unbundle bit_operations_syntax

section \<open>Entries of the block index\<close>

record CBlockIndex =
  phashBlock :: "uint256 option"
  pprev :: "uint256 option"
  pskip :: "uint256 option"
  nHeight :: nat
  nFile :: u32
  nDataPos :: u32
  nUndoPos :: u32
  nChainWork :: limbs
  nTx :: u32
  nChainTx :: u32
  nStatus :: u32
  idx_nVersion :: u32
  idx_hashMerkleRoot :: uint256
  idx_nTime :: u32
  idx_nBits :: u32
  idx_nNonce :: u32
  nSequenceId :: u32
  nTimeMax :: u32

type_synonym BlockMap = "uint256 \<Rightarrow> CBlockIndex option"

definition CBlockIndex_null :: CBlockIndex where
  "CBlockIndex_null =
     \<lparr>phashBlock = None, pprev = None, pskip = None, nHeight = 0, nFile = 0, nDataPos = 0, nUndoPos = 0,
      nChainWork = uint_zero, nTx = 0, nChainTx = 0, nStatus = 0, idx_nVersion = 0, idx_hashMerkleRoot = uint256_null,
      idx_nTime = 0, idx_nBits = 0, idx_nNonce = 0, nSequenceId = 0, nTimeMax = 0\<rparr>"

definition CBlockIndex_of :: "'a CPureBlockHeader_scheme \<Rightarrow> CBlockIndex" where
  "CBlockIndex_of block =
     CBlockIndex_null\<lparr>idx_nVersion := hdr_nVersion block, idx_hashMerkleRoot := hashMerkleRoot block,
       idx_nTime := hdr_nTime block, idx_nBits := nBits block, idx_nNonce := nNonce block\<rparr>"

abbreviation (input) BLOCK_VALID_TREE :: u32 where "BLOCK_VALID_TREE \<equiv> 2"
abbreviation (input) BLOCK_VALID_TRANSACTIONS :: u32 where "BLOCK_VALID_TRANSACTIONS \<equiv> 3"
abbreviation (input) BLOCK_VALID_MASK :: u32 where "BLOCK_VALID_MASK \<equiv> 1 OR 2 OR 3 OR 4 OR 5"
abbreviation (input) BLOCK_HAVE_DATA :: u32 where "BLOCK_HAVE_DATA \<equiv> 8"
abbreviation (input) BLOCK_HAVE_UNDO :: u32 where "BLOCK_HAVE_UNDO \<equiv> 16"
abbreviation (input) BLOCK_FAILED_MASK :: u32 where "BLOCK_FAILED_MASK \<equiv> 32 OR 64"

definition idx_GetBlockTime :: "CBlockIndex \<Rightarrow> int" where
  "idx_GetBlockTime b = uint (idx_nTime b)"

definition GetBlockTimeMax :: "CBlockIndex \<Rightarrow> int" where
  "GetBlockTimeMax b = uint (nTimeMax b)"

abbreviation (input) nMedianTimeSpan :: nat where "nMedianTimeSpan \<equiv> 11"

text \<open>The times of a block and of its nearest ancestors, as the loop of \<open>GetMedianTimePast\<close> visits them.\<close>

fun median_times :: "BlockMap \<Rightarrow> nat \<Rightarrow> uint256 option \<Rightarrow> int list option" where
  "median_times m 0 pindex = Some []"
| "median_times m (Suc n) None = Some []"
| "median_times m (Suc n) (Some p) =
     do { b \<leftarrow> m p;
          ts \<leftarrow> median_times m n (pprev b);
          Some (idx_GetBlockTime b # ts) }"

definition GetMedianTimePast :: "BlockMap \<Rightarrow> uint256 \<Rightarrow> int option" where
  "GetMedianTimePast m p =
     do { ts \<leftarrow> median_times m nMedianTimeSpan (Some p);
          let pmedian = sort (rev ts);
          Some (pmedian ! (length pmedian div 2)) }"

text \<open>\<open>None\<close> is a failed assertion: only validity flags are allowed.\<close>

definition IsValid :: "CBlockIndex \<Rightarrow> u32 \<Rightarrow> bool option" where
  "IsValid b nUpTo =
     (if nUpTo AND NOT BLOCK_VALID_MASK \<noteq> 0 then None
      else if nStatus b AND BLOCK_FAILED_MASK \<noteq> 0 then Some False
      else Some (nStatus b AND BLOCK_VALID_MASK \<ge> nUpTo))"

definition RaiseValidity :: "CBlockIndex \<Rightarrow> u32 \<Rightarrow> (CBlockIndex \<times> bool) option" where
  "RaiseValidity b nUpTo =
     (if nUpTo AND NOT BLOCK_VALID_MASK \<noteq> 0 then None
      else if nStatus b AND BLOCK_FAILED_MASK \<noteq> 0 then Some (b, False)
      else if nStatus b AND BLOCK_VALID_MASK < nUpTo
      then Some (b\<lparr>nStatus := (nStatus b AND NOT BLOCK_VALID_MASK) OR nUpTo\<rparr>, True)
      else Some (b, False))"

section \<open>Ancestors and the skip list\<close>

definition InvertLowestOne :: "nat \<Rightarrow> nat" where
  "InvertLowestOne n = n AND (n - 1)"

definition GetSkipHeight :: "nat \<Rightarrow> nat" where
  "GetSkipHeight height =
     (if height < 2 then 0
      else if odd height then InvertLowestOne (InvertLowestOne (height - 1)) + 1
      else InvertLowestOne height)"

lemma InvertLowestOne_le: "InvertLowestOne n \<le> n - 1"
  unfolding InvertLowestOne_def by (metis and.commute and_nat_def nat_int of_nat_0_le_iff AND_upper1 nat_mono)

lemma GetSkipHeight_less: "0 < h \<Longrightarrow> GetSkipHeight h < h"
  using InvertLowestOne_le [of h] InvertLowestOne_le [of "h - 1"] InvertLowestOne_le [of "InvertLowestOne (h - 1)"]
  by (auto simp: GetSkipHeight_def)

text \<open>The loop of \<open>GetAncestor\<close>: the height walked to decreases with every step.\<close>

function ancestor_loop :: "BlockMap \<Rightarrow> uint256 \<Rightarrow> nat \<Rightarrow> nat \<Rightarrow> uint256 option" where
  "ancestor_loop m pindexWalk heightWalk height =
     (if height < heightWalk then
        (case m pindexWalk of
           None \<Rightarrow> None
         | Some b \<Rightarrow>
             let heightSkip = GetSkipHeight heightWalk;
                 heightSkipPrev = GetSkipHeight (heightWalk - 1)
             in if pskip b \<noteq> None \<and>
                   (heightSkip = height \<or>
                    heightSkip > height \<and> \<not> (heightSkipPrev + 2 < heightSkip \<and> heightSkipPrev \<ge> height))
                then ancestor_loop m (the (pskip b)) heightSkip height
                else (case pprev b of
                        None \<Rightarrow> None
                      | Some q \<Rightarrow> ancestor_loop m q (heightWalk - 1) height))
      else Some pindexWalk)"
  by pat_completeness auto
termination
  by (relation "measure (\<lambda>(m, p, h, k). h)") (auto simp: GetSkipHeight_less)

declare ancestor_loop.simps [simp del]

definition GetAncestor :: "BlockMap \<Rightarrow> uint256 \<Rightarrow> int \<Rightarrow> uint256 option option" where
  "GetAncestor m p height =
     do { b \<leftarrow> m p;
          if height > int (nHeight b) \<or> height < 0 then Some None
          else do { q \<leftarrow> ancestor_loop m p (nHeight b) (nat height); Some (Some q) } }"

definition BuildSkip :: "BlockMap \<Rightarrow> CBlockIndex \<Rightarrow> CBlockIndex option" where
  "BuildSkip m b =
     (case pprev b of
        None \<Rightarrow> Some b
      | Some p \<Rightarrow> do { q \<leftarrow> GetAncestor m p (int (GetSkipHeight (nHeight b))); Some (b\<lparr>pskip := q\<rparr>) })"

section \<open>Work\<close>

definition GetBlockProof :: "CBlockIndex \<Rightarrow> limbs option" where
  "GetBlockProof b =
     (let (bnTarget, fNegative, fOverflow) = SetCompact (idx_nBits b)
      in if fNegative \<or> fOverflow \<or> EqualTo bnTarget 0 then Some uint_zero
         else do { q \<leftarrow> uint_div (uint_compl bnTarget) (uint_add bnTarget (uint_of64 1));
                   Some (uint_add q (uint_of64 1)) })"

text \<open>The result is a signed 64-bit integer, kept as its word.\<close>

definition GetBlockProofEquivalentTime :: "CBlockIndex \<Rightarrow> CBlockIndex \<Rightarrow> CBlockIndex \<Rightarrow> u64 \<Rightarrow> u64 option" where
  "GetBlockProofEquivalentTime to from tip nPowTargetSpacing =
     (let (r, sign) = (if CompareTo (nChainWork to) (nChainWork from) > 0
                       then (uint_sub (nChainWork to) (nChainWork from), 1)
                       else (uint_sub (nChainWork from) (nChainWork to), - 1))
      in do { proof \<leftarrow> GetBlockProof tip;
              r \<leftarrow> uint_div (uint_mul r (uint_of64 nPowTargetSpacing)) proof;
              Some (if uint_bits r > 63 then sign * 0x7fffffffffffffff else sign * GetLow64 r) })"

section \<open>The active chain\<close>

text \<open>The vector of the active chain; \<open>resize\<close> fills it up with null pointers.\<close>

record CChain =
  vChain :: "uint256 option list"

definition vec_resize :: "uint256 option list \<Rightarrow> nat \<Rightarrow> uint256 option list" where
  "vec_resize v n = take n v @ replicate (n - length v) None"

definition chain_Genesis :: "CChain \<Rightarrow> uint256 option" where
  "chain_Genesis c = (if length (vChain c) > 0 then vChain c ! 0 else None)"

definition chain_Tip :: "CChain \<Rightarrow> uint256 option" where
  "chain_Tip c = (if length (vChain c) > 0 then vChain c ! (length (vChain c) - 1) else None)"

definition chain_at :: "CChain \<Rightarrow> int \<Rightarrow> uint256 option" where
  "chain_at c h = (if h < 0 \<or> h \<ge> int (length (vChain c)) then None else vChain c ! nat h)"

text \<open>The comparison reads the last elements, which an empty vector does not have.\<close>

definition chain_eq :: "CChain \<Rightarrow> CChain \<Rightarrow> bool option" where
  "chain_eq a b =
     (if length (vChain a) \<noteq> length (vChain b) then Some False
      else if vChain a = [] then None
      else Some (vChain a ! (length (vChain a) - 1) = vChain b ! (length (vChain b) - 1)))"

definition chain_Contains :: "BlockMap \<Rightarrow> CChain \<Rightarrow> uint256 \<Rightarrow> bool option" where
  "chain_Contains m c p = do { b \<leftarrow> m p; Some (chain_at c (int (nHeight b)) = Some p) }"

definition chain_Next :: "BlockMap \<Rightarrow> CChain \<Rightarrow> uint256 \<Rightarrow> uint256 option option" where
  "chain_Next m c p =
     do { b \<leftarrow> m p;
          inside \<leftarrow> chain_Contains m c p;
          Some (if inside then chain_at c (int (nHeight b) + 1) else None) }"

definition chain_Height :: "CChain \<Rightarrow> int" where
  "chain_Height c = int (length (vChain c)) - 1"

partial_function (option) SetTip_loop :: "BlockMap \<Rightarrow> uint256 option \<Rightarrow> uint256 option list \<Rightarrow> uint256 option list option" where
  "SetTip_loop m pindex v =
     (case pindex of
        None \<Rightarrow> Some v
      | Some p \<Rightarrow>
          Option.bind (m p) (\<lambda>b.
            if nHeight b \<ge> length v then None
            else if v ! nHeight b = Some p then Some v
            else SetTip_loop m (pprev b) (v[nHeight b := Some p])))"

definition SetTip :: "BlockMap \<Rightarrow> uint256 option \<Rightarrow> CChain \<Rightarrow> CChain option" where
  "SetTip m pindex c =
     (case pindex of
        None \<Rightarrow> Some (c\<lparr>vChain := []\<rparr>)
      | Some p \<Rightarrow>
          do { b \<leftarrow> m p;
               v \<leftarrow> SetTip_loop m (Some p) (vec_resize (vChain c) (nHeight b + 1));
               Some (c\<lparr>vChain := v\<rparr>) })"

partial_function (option) locator_loop :: "BlockMap \<Rightarrow> CChain \<Rightarrow> uint256 option \<Rightarrow> int \<Rightarrow> uint256 list \<Rightarrow> uint256 list option" where
  "locator_loop m c pindex nStep vHave =
     (case pindex of
        None \<Rightarrow> Some vHave
      | Some p \<Rightarrow>
          Option.bind (m p) (\<lambda>b.
          Option.bind (phashBlock b) (\<lambda>h.
            let vHave = vHave @ [h] in
            if nHeight b = 0 then Some vHave
            else
              let height = max (int (nHeight b) - nStep) 0 in
              Option.bind (chain_Contains m c p) (\<lambda>inside.
              Option.bind (if inside then Some (chain_at c height) else GetAncestor m p height) (\<lambda>q.
                locator_loop m c q (if length vHave > 10 then nStep * 2 else nStep) vHave)))))"

definition GetLocator :: "BlockMap \<Rightarrow> CChain \<Rightarrow> uint256 option \<Rightarrow> uint256 list option" where
  "GetLocator m c pindex = locator_loop m c (if pindex = None then chain_Tip c else pindex) 1 []"

partial_function (option) FindFork_loop :: "BlockMap \<Rightarrow> CChain \<Rightarrow> uint256 option \<Rightarrow> uint256 option option" where
  "FindFork_loop m c pindex =
     (case pindex of
        None \<Rightarrow> Some None
      | Some p \<Rightarrow>
          Option.bind (chain_Contains m c p) (\<lambda>inside.
            if inside then Some (Some p) else Option.bind (m p) (\<lambda>b. FindFork_loop m c (pprev b))))"

definition FindFork :: "BlockMap \<Rightarrow> CChain \<Rightarrow> uint256 option \<Rightarrow> uint256 option option" where
  "FindFork m c pindex =
     (case pindex of
        None \<Rightarrow> Some None
      | Some p \<Rightarrow>
          do { b \<leftarrow> m p;
               start \<leftarrow> if int (nHeight b) > chain_Height c then GetAncestor m p (chain_Height c) else Some (Some p);
               FindFork_loop m c start })"

text \<open>The binary search of \<open>std::lower_bound\<close> over the vector of the chain.\<close>

function lower_bound_time :: "BlockMap \<Rightarrow> uint256 option list \<Rightarrow> int \<Rightarrow> nat \<Rightarrow> nat \<Rightarrow> nat option" where
  "lower_bound_time m v nTime first count =
     (if count = 0 then Some first
      else
        let step = count div 2;
            it = first + step
        in if it \<ge> length v then None
           else case v ! it of
             None \<Rightarrow> None
           | Some p \<Rightarrow>
               (case m p of
                  None \<Rightarrow> None
                | Some b \<Rightarrow>
                    if GetBlockTimeMax b < nTime
                    then lower_bound_time m v nTime (it + 1) (count - (step + 1))
                    else lower_bound_time m v nTime first step))"
  by pat_completeness auto
termination
  by (relation "measure (\<lambda>(m, v, t, first, count). count)") auto

declare lower_bound_time.simps [simp del]

definition FindEarliestAtLeast :: "BlockMap \<Rightarrow> CChain \<Rightarrow> int \<Rightarrow> uint256 option option" where
  "FindEarliestAtLeast m c nTime =
     do { lower \<leftarrow> lower_bound_time m (vChain c) nTime 0 (length (vChain c));
          Some (if lower = length (vChain c) then None else vChain c ! lower) }"

section \<open>Work of a block\<close>

text \<open>\<open>(2^256 - t - 1) div (t + 1) + 1\<close> is \<open>2^256 div (t + 1)\<close>, and it fits into 256 bits for a positive target.\<close>

lemma GetBlockProof_value:
  assumes "SetCompact (idx_nBits b) = (t, neg, ovf)"
  shows "\<exists>w. GetBlockProof b = Some w \<and> length w = WIDTH
    \<and> uval w = (if neg \<or> ovf \<or> compact_nat (idx_nBits b) = 0 then 0 else 2 ^ 256 div (compact_nat (idx_nBits b) + 1))"
proof (cases "neg \<or> ovf \<or> compact_nat (idx_nBits b) = 0")
  case True
  then have "neg \<or> ovf \<or> EqualTo t 0" using SetCompact_nat(1,2) [OF assms] by (cases ovf) (auto simp: EqualTo_iff)
  then have "GetBlockProof b = Some uint_zero" using assms by (auto simp: GetBlockProof_def)
  then show ?thesis using True by (simp add: uint_zero_def)
next
  case False
  define n where "n = compact_nat (idx_nBits b)"
  define M :: nat where "M = 2 ^ 256"
  note t = SetCompact_nat(1) [OF assms] SetCompact_nat(2,3) [OF assms, folded n_def M_def]
  have M: "2 ^ (32 * length t) = M" using t(1) by (simp only: M_def) simp
  have n: "uval t = n" "n + 1 < M" "n \<noteq> 0" using False t by (auto simp: n_def)
  have plus: "uval (uint_add t (uint_of64 1)) = n + 1" "length (uint_add t (uint_of64 1)) = length t"
    using n uval_add [of t "uint_of64 1", unfolded M] by (simp_all add: uval_uint_of64 t(1))
  have compl: "uval (uint_compl t) = M - (n + 1)" "length (uint_compl t) = length t"
    using uval_compl [of t, unfolded M n(1)] by (simp_all add: uint_compl_def)
  obtain q where q: "uint_div (uint_compl t) (uint_add t (uint_of64 1)) = Some q"
    using uint_div_correct(1) [of "uint_compl t" "uint_add t (uint_of64 1)"] compl plus by (cases "uint_div (uint_compl t) (uint_add t (uint_of64 1))") auto
  have uq: "uval q = (M - (n + 1)) div (n + 1)" "length q = length t"
    using uint_div_correct(2) [OF _ q] compl plus by simp_all
  have "M = (M - (n + 1)) + (n + 1)" using n(2) by simp
  then have sum: "M div (n + 1) = uval q + 1" unfolding uq(1) by (metis add_gr_0 div_add_self2 less_numeral_extra(1) less_numeral_extra(3) nat_neq_iff)
  have "M div (n + 1) < M" using n by (intro div_less_dividend) auto
  then have "uval (uint_add q (uint_of64 1)) = M div (n + 1)"
    using uval_add [of q "uint_of64 1"] M unfolding uq(2) sum by (simp add: uval_uint_of64 t(1) uq(2))
  moreover have "GetBlockProof b = Some (uint_add q (uint_of64 1))"
    using False q assms n by (simp add: GetBlockProof_def EqualTo_iff t(1))
  ultimately show ?thesis using False by (simp add: M_def n_def uq(2) t(1) uval_uint_of64(2) del: power_numeral)
qed

section \<open>Ancestors\<close>

text \<open>The ancestor reached by following \<open>pprev\<close> a number of times: what \<open>GetAncestor\<close> is meant to find.\<close>

fun nth_prev :: "BlockMap \<Rightarrow> uint256 \<Rightarrow> nat \<Rightarrow> uint256 option" where
  "nth_prev m p 0 = Some p"
| "nth_prev m p (Suc n) = do { b \<leftarrow> m p; q \<leftarrow> pprev b; nth_prev m q n }"

text \<open>
  The invariant of the block index. An entry is held under its own hash; an entry without predecessor has height 0; the
  predecessor of another entry is in the map, one block lower; the skip pointer leads to the ancestor at the skip height;
  the maximal time and the work of the chain are accumulated along the predecessors.
\<close>

definition entry_ok :: "BlockMap \<Rightarrow> uint256 \<Rightarrow> CBlockIndex \<Rightarrow> bool" where
  "entry_ok m p b \<longleftrightarrow>
     phashBlock b = Some p
     \<and> (case pprev b of
          None \<Rightarrow> nHeight b = 0 \<and> pskip b = None \<and> nTimeMax b = idx_nTime b
            \<and> Some (nChainWork b) = map_option (uint_add uint_zero) (GetBlockProof b)
        | Some q \<Rightarrow> (case m q of
            None \<Rightarrow> False
          | Some c \<Rightarrow> nHeight b = nHeight c + 1
              \<and> pskip b = nth_prev m p (nHeight b - GetSkipHeight (nHeight b))
              \<and> nTimeMax b = max (nTimeMax c) (idx_nTime b)
              \<and> Some (nChainWork b) = map_option (uint_add (nChainWork c)) (GetBlockProof b)))"

definition index_ok :: "BlockMap \<Rightarrow> bool" where
  "index_ok m \<longleftrightarrow> (\<forall>p b. m p = Some b \<longrightarrow> entry_ok m p b)"

lemma index_okD: "index_ok m \<Longrightarrow> m p = Some b \<Longrightarrow> entry_ok m p b"
  by (simp add: index_ok_def)

lemma phashBlock_ok: "index_ok m \<Longrightarrow> m p = Some b \<Longrightarrow> phashBlock b = Some p"
  using index_okD [of m p b] by (simp add: entry_ok_def)

lemma pprev_cases:
  assumes "index_ok m" and "m p = Some b"
  obtains "pprev b = None" "nHeight b = 0"
  | q c where "pprev b = Some q" "m q = Some c" "nHeight b = Suc (nHeight c)"
  using index_okD [OF assms] by (auto simp: entry_ok_def split: option.splits)

lemma pprev_None_iff: "index_ok m \<Longrightarrow> m p = Some b \<Longrightarrow> pprev b = None \<longleftrightarrow> nHeight b = 0"
  by (elim pprev_cases [of m p b]) auto

lemma pskip_back:
  "index_ok m \<Longrightarrow> m p = Some b \<Longrightarrow> pskip b = Some s \<Longrightarrow> nth_prev m p (nHeight b - GetSkipHeight (nHeight b)) = Some s"
  using index_okD [of m p b] by (auto simp: entry_ok_def split: option.splits)

lemma back_add: "nth_prev m p (i + j) = Option.bind (nth_prev m p i) (\<lambda>q. nth_prev m q j)"
  by (induction i arbitrary: p) (auto split: bind_splits)

lemma back_1: "m p = Some b \<Longrightarrow> nth_prev m p (Suc 0) = pprev b"
  by (cases "pprev b") auto

lemma back_Suc_right: "nth_prev m p (Suc n) = do { q \<leftarrow> nth_prev m p n; c \<leftarrow> m q; pprev c }"
proof -
  have "nth_prev m q (Suc 0) = do { c \<leftarrow> m q; pprev c }" for q by (cases "m q") (auto simp: back_1 split: bind_splits)
  then show ?thesis using back_add [of m p n "Suc 0"] by simp
qed

lemma back_height:
  assumes "index_ok m" and "m p = Some b" and "n \<le> nHeight b"
  shows "\<exists>q c. nth_prev m p n = Some q \<and> m q = Some c \<and> nHeight c = nHeight b - n"
  using assms(2,3)
proof (induction n arbitrary: p b)
  case (Suc n)
  then obtain q c where q: "pprev b = Some q" "m q = Some c" "nHeight b = Suc (nHeight c)"
    using assms(1) by (elim pprev_cases [of m p b]) auto
  then show ?case using Suc.IH [of q c] Suc.prems by auto
qed auto

lemma back_None:
  assumes "index_ok m" and "m p = Some b" and "nHeight b < n"
  shows "nth_prev m p n = None"
  using assms(2,3)
proof (induction n arbitrary: p b)
  case (Suc n)
  then show ?case using assms(1) by (elim pprev_cases [of m p b]) auto
qed simp

lemma ancestor_loop_back:
  assumes "index_ok m" and "m p = Some b" and "k \<le> nHeight b"
  shows "ancestor_loop m p (nHeight b) k = nth_prev m p (nHeight b - k)"
  using assms(2,3)
proof (induction "nHeight b" arbitrary: p b rule: less_induct)
  case less
  show ?case
  proof (cases "k < nHeight b")
    case True
    then obtain q c where q: "pprev b = Some q" "m q = Some c" "nHeight b = Suc (nHeight c)"
      using assms(1) less.prems by (elim pprev_cases [of m p b]) auto
    have walk: "ancestor_loop m q (nHeight b - 1) k = nth_prev m p (nHeight b - k)"
      using less.hyps [of c q] q less.prems True by (simp add: Suc_diff_le)
    have skip: "ancestor_loop m s (GetSkipHeight (nHeight b)) k = nth_prev m p (nHeight b - k)"
      if s: "pskip b = Some s" and k: "k \<le> GetSkipHeight (nHeight b)" for s
    proof -
      have less': "GetSkipHeight (nHeight b) < nHeight b" using True by (intro GetSkipHeight_less) simp
      have b: "nth_prev m p (nHeight b - GetSkipHeight (nHeight b)) = Some s" by (rule pskip_back [OF assms(1) less.prems(1) s])
      then obtain e where e: "m s = Some e" "nHeight e = GetSkipHeight (nHeight b)"
        using back_height [OF assms(1) less.prems(1), of "nHeight b - GetSkipHeight (nHeight b)"] less' by auto
      have "nHeight b - k = (nHeight b - GetSkipHeight (nHeight b)) + (GetSkipHeight (nHeight b) - k)" using k less' by simp
      then have "nth_prev m p (nHeight b - k) = nth_prev m s (GetSkipHeight (nHeight b) - k)" using b by (simp add: back_add)
      then show ?thesis using less.hyps [of e s] e less' k by simp
    qed
    show ?thesis using True less.prems(1) q(1) walk skip
      by (subst ancestor_loop.simps) (auto simp: Let_def)
  next
    case False
    then show ?thesis using less.prems by (subst ancestor_loop.simps) simp
  qed
qed

lemma GetAncestor_back:
  assumes "index_ok m" and "m p = Some b"
  shows "GetAncestor m p h = Some (if 0 \<le> h \<and> h \<le> int (nHeight b) then nth_prev m p (nHeight b - nat h) else None)"
proof (cases "0 \<le> h \<and> h \<le> int (nHeight b)")
  case True
  moreover obtain q where "nth_prev m p (nHeight b - nat h) = Some q" using back_height [OF assms, of "nHeight b - nat h"] by auto
  ultimately show ?thesis using assms ancestor_loop_back [OF assms, of "nat h"] by (simp add: GetAncestor_def nat_le_iff)
next
  case False
  then show ?thesis using assms by (auto simp: GetAncestor_def)
qed

section \<open>The active chain\<close>

text \<open>The blocks from the genesis block to a block, by height: what the vector of the active chain is meant to hold.\<close>

definition ancestry :: "BlockMap \<Rightarrow> uint256 \<Rightarrow> uint256 option list" where
  "ancestry m p = (case m p of None \<Rightarrow> [] | Some b \<Rightarrow> map (\<lambda>i. nth_prev m p (nHeight b - i)) [0..<Suc (nHeight b)])"

definition chain_ok :: "BlockMap \<Rightarrow> CChain \<Rightarrow> bool" where
  "chain_ok m c \<longleftrightarrow> vChain c = [] \<or> (\<exists>p. m p \<noteq> None \<and> vChain c = ancestry m p)"

lemma length_ancestry: "m p = Some b \<Longrightarrow> length (ancestry m p) = Suc (nHeight b)"
  by (simp add: ancestry_def)

lemma ancestry_nth: "m p = Some b \<Longrightarrow> i \<le> nHeight b \<Longrightarrow> ancestry m p ! i = nth_prev m p (nHeight b - i)"
  by (simp add: ancestry_def nth_append del: upt_Suc)

text \<open>Below the height that \<open>SetTip\<close> has reached, what is left of the old chain is closed under predecessors.\<close>

definition closed_below :: "BlockMap \<Rightarrow> uint256 option list \<Rightarrow> nat \<Rightarrow> bool" where
  "closed_below m v h \<longleftrightarrow> (\<forall>i\<le>h. \<forall>q. v ! i = Some q \<longrightarrow> (\<forall>j\<le>i. v ! j = nth_prev m q (i - j)))"

lemma SetTip_loop_correct:
  assumes "index_ok m" and "m p = Some b" and "nHeight b < length v" and "closed_below m v (nHeight b)"
  shows "SetTip_loop m (Some p) v = Some (ancestry m p @ drop (Suc (nHeight b)) v)"
  using assms(2-4)
proof (induction "nHeight b" arbitrary: p b v)
  case 0
  then have [simp]: "pprev b = None" using pprev_None_iff [OF assms(1)] by simp
  have "ancestry m p = [Some p]" using 0 by (simp add: ancestry_def)
  moreover have "v = v ! 0 # drop (Suc 0) v" using 0 by (simp add: Cons_nth_drop_Suc)
  then have "v[0 := Some p] = Some p # drop (Suc 0) v" by (metis list_update_code(2))
  moreover have "v ! 0 = Some p \<Longrightarrow> v = Some p # drop (Suc 0) v" using \<open>v = v ! 0 # drop (Suc 0) v\<close> by simp
  ultimately show ?case using 0 by (subst SetTip_loop.simps) (simp add: SetTip_loop.simps)
next
  case (Suc h)
  obtain q c where q: "pprev b = Some q" "m q = Some c" "nHeight b = Suc (nHeight c)"
    using assms(1) Suc.prems(1) Suc.hyps(2) by (elim pprev_cases [of m p b]) auto
  have path: "ancestry m p = ancestry m q @ [Some p]"
  proof -
    have "nth_prev m p (nHeight b - i) = nth_prev m q (nHeight c - i)" if "i < Suc (nHeight c)" for i
      using that Suc.prems(1) q by (simp add: Suc_diff_le)
    then show ?thesis using Suc.prems(1) q by (simp add: ancestry_def)
  qed
  show ?case
  proof (cases "v ! nHeight b = Some p")
    case True
    have "v = ancestry m p @ drop (Suc (nHeight b)) v"
    proof -
      have "take (Suc (nHeight b)) v = ancestry m p"
        using Suc.prems True by (intro nth_equalityI) (auto simp: length_ancestry ancestry_nth closed_below_def less_Suc_eq_le)
      then show ?thesis by (metis append_take_drop_id)
    qed
    then show ?thesis using True Suc.prems by (subst SetTip_loop.simps) simp
  next
    case False
    have "closed_below m (v[nHeight b := Some p]) (nHeight c)" using Suc.prems(3) q(3) by (auto simp: closed_below_def)
    moreover have "drop (Suc (nHeight c)) (v[nHeight b := Some p]) = Some p # drop (Suc (nHeight b)) v"
      using Suc.prems(2) q(3) by (simp add: drop_update_swap Cons_nth_drop_Suc [symmetric])
    ultimately have "SetTip_loop m (Some q) (v[nHeight b := Some p]) = Some (ancestry m p @ drop (Suc (nHeight b)) v)"
      using Suc.hyps(1) [of c q "v[nHeight b := Some p]"] Suc.hyps(2) Suc.prems(2) q path by simp
    then show ?thesis using False Suc.prems q(1) by (subst SetTip_loop.simps) simp
  qed
qed

lemma closed_below_resize:
  assumes "chain_ok m c" and "index_ok m"
  shows "closed_below m (vec_resize (vChain c) (Suc h)) h"
  unfolding closed_below_def
proof (intro allI impI)
  fix i q j
  assume i: "i \<le> h" and q: "vec_resize (vChain c) (Suc h) ! i = Some q" and j: "j \<le> i"
  have len: "i < length (vChain c)" using i q by (auto simp: vec_resize_def nth_append split: if_splits)
  then obtain t tb where t: "m t = Some tb" "vChain c = ancestry m t" using assms(1) by (auto simp: chain_ok_def)
  have h: "i \<le> nHeight tb" "j \<le> nHeight tb" using len t j by (simp_all add: length_ancestry)
  have "nth_prev m t (nHeight tb - i) = Some q"
    using q i len t h by (simp add: vec_resize_def nth_append ancestry_nth split: if_splits)
  moreover have "nHeight tb - j = (nHeight tb - i) + (i - j)" using h j by simp
  ultimately have "nth_prev m t (nHeight tb - j) = nth_prev m q (i - j)" by (simp add: back_add)
  then show "vec_resize (vChain c) (Suc h) ! j = nth_prev m q (i - j)"
    using i j len t h by (simp add: vec_resize_def nth_append ancestry_nth)
qed

lemma SetTip_ancestry:
  assumes "index_ok m" and "chain_ok m c" and "m p = Some b"
  shows "SetTip m (Some p) c = Some (c\<lparr>vChain := ancestry m p\<rparr>)"
  using SetTip_loop_correct [OF assms(1,3) _ closed_below_resize [OF assms(2,1)]] assms(3)
  by (simp add: SetTip_def vec_resize_def)

text \<open>The genesis block apart, a block is contained when the tip descends from it.\<close>

definition descends :: "BlockMap \<Rightarrow> uint256 \<Rightarrow> uint256 \<Rightarrow> bool" where
  "descends m p q \<longleftrightarrow> (\<exists>n. nth_prev m p n = Some q)"

lemma descends_refl [simp]: "descends m p p"
  unfolding descends_def by (rule exI [of _ 0]) simp

lemma descends_trans: "descends m p q \<Longrightarrow> descends m q r \<Longrightarrow> descends m p r"
proof -
  assume "descends m p q" "descends m q r"
  then obtain i j where "nth_prev m p i = Some q" "nth_prev m q j = Some r" by (auto simp: descends_def)
  then have "nth_prev m p (i + j) = Some r" by (simp add: back_add)
  then show ?thesis by (auto simp: descends_def)
qed

lemma descends_height:
  assumes "index_ok m" and "m p = Some b" and "descends m p q"
  shows "\<exists>c. m q = Some c \<and> nHeight c \<le> nHeight b \<and> nth_prev m p (nHeight b - nHeight c) = Some q"
proof -
  obtain n where n: "nth_prev m p n = Some q" using assms(3) by (auto simp: descends_def)
  then have le: "n \<le> nHeight b" using back_None [OF assms(1,2), of n] by (cases "n \<le> nHeight b") auto
  then obtain c where "m q = Some c" "nHeight c = nHeight b - n" using back_height [OF assms(1,2) le] n by auto
  then show ?thesis using n le by auto
qed

lemma descends_pprev:
  assumes "index_ok m" and "m p = Some b" and "pprev b = Some q"
  shows "descends m p r \<longleftrightarrow> r = p \<or> descends m q r"
proof
  assume "descends m p r"
  then obtain n where "nth_prev m p n = Some r" by (auto simp: descends_def)
  then show "r = p \<or> descends m q r" using assms by (cases n) (auto simp: descends_def)
next
  have "descends m p q" unfolding descends_def using assms by (intro exI [of _ "Suc 0"]) simp
  then show "r = p \<or> descends m q r \<Longrightarrow> descends m p r" using descends_trans by auto
qed

lemma Contains_iff:
  assumes "index_ok m" and "m t = Some tb" and "vChain c = ancestry m t" and "m p = Some b"
  shows "chain_Contains m c p = Some (descends m t p)"
proof -
  have "chain_at c (int (nHeight b)) = Some p \<longleftrightarrow> nHeight b \<le> nHeight tb \<and> nth_prev m t (nHeight tb - nHeight b) = Some p"
    using assms(2,3) by (auto simp: chain_at_def length_ancestry ancestry_nth)
  also have "\<dots> \<longleftrightarrow> descends m t p"
    using descends_height [OF assms(1,2), of p] assms(4) by (auto simp: descends_def)
  finally show ?thesis using assms(4) by (simp add: chain_Contains_def)
qed

text \<open>The last common block of two branches.\<close>

definition last_common :: "BlockMap \<Rightarrow> uint256 \<Rightarrow> uint256 \<Rightarrow> uint256 option \<Rightarrow> bool" where
  "last_common m p t r \<longleftrightarrow>
     (case r of
        None \<Rightarrow> \<forall>q. \<not> (descends m p q \<and> descends m t q)
      | Some q \<Rightarrow> descends m p q \<and> descends m t q \<and> (\<forall>q'. descends m p q' \<and> descends m t q' \<longrightarrow> descends m q q'))"

lemma FindFork_loop_correct:
  assumes "index_ok m" and "m t = Some tb" and "vChain c = ancestry m t" and "m p = Some b"
  shows "\<exists>r. FindFork_loop m c (Some p) = Some r \<and> last_common m p t r"
  using assms(4)
proof (induction "nHeight b" arbitrary: p b)
  case 0
  then have none: "pprev b = None" using pprev_None_iff [OF assms(1)] by simp
  have "descends m p q \<longleftrightarrow> q = p" for q
  proof
    assume "descends m p q"
    then obtain n where "nth_prev m p n = Some q" by (auto simp: descends_def)
    then show "q = p" using 0 none by (cases n) auto
  qed simp
  then show ?case using 0 none Contains_iff [OF assms(1-3) 0(2)]
    by (subst FindFork_loop.simps) (auto simp: FindFork_loop.simps last_common_def)
next
  case (Suc h)
  obtain q e where q: "pprev b = Some q" "m q = Some e" "nHeight b = Suc (nHeight e)"
    using assms(1) Suc.prems(1) Suc.hyps(2) by (elim pprev_cases [of m p b]) auto
  obtain r where r: "FindFork_loop m c (Some q) = Some r" "last_common m q t r"
    using Suc.hyps(1) [of e q] Suc.hyps(2) q by auto
  note step = descends_pprev [OF assms(1) Suc.prems q(1)]
  show ?case
  proof (cases "descends m t p")
    case True
    then show ?thesis using Contains_iff [OF assms(1-3) Suc.prems]
      by (subst FindFork_loop.simps) (simp add: last_common_def)
  next
    case False
    then have "last_common m p t r" using r(2) step by (auto simp: last_common_def split: option.splits)
    then show ?thesis using False Contains_iff [OF assms(1-3) Suc.prems] Suc.prems q(1) r(1)
      by (subst FindFork_loop.simps) simp
  qed
qed

lemma FindFork_correct:
  assumes "index_ok m" and "m t = Some tb" and "vChain c = ancestry m t" and "m p = Some b"
  shows "\<exists>r. FindFork m c (Some p) = Some r \<and> last_common m p t r"
proof (cases "nHeight tb < nHeight b")
  case True
  have len: "chain_Height c = int (nHeight tb)" using assms by (simp add: chain_Height_def length_ancestry)
  obtain a e where a: "nth_prev m p (nHeight b - nHeight tb) = Some a" "m a = Some e" "nHeight e = nHeight tb"
    using back_height [OF assms(1,4), of "nHeight b - nHeight tb"] True by auto
  have anc: "GetAncestor m p (int (nHeight tb)) = Some (Some a)" using GetAncestor_back [OF assms(1,4)] a(1) True by simp
  obtain r where r: "FindFork_loop m c (Some a) = Some r" "last_common m a t r"
    using FindFork_loop_correct [OF assms(1-3) a(2)] by auto
  have "descends m p q \<longleftrightarrow> descends m a q" if tq: "descends m t q" for q
  proof
    assume q: "descends m p q"
    obtain f where f: "m q = Some f" "nHeight f \<le> nHeight tb" using descends_height [OF assms(1,2) tq] by auto
    have n: "nth_prev m p (nHeight b - nHeight f) = Some q" using descends_height [OF assms(1,4) q] f(1) by auto
    have "nHeight b - nHeight f = (nHeight b - nHeight tb) + (nHeight tb - nHeight f)" using f(2) True by simp
    then have "nth_prev m a (nHeight tb - nHeight f) = Some q" using n a(1) by (simp add: back_add)
    then show "descends m a q" by (auto simp: descends_def)
  next
    have "descends m p a" using a(1) by (auto simp: descends_def)
    then show "descends m a q \<Longrightarrow> descends m p q" by (rule descends_trans)
  qed
  then have "last_common m p t r" using r(2) by (auto simp: last_common_def split: option.splits)
  then show ?thesis using True anc r(1) assms(4) len by (simp add: FindFork_def)
next
  case False
  then show ?thesis using FindFork_loop_correct [OF assms] assms by (simp add: FindFork_def chain_Height_def length_ancestry)
qed

section \<open>Locators\<close>

text \<open>
  The heights of the blocks of a locator: single steps back for ten blocks, then steps that double, and the genesis block.
\<close>

function locator_heights :: "nat \<Rightarrow> nat \<Rightarrow> nat \<Rightarrow> nat list" where
  "locator_heights h s n =
     (if h = 0 \<or> s = 0 then [h] else h # locator_heights (h - s) (if n + 1 > 10 then s * 2 else s) (n + 1))"
  by pat_completeness auto
termination
  by (relation "measure (\<lambda>(h, s, n). h)") auto

declare locator_heights.simps [simp del]

lemma locator_heights_le: "k \<in> set (locator_heights h s n) \<Longrightarrow> k \<le> h"
proof (induction h s n rule: locator_heights.induct)
  case (1 h s n)
  show ?case
  proof (cases "h = 0 \<or> s = 0")
    case False
    then have "k = h \<or> k \<in> set (locator_heights (h - s) (if n + 1 > 10 then s * 2 else s) (n + 1))"
      using 1 locator_heights.simps [of h s n] by simp
    then show ?thesis using 1(1) [OF False] by auto
  qed (use 1 locator_heights.simps [of h s n] in simp)
qed

lemma locator_heights_shape:
  "0 < s \<Longrightarrow> locator_heights h s n \<noteq> [] \<and> hd (locator_heights h s n) = h \<and> last (locator_heights h s n) = 0
     \<and> sorted_wrt (>) (locator_heights h s n)"
proof (induction h s n rule: locator_heights.induct)
  case (1 h s n)
  show ?case
  proof (cases "h = 0 \<or> s = 0")
    case False
    define s' where "s' = (if n + 1 > 10 then s * 2 else s)"
    have IH: "locator_heights (h - s) s' (n + 1) \<noteq> [] \<and> last (locator_heights (h - s) s' (n + 1)) = 0
        \<and> sorted_wrt (>) (locator_heights (h - s) s' (n + 1))"
      using 1 False unfolding s'_def by simp
    have "k < h" if "k \<in> set (locator_heights (h - s) s' (n + 1))" for k
      using locator_heights_le [OF that] False 1 by linarith
    then show ?thesis using IH False locator_heights.simps [of h s n] by (simp add: s'_def)
  qed (use 1 locator_heights.simps [of h s n] in auto)
qed

lemma length_locator_doubling:
  "0 < s \<Longrightarrow> 10 \<le> n \<Longrightarrow> length (locator_heights h s n) = 1 \<or> s * 2 ^ (length (locator_heights h s n) - 2) < h + s"
proof (induction h s n rule: locator_heights.induct)
  case (1 h s n)
  show ?case
  proof (cases "h = 0")
    case False
    define L where "L = length (locator_heights (h - s) (s * 2) (n + 1))"
    have len: "length (locator_heights h s n) = Suc L"
      using False 1 locator_heights.simps [of h s n] by (simp add: L_def)
    have IH: "L = 1 \<or> s * 2 * 2 ^ (L - 2) < h - s + s * 2" using 1 False by (simp add: L_def)
    show ?thesis
    proof (cases "L = 1")
      case False
      have "L \<noteq> 0" using locator_heights_shape [of "s * 2" "h - s" "n + 1"] 1 by (simp add: L_def)
      then have L: "L = Suc (Suc (L - 2))" using False by simp
      have "s < h"
      proof (rule ccontr)
        assume "\<not> s < h"
        then have "L = 1" by (simp add: L_def locator_heights.simps)
        then show False using False by simp
      qed
      have two: "s * 2 ^ (Suc L - 2) = s * 2 * 2 ^ (L - 2)" by (subst (1) L) simp
      have "s * 2 * 2 ^ (L - 2) < h + s" using IH False \<open>s < h\<close> by simp
      then show ?thesis unfolding len two by blast
    qed (use False 1 len in simp)
  qed (simp add: locator_heights.simps)
qed

lemma length_locator_heights:
  "n \<le> 10 \<Longrightarrow> length (locator_heights h 1 n) \<le> 12 - n \<or> 2 ^ (length (locator_heights h 1 n) + n - 12) \<le> h"
proof (induction "10 - n" arbitrary: h n)
  case 0
  then show ?case using length_locator_doubling [of 1 n h] by auto
next
  case (Suc d)
  show ?case
  proof (cases "h = 0")
    case False
    have "length (locator_heights h 1 n) = Suc (length (locator_heights (h - 1) 1 (Suc n)))"
      using False Suc(2) by (subst locator_heights.simps) auto
    moreover have "length (locator_heights (h - 1) 1 (Suc n)) \<le> 12 - Suc n
        \<or> 2 ^ (length (locator_heights (h - 1) 1 (Suc n)) + Suc n - 12) \<le> h - 1"
      using Suc.hyps(1) [of "Suc n" "h - 1"] Suc.hyps(2) by simp
    ultimately show ?thesis using Suc(2) by auto
  qed (use Suc in \<open>simp add: locator_heights.simps\<close>)
qed

lemma Contains_at:
  assumes "index_ok m" and "chain_ok m c" and "m p = Some b"
  obtains inside where "chain_Contains m c p = Some inside"
    and "\<And>k. inside \<Longrightarrow> k \<le> nHeight b \<Longrightarrow> chain_at c (int k) = nth_prev m p (nHeight b - k)"
proof (cases "chain_at c (int (nHeight b)) = Some p")
  case True
  then obtain t tb where t: "m t = Some tb" "vChain c = ancestry m t" and le: "nHeight b < length (vChain c)"
    using assms(2) by (auto simp: chain_ok_def chain_at_def split: if_splits)
  have p: "nth_prev m t (nHeight tb - nHeight b) = Some p" using True t le by (simp add: chain_at_def length_ancestry ancestry_nth)
  have "chain_at c (int k) = nth_prev m p (nHeight b - k)" if k: "k \<le> nHeight b" for k
  proof -
    have "nHeight tb - k = (nHeight tb - nHeight b) + (nHeight b - k)" using k le t by (simp add: length_ancestry)
    then have "nth_prev m t (nHeight tb - k) = nth_prev m p (nHeight b - k)" using p by (simp add: back_add)
    then show ?thesis using k le t by (simp add: chain_at_def length_ancestry ancestry_nth)
  qed
  then show thesis using that [of True] True assms(3) by (simp add: chain_Contains_def)
next
  case False
  then show thesis using that [of False] assms(3) by (simp add: chain_Contains_def)
qed

lemma locator_loop_correct:
  assumes "index_ok m" and "chain_ok m c" and "m p = Some b" and "0 < s"
  shows "locator_loop m c (Some p) (int s) vHave =
    Some (vHave @ map (\<lambda>k. the (nth_prev m p (nHeight b - k))) (locator_heights (nHeight b) s (length vHave)))"
  using assms(3,4)
proof (induction "nHeight b" s "length vHave" arbitrary: p b vHave rule: locator_heights.induct)
  case (1 s)
  have h: "phashBlock b = Some p" by (rule phashBlock_ok [OF assms(1) 1(2)])
  obtain inside where ins: "chain_Contains m c p = Some inside"
      "\<And>k. inside \<Longrightarrow> k \<le> nHeight b \<Longrightarrow> chain_at c (int k) = nth_prev m p (nHeight b - k)"
    by (rule Contains_at [OF assms(1,2) 1(2)]) blast
  show ?case
  proof (cases "nHeight b = 0")
    case True
    then show ?thesis using 1(2) h by (simp add: locator_loop.simps locator_heights.simps)
  next
    case False
    define k where "k = nHeight b - s"
    define s' where "s' = (if length vHave + 1 > 10 then s * 2 else s)"
    have kk: "max (int (nHeight b) - int s) 0 = int k" by (simp add: k_def)
    obtain q e where q: "nth_prev m p (nHeight b - k) = Some q" "m q = Some e" "nHeight e = k"
      using back_height [OF assms(1) 1(2), of "nHeight b - k"] by (auto simp: k_def)
    have next_block: "(if inside then Some (chain_at c (int k)) else GetAncestor m p (int k)) = Some (Some q)"
      using ins(2) [of k] GetAncestor_back [OF assms(1) 1(2), of "int k"] q(1) by (auto simp: k_def)
    have step: "(if 10 < length (vHave @ [p]) then int s * 2 else int s) = int s'" by (simp add: s'_def)
    have IH: "locator_loop m c (Some q) (int s') (vHave @ [p]) =
        Some ((vHave @ [p]) @ map (\<lambda>i. the (nth_prev m q (k - i))) (locator_heights k s' (length vHave + 1)))"
      using 1(1) [of e "vHave @ [p]" q] False 1(3) q by (simp add: s'_def k_def)
    have map_eq: "map (\<lambda>i. the (nth_prev m q (k - i))) (locator_heights k s' (length vHave + 1)) =
        map (\<lambda>i. the (nth_prev m p (nHeight b - i))) (locator_heights k s' (length vHave + 1))"
    proof (rule map_cong [OF refl])
      fix i assume "i \<in> set (locator_heights k s' (length vHave + 1))"
      then have "i \<le> k" by (rule locator_heights_le)
      moreover have "k \<le> nHeight b" by (simp add: k_def)
      ultimately have "nHeight b - i = (nHeight b - k) + (k - i)" by linarith
      then show "the (nth_prev m q (k - i)) = the (nth_prev m p (nHeight b - i))" using q(1) by (simp add: back_add)
    qed
    have heights: "locator_heights (nHeight b) s (length vHave) = nHeight b # locator_heights k s' (length vHave + 1)"
      using False 1(3) by (subst locator_heights.simps) (simp add: k_def s'_def)
    have "locator_loop m c (Some p) (int s) vHave = locator_loop m c (Some q) (int s') (vHave @ [p])"
      using False by (subst locator_loop.simps) (simp only: 1(2) h kk ins(1) next_block step option.case bind.bind_lunit Let_def if_False)
    then show ?thesis using IH map_eq heights by simp
  qed
qed

lemma GetLocator_correct:
  assumes "index_ok m" and "chain_ok m c" and "m p = Some b"
  shows "GetLocator m c (Some p) =
    Some (map (\<lambda>k. the (nth_prev m p (nHeight b - k))) (locator_heights (nHeight b) 1 0))"
  using locator_loop_correct [OF assms, of 1 "[]"] by (simp add: GetLocator_def)

section \<open>The first block at or after a time\<close>

lemma lower_bound_time_correct:
  assumes "\<And>i. i < length v \<Longrightarrow> \<exists>p b. v ! i = Some p \<and> m p = Some b \<and> GetBlockTimeMax b = T i"
    and "\<And>i j. i \<le> j \<Longrightarrow> j < length v \<Longrightarrow> T i \<le> T j"
    and "first + count \<le> length v" and "\<And>i. i < first \<Longrightarrow> T i < t"
    and "\<And>i. first + count \<le> i \<Longrightarrow> i < length v \<Longrightarrow> t \<le> T i"
  shows "\<exists>k. lower_bound_time m v t first count = Some k \<and> k \<le> length v
    \<and> (\<forall>i<k. T i < t) \<and> (\<forall>i. k \<le> i \<longrightarrow> i < length v \<longrightarrow> t \<le> T i)"
  using assms(3-5)
proof (induction count arbitrary: first rule: less_induct)
  case (less count)
  show ?case
  proof (cases "count = 0")
    case True
    then show ?thesis using less.prems by (subst lower_bound_time.simps) auto
  next
    case False
    define it where "it = first + count div 2"
    have it: "it < length v" "count div 2 < count" "count - (count div 2 + 1) < count"
      using False less.prems(1) by (auto simp: it_def)
    obtain p b where p: "v ! it = Some p" "m p = Some b" "GetBlockTimeMax b = T it" using assms(1) [OF it(1)] by blast
    have eq: "lower_bound_time m v t first count =
        (if T it < t then lower_bound_time m v t (it + 1) (count - (count div 2 + 1))
         else lower_bound_time m v t first (count div 2))"
      using False it p by (subst lower_bound_time.simps) (simp add: Let_def it_def)
    show ?thesis
    proof (cases "T it < t")
      case True
      have sum: "it + 1 + (count - (count div 2 + 1)) = first + count" using False by (simp add: it_def)
      have "T i < t" if "i < it + 1" for i using assms(2) [of i it] it(1) that True by simp
      then show ?thesis using less.IH [OF it(3), of "it + 1"] less.prems True sum by (simp add: eq)
    next
      case False
      have "t \<le> T i" if "first + count div 2 \<le> i" "i < length v" for i
        using assms(2) [of it i] that False by (simp add: it_def)
      then show ?thesis using less.IH [OF it(2), of first] less.prems False by (simp add: eq)
    qed
  qed
qed

text \<open>The linear search that the binary search is meant to replace.\<close>

definition first_at_least :: "BlockMap \<Rightarrow> uint256 option list \<Rightarrow> int \<Rightarrow> uint256 option" where
  "first_at_least m v t =
     (case List.find (\<lambda>x. case x of None \<Rightarrow> False | Some p \<Rightarrow> (case m p of None \<Rightarrow> False | Some b \<Rightarrow> t \<le> GetBlockTimeMax b)) v of
        None \<Rightarrow> None | Some r \<Rightarrow> r)"

lemma find_first:
  assumes "\<And>i. i < k \<Longrightarrow> \<not> P (v ! i)" and "k < length v \<Longrightarrow> P (v ! k)" and "k \<le> length v"
  shows "List.find P v = (if k < length v then Some (v ! k) else None)"
  using assms
proof (induction v arbitrary: k)
  case (Cons x v)
  show ?case
  proof (cases k)
    case 0
    then show ?thesis using Cons.prems by simp
  next
    case (Suc j)
    have "\<not> P (v ! i)" if "i < j" for i using Cons.prems(1) [of "Suc i"] that Suc by simp
    moreover have "\<not> P x" using Cons.prems(1) [of 0] Suc by simp
    ultimately show ?thesis using Cons.IH [of j] Cons.prems Suc by simp
  qed
qed simp

lemma ancestry_times:
  assumes "index_ok m" and "m p = Some b"
  defines "T \<equiv> \<lambda>i. GetBlockTimeMax (the (m (the (ancestry m p ! i))))"
  shows "i \<le> nHeight b \<Longrightarrow> \<exists>q e. ancestry m p ! i = Some q \<and> m q = Some e \<and> GetBlockTimeMax e = T i"
    and "i \<le> j \<Longrightarrow> j \<le> nHeight b \<Longrightarrow> T i \<le> T j"
proof -
  have entry: "\<exists>q e. ancestry m p ! i = Some q \<and> m q = Some e \<and> nHeight e = i" if i: "i \<le> nHeight b" for i
    using back_height [OF assms(1,2), of "nHeight b - i"] i by (auto simp: ancestry_nth [of m p b] assms(2))
  then show "i \<le> nHeight b \<Longrightarrow> \<exists>q e. ancestry m p ! i = Some q \<and> m q = Some e \<and> GetBlockTimeMax e = T i"
    by (fastforce simp: T_def)
  have step: "T i \<le> T (Suc i)" if i: "Suc i \<le> nHeight b" for i
  proof -
    obtain q e where q: "ancestry m p ! Suc i = Some q" "m q = Some e" "nHeight e = Suc i" using entry [OF i] by auto
    obtain r f where r: "pprev e = Some r" "m r = Some f" using assms(1) q by (elim pprev_cases [of m q e]) auto
    have "nHeight b - i = Suc (nHeight b - Suc i)" using i by simp
    then have "ancestry m p ! i = Some r"
      using i q r by (simp add: ancestry_nth [of m p b] assms(2) back_Suc_right del: nth_prev.simps)
    moreover have "nTimeMax f \<le> nTimeMax e" using index_okD [OF assms(1) q(2)] r by (simp add: entry_ok_def)
    ultimately show ?thesis using q r by (simp add: T_def GetBlockTimeMax_def word_le_def)
  qed
  show "i \<le> j \<Longrightarrow> j \<le> nHeight b \<Longrightarrow> T i \<le> T j"
  proof (induction j)
    case (Suc j)
    then show ?case using step [of j] by (cases "i = Suc j") auto
  qed simp
qed

lemma FindEarliestAtLeast_correct:
  assumes "index_ok m" and "chain_ok m c"
  shows "FindEarliestAtLeast m c t = Some (first_at_least m (vChain c) t)"
proof (cases "vChain c = []")
  case True
  then show ?thesis by (simp add: FindEarliestAtLeast_def first_at_least_def lower_bound_time.simps)
next
  case False
  then obtain p b where p: "m p = Some b" "vChain c = ancestry m p" using assms(2) by (auto simp: chain_ok_def)
  define T where "T = (\<lambda>i. GetBlockTimeMax (the (m (the (ancestry m p ! i)))))"
  have times: "i \<le> nHeight b \<Longrightarrow> \<exists>q e. ancestry m p ! i = Some q \<and> m q = Some e \<and> GetBlockTimeMax e = T i"
      "i \<le> j \<Longrightarrow> j \<le> nHeight b \<Longrightarrow> T i \<le> T j" for i j
    using ancestry_times [OF assms(1) p(1)] by (simp_all only: T_def)
  have len: "length (vChain c) = Suc (nHeight b)" using p by (simp add: length_ancestry)
  obtain k where k: "lower_bound_time m (vChain c) t 0 (length (vChain c)) = Some k" "k \<le> length (vChain c)"
      "\<forall>i<k. T i < t" "\<forall>i. k \<le> i \<longrightarrow> i < length (vChain c) \<longrightarrow> t \<le> T i"
    using lower_bound_time_correct [of "vChain c" m T 0 "length (vChain c)" t] times len p(2) by (auto simp: less_Suc_eq_le)
  define P where "P = (\<lambda>x. case x of None \<Rightarrow> False | Some q \<Rightarrow> (case m q of None \<Rightarrow> False | Some e \<Rightarrow> t \<le> GetBlockTimeMax e))"
  have P: "P (vChain c ! i) \<longleftrightarrow> t \<le> T i" if "i < length (vChain c)" for i
    using times(1) [of i] that len p(2) by (auto simp: P_def less_Suc_eq_le)
  have "List.find P (vChain c) = (if k < length (vChain c) then Some (vChain c ! k) else None)"
    using k P by (intro find_first) auto
  then show ?thesis using k(1,2) by (simp add: FindEarliestAtLeast_def first_at_least_def P_def)
qed

section \<open>A straight chain\<close>

text \<open>
  A well-formed index with one chain of blocks, all with the same time, target and version, on which the properties below
  are instantiated.
\<close>

definition line_key :: "nat \<Rightarrow> uint256" where
  "line_key i = of_nat i # replicate 31 0"

fun line_work :: "limbs \<Rightarrow> nat \<Rightarrow> limbs" where
  "line_work w 0 = uint_add uint_zero w"
| "line_work w (Suc i) = uint_add (line_work w i) w"

definition line_base :: "u32 \<Rightarrow> u32 \<Rightarrow> u32 \<Rightarrow> CBlockIndex" where
  "line_base ver t bits = CBlockIndex_null\<lparr>idx_nVersion := ver, idx_nTime := t, idx_nBits := bits, nTimeMax := t\<rparr>"

definition line_block :: "u32 \<Rightarrow> u32 \<Rightarrow> u32 \<Rightarrow> nat \<Rightarrow> CBlockIndex" where
  "line_block ver t bits i =
     (line_base ver t bits)\<lparr>phashBlock := Some (line_key i), nHeight := i,
       pprev := (if i = 0 then None else Some (line_key (i - 1))),
       pskip := (if i = 0 then None else Some (line_key (GetSkipHeight i))),
       nChainWork := line_work (the (GetBlockProof (line_base ver t bits))) i\<rparr>"

definition line_index :: "u32 \<Rightarrow> u32 \<Rightarrow> u32 \<Rightarrow> nat \<Rightarrow> BlockMap" where
  "line_index ver t bits n p =
     (if p = line_key (unat (hd p)) \<and> unat (hd p) \<le> n then Some (line_block ver t bits (unat (hd p))) else None)"

lemma unat_line_key: "i < 256 \<Longrightarrow> unat (hd (line_key i)) = i"
  by (simp add: line_key_def unat_of_nat)

lemma line_index_key: "n < 256 \<Longrightarrow> i \<le> n \<Longrightarrow> line_index ver t bits n (line_key i) = Some (line_block ver t bits i)"
  by (simp add: line_index_def unat_line_key)

lemma line_index_Some:
  assumes "line_index ver t bits n p = Some b"
  obtains i where "p = line_key i" and "b = line_block ver t bits i" and "i \<le> n"
  using assms by (auto simp: line_index_def split: if_splits)

lemma nth_prev_line:
  assumes "n < 256"
  shows "i \<le> n \<Longrightarrow> j \<le> i \<Longrightarrow> nth_prev (line_index ver t bits n) (line_key i) j = Some (line_key (i - j))"
proof (induction j arbitrary: i)
  case (Suc j)
  then show ?case using Suc.IH [of "i - 1"] by (simp add: line_index_key [OF assms] line_block_def)
qed simp

lemma GetBlockProof_some: "\<exists>w. GetBlockProof b = Some w"
  using GetBlockProof_value [of b "fst (SetCompact (idx_nBits b))" "fst (snd (SetCompact (idx_nBits b)))"
      "snd (snd (SetCompact (idx_nBits b)))"] by auto

lemma GetBlockProof_cong: "idx_nBits a = idx_nBits b \<Longrightarrow> GetBlockProof a = GetBlockProof b"
  by (simp add: GetBlockProof_def)

lemma index_ok_line:
  assumes "n < 256"
  shows "index_ok (line_index ver t bits n)"
  unfolding index_ok_def
proof (intro allI impI)
  fix p b
  assume "line_index ver t bits n p = Some b"
  then obtain i where i: "p = line_key i" "b = line_block ver t bits i" "i \<le> n" by (rule line_index_Some)
  obtain w where w: "GetBlockProof (line_base ver t bits) = Some w" using GetBlockProof_some by blast
  have pw: "GetBlockProof b = Some w" using w GetBlockProof_cong [of b "line_base ver t bits"] by (simp add: i line_block_def)
  show "entry_ok (line_index ver t bits n) p b"
  proof (cases i)
    case 0
    then show ?thesis using i w pw by (simp add: entry_ok_def line_block_def line_base_def)
  next
    case (Suc j)
    have skip: "nth_prev (line_index ver t bits n) (line_key i) (i - GetSkipHeight i) = Some (line_key (GetSkipHeight i))"
      using nth_prev_line [OF assms i(3), of "i - GetSkipHeight i"] GetSkipHeight_less [of i] Suc by simp
    have prev: "line_index ver t bits n (line_key j) = Some (line_block ver t bits j)"
      using assms i(3) Suc by (intro line_index_key) auto
    have work: "nChainWork b = uint_add (nChainWork (line_block ver t bits j)) w"
      using w by (simp add: i line_block_def Suc)
    have "phashBlock b = Some p" "pprev b = Some (line_key j)" "nHeight b = Suc j" "pskip b = Some (line_key (GetSkipHeight i))"
      "nTimeMax b = t" "idx_nTime b = t" "nHeight (line_block ver t bits j) = j" "nTimeMax (line_block ver t bits j) = t"
      using Suc by (simp_all add: i line_block_def line_base_def)
    then show ?thesis using i(1) Suc prev work pw skip unfolding entry_ok_def by simp
  qed
qed

section \<open>Properties\<close>

text \<open>
  C17. The skip list: on a well-formed index \<open>GetAncestor\<close> returns, and returns what walking back along \<open>pprev\<close> finds, the
  ancestor whose height is the one asked for; it returns no block exactly for heights outside the chain below the block.
\<close>

theorem GetAncestor_walks:
  assumes "index_ok m" and "m p = Some b"
  shows "case GetAncestor m p h of
      None \<Rightarrow> False
    | Some None \<Rightarrow> h < 0 \<or> int (nHeight b) < h
    | Some (Some q) \<Rightarrow> 0 \<le> h \<and> h \<le> int (nHeight b) \<and> nth_prev m p (nHeight b - nat h) = Some q
        \<and> (\<exists>c. m q = Some c \<and> int (nHeight c) = h)"
proof (cases "0 \<le> h \<and> h \<le> int (nHeight b)")
  case True
  then obtain q c where "nth_prev m p (nHeight b - nat h) = Some q" "m q = Some c" "nHeight c = nat h"
    using back_height [OF assms, of "nHeight b - nat h"] by auto
  then show ?thesis using True GetAncestor_back [OF assms, of h] by auto
next
  case False
  then show ?thesis using GetAncestor_back [OF assms, of h] by auto
qed

theorem GetAncestor_walks_witness:
  "case GetAncestor (line_index 1 1000 0 9) (line_key 9) 3 of
      None \<Rightarrow> False
    | Some None \<Rightarrow> False
    | Some (Some q) \<Rightarrow> nth_prev (line_index 1 1000 0 9) (line_key 9) 6 = Some q"
proof -
  have n: "(9 :: nat) < 256" by simp
  have k: "line_index 1 1000 0 9 (line_key 9) = Some (line_block 1 1000 0 9)" by (rule line_index_key) simp_all
  have h: "nHeight (line_block 1 1000 0 9) = 9" by (simp add: line_block_def)
  show ?thesis using GetAncestor_walks [OF index_ok_line [OF n] k, of 3, unfolded h] by (auto split: option.splits)
qed

text \<open>
  C15. The active chain: after \<open>SetTip\<close>, which overwrites only what differs from the old chain, the vector holds exactly
  the ancestors of the new tip by height. Then \<open>Contains\<close> holds exactly of the blocks the tip descends from, \<open>FindFork\<close>
  returns and yields the last common block of the chain and a branch, and the binary search of \<open>FindEarliestAtLeast\<close> finds
  the first block at or after a time.
\<close>

theorem SetTip_chain:
  assumes "index_ok m" and "chain_ok m c" and "m t = Some tb" and "m p = Some b"
  shows "case SetTip m (Some t) c of
      None \<Rightarrow> False
    | Some c' \<Rightarrow> chain_ok m c' \<and> chain_Tip c' = Some t \<and> chain_Height c' = int (nHeight tb)
        \<and> vChain c' = ancestry m t
        \<and> chain_Contains m c' p = Some (descends m t p)
        \<and> (case FindFork m c' (Some p) of None \<Rightarrow> False | Some r \<Rightarrow> last_common m p t r)
        \<and> FindEarliestAtLeast m c' tm = Some (first_at_least m (ancestry m t) tm)"
proof -
  define c' where "c' = c\<lparr>vChain := ancestry m t\<rparr>"
  have v: "vChain c' = ancestry m t" by (simp add: c'_def)
  have ok: "chain_ok m c'" using assms(3) by (auto simp: chain_ok_def v)
  have "chain_Tip c' = Some t" using assms(3) by (simp add: chain_Tip_def v length_ancestry ancestry_nth)
  moreover have "chain_Height c' = int (nHeight tb)" using assms(3) by (simp add: chain_Height_def v length_ancestry)
  moreover have "FindEarliestAtLeast m c' tm = Some (first_at_least m (ancestry m t) tm)"
    using FindEarliestAtLeast_correct [OF assms(1) ok] v by simp
  moreover obtain r where "FindFork m c' (Some p) = Some r" "last_common m p t r"
    using FindFork_correct [OF assms(1,3) v assms(4)] by auto
  ultimately show ?thesis using SetTip_ancestry [OF assms(1-3)] ok v Contains_iff [OF assms(1,3) v assms(4)]
    by (simp add: c'_def [symmetric])
qed

theorem SetTip_chain_witness:
  "case SetTip (line_index 1 1000 0 9) (Some (line_key 7)) \<lparr>vChain = []\<rparr> of
      None \<Rightarrow> False
    | Some c' \<Rightarrow> chain_Tip c' = Some (line_key 7) \<and> chain_Height c' = 7"
proof -
  have n: "(9 :: nat) < 256" by simp
  have k: "line_index 1 1000 0 9 (line_key 7) = Some (line_block 1 1000 0 7)" by (rule line_index_key) simp_all
  have h: "nHeight (line_block 1 1000 0 7) = 7" by (simp add: line_block_def)
  have "chain_ok (line_index 1 1000 0 9) \<lparr>vChain = []\<rparr>" by (simp add: chain_ok_def)
  from SetTip_chain [OF index_ok_line [OF n] this k k, of 0, unfolded h] show ?thesis by (auto split: option.splits)
qed

text \<open>
  C38. Block locators: \<open>GetLocator\<close> returns for every block of a well-formed index. The locator starts with the block, ends
  with a block without predecessor, lists ancestors of the block at strictly decreasing heights, and is short: at most 12
  entries, or \<open>12 + log2\<close> of the height.
\<close>

theorem GetLocator_returns:
  assumes "index_ok m" and "chain_ok m c" and "m p = Some b"
  shows "case GetLocator m c (Some p) of
      None \<Rightarrow> False
    | Some vHave \<Rightarrow> vHave \<noteq> [] \<and> hd vHave = p \<and> list_all (descends m p) vHave
        \<and> map_option pprev (m (last vHave)) = Some None
        \<and> sorted_wrt (>) (map (\<lambda>q. nHeight (the (m q))) vHave)
        \<and> (length vHave \<le> 12 \<or> 2 ^ (length vHave - 12) \<le> nHeight b)"
proof -
  define L where "L = locator_heights (nHeight b) 1 0"
  define at_height where "at_height = (\<lambda>k. the (nth_prev m p (nHeight b - k)))"
  have shape: "L \<noteq> []" "hd L = nHeight b" "last L = 0" "sorted_wrt (>) L"
    using locator_heights_shape [of 1 "nHeight b" 0] by (simp_all add: L_def)
  have le: "k \<le> nHeight b" if "k \<in> set L" for k using locator_heights_le [of k] that unfolding L_def .
  have at: "nth_prev m p (nHeight b - k) = Some (at_height k) \<and> (\<exists>e. m (at_height k) = Some e \<and> nHeight e = k)" if "k \<le> nHeight b" for k
    using back_height [OF assms(1,3), of "nHeight b - k"] that by (auto simp: at_height_def)
  have heights: "map (\<lambda>q. nHeight (the (m q))) (map at_height L) = L"
    unfolding map_map by (rule map_idI) (use at le in fastforce)
  have "list_all (descends m p) (map at_height L)"
    using at le by (fastforce simp: list_all_iff descends_def)
  moreover have "hd (map at_height L) = p" using shape(1,2) by (simp add: hd_map at_height_def)
  moreover have "map_option pprev (m (last (map at_height L))) = Some None"
    using at [of 0] shape pprev_None_iff [OF assms(1)] by (auto simp: last_map)
  moreover have "length L \<le> 12 \<or> 2 ^ (length L - 12) \<le> nHeight b" using length_locator_heights [of 0 "nHeight b"] by (simp add: L_def)
  ultimately show ?thesis using GetLocator_correct [OF assms] shape heights
    unfolding at_height_def [symmetric] L_def [symmetric] by simp
qed

theorem GetLocator_returns_witness:
  "case GetLocator (line_index 1 1000 0 200) \<lparr>vChain = []\<rparr> (Some (line_key 200)) of
      None \<Rightarrow> False
    | Some vHave \<Rightarrow> hd vHave = line_key 200 \<and> length vHave < 20"
proof -
  have n: "(200 :: nat) < 256" by simp
  have k: "line_index 1 1000 0 200 (line_key 200) = Some (line_block 1 1000 0 200)" by (rule line_index_key) simp_all
  have h: "nHeight (line_block 1 1000 0 200) = 200" by (simp add: line_block_def)
  have ok: "chain_ok (line_index 1 1000 0 200) \<lparr>vChain = []\<rparr>" by (simp add: chain_ok_def)
  obtain v where v: "GetLocator (line_index 1 1000 0 200) \<lparr>vChain = []\<rparr> (Some (line_key 200)) = Some v" "hd v = line_key 200"
      "length v \<le> 12 \<or> 2 ^ (length v - 12) \<le> (200 :: nat)"
    using GetLocator_returns [OF index_ok_line [OF n] ok k, unfolded h] by (auto split: option.splits)
  have "length v < 20"
  proof (rule ccontr)
    assume "\<not> length v < 20"
    then have "(2 :: nat) ^ 8 \<le> 2 ^ (length v - 12)" by (intro power_increasing) auto
    then show False using v(3) \<open>\<not> length v < 20\<close> by simp
  qed
  then show ?thesis using v by simp
qed

end
