(* ===== verification/Pow.thy ===== *)
theory Pow
  imports Chain
begin

text \<open>
  Proof of work (\<open>pow.cpp\<close>): the target that a new block must meet under the three retargeting rules, and the check of a hash
  against its claimed target. The fields of \<open>Consensus::Params\<close> that the modelled code reads are a record. The
  block index is passed as in \<open>Chain\<close>; \<open>None\<close> is a failed assertion, an invalid pointer or a division by zero. Times and
  heights are integers: their 64-bit arithmetic does not wrap in the code (signed overflow is undefined), while the
  multiplication of a 256-bit number by a time truncates the time to 32 bits, as the overload that the compiler selects
  does.
\<close>

unbundle bit_operations_syntax

section \<open>Consensus parameters\<close>

record BIP9Deployment =
  dep_bit :: nat
  nStartTime :: int
  nTimeout :: int
  nWindowSize :: int
  nThreshold :: int

datatype DeploymentPos = DEPLOYMENT_TESTDUMMY | DEPLOYMENT_CSV | DEPLOYMENT_DIP0001 | DEPLOYMENT_BIP147

record ConsensusParams =
  hashGenesisBlock :: uint256
  hashDevnetGenesisBlock :: uint256
  nAuxpowChainId :: u32
  nRuleChangeActivationThreshold :: u32
  nMinerConfirmationWindow :: u32
  vDeployments :: "DeploymentPos \<Rightarrow> BIP9Deployment"
  powLimit :: uint256
  fPowAllowMinDifficultyBlocks :: bool
  fPowNoRetargeting :: bool
  nPowTargetSpacing :: int
  nPowTargetTimespan :: int
  nPowKGWHeight :: int
  nPowDGWHeight :: int

definition DifficultyAdjustmentInterval :: "ConsensusParams \<Rightarrow> int" where
  "DifficultyAdjustmentInterval params = cdiv (nPowTargetTimespan params) (nPowTargetSpacing params)"

text \<open>The parameters of the main network; the sizes and thresholds of its deployments are not set, hence zero.\<close>

definition main_genesis :: uint256 where
  "main_genesis =
     [0xf4, 0xc3, 0x0c, 0xa3, 0xda, 0xeb, 0xcb, 0x4d, 0x22, 0x21, 0xbd, 0x7e, 0xb5, 0x57, 0x60, 0xe2,
      0x57, 0xba, 0x60, 0xa3, 0x17, 0xee, 0x35, 0xcf, 0x53, 0x3e, 0xf4, 0xd8, 0x00, 0x00, 0x00, 0x00]"

definition main_params :: ConsensusParams where
  "main_params =
     \<lparr>hashGenesisBlock = main_genesis, hashDevnetGenesisBlock = uint256_null, nAuxpowChainId = 0xfff,
      nRuleChangeActivationThreshold = 1916, nMinerConfirmationWindow = 2016,
      vDeployments = (\<lambda>d. case d of
          DEPLOYMENT_TESTDUMMY \<Rightarrow>
            \<lparr>dep_bit = 28, nStartTime = 1199145601, nTimeout = 1230767999, nWindowSize = 0, nThreshold = 0\<rparr>
        | DEPLOYMENT_CSV \<Rightarrow> \<lparr>dep_bit = 0, nStartTime = 0, nTimeout = 999999999999, nWindowSize = 0, nThreshold = 0\<rparr>
        | DEPLOYMENT_DIP0001 \<Rightarrow> \<lparr>dep_bit = 1, nStartTime = 0, nTimeout = 999999999999, nWindowSize = 0, nThreshold = 0\<rparr>
        | DEPLOYMENT_BIP147 \<Rightarrow> \<lparr>dep_bit = 2, nStartTime = 0, nTimeout = 999999999999, nWindowSize = 0, nThreshold = 0\<rparr>),
      powLimit = replicate 29 0xff @ [0x0f, 0, 0],
      fPowAllowMinDifficultyBlocks = False, fPowNoRetargeting = False,
      nPowTargetSpacing = 60, nPowTargetTimespan = 180, nPowKGWHeight = 15200, nPowDGWHeight = 0\<rparr>"

section \<open>Retargeting\<close>

text \<open>The proof-of-work limit of the regression test network, which the code reads on every network.\<close>

definition regtest_powLimit :: uint256 where
  "regtest_powLimit = replicate 31 0xff @ [0x7f]"

definition clamp_time :: "int \<Rightarrow> int \<Rightarrow> int \<Rightarrow> int" where
  "clamp_time lo hi t = (let t = (if t < lo then lo else t) in if t > hi then hi else t)"

text \<open>\<open>bnNew *= nActualTimespan; bnNew /= nTargetTimespan\<close> and the comparison with the limit.\<close>

definition retarget :: "limbs \<Rightarrow> int \<Rightarrow> int \<Rightarrow> limbs \<Rightarrow> u32 option" where
  "retarget bnNew nActualTimespan nTargetTimespan bnPowLimit =
     do { bnNew \<leftarrow> uint_div (uint_mul32 bnNew (word_of_int nActualTimespan)) (uint_of64 (word_of_int nTargetTimespan));
          GetCompact (if CompareTo bnNew bnPowLimit > 0 then bnPowLimit else bnNew) False }"

text \<open>The loop over the last blocks: the pseudo-average of their targets and the earliest of them.\<close>

function dgw_loop :: "BlockMap \<Rightarrow> nat \<Rightarrow> nat \<Rightarrow> uint256 \<Rightarrow> limbs \<Rightarrow> (limbs \<times> uint256) option" where
  "dgw_loop m nPastBlocks nCountBlocks pindex bnPastTargetAvg =
     (if nCountBlocks > nPastBlocks then Some (bnPastTargetAvg, pindex)
      else
        do { b \<leftarrow> m pindex;
             let bnTarget = fst (SetCompact (idx_nBits b));
             avg \<leftarrow> if nCountBlocks = 1 then Some bnTarget
                    else uint_div (uint_add (uint_mul32 bnPastTargetAvg (of_nat nCountBlocks)) bnTarget)
                                  (uint_of64 (of_nat (nCountBlocks + 1)));
             if nCountBlocks \<noteq> nPastBlocks
             then do { q \<leftarrow> pprev b; dgw_loop m nPastBlocks (nCountBlocks + 1) q avg }
             else Some (avg, pindex) })"
  by pat_completeness auto
termination
  by (relation "measure (\<lambda>(m, n, k, p, avg). Suc n - k)") auto

declare dgw_loop.simps [simp del]

definition DarkGravityWave :: "BlockMap \<Rightarrow> uint256 option \<Rightarrow> 'a CPureBlockHeader_scheme \<Rightarrow> ConsensusParams \<Rightarrow> u32 option" where
  "DarkGravityWave m pindexLast pblock params =
     (if fPowNoRetargeting params
      then do { p \<leftarrow> pindexLast; b \<leftarrow> m p; Some (idx_nBits b) }
      else
        case pindexLast of
          None \<Rightarrow> GetCompact (UintToArith256 regtest_powLimit) False
        | Some p \<Rightarrow>
            do { last \<leftarrow> m p;
                 let bnPowLimit = UintToArith256 (powLimit params);
                 let nPastBlocks = (24 :: nat);
                 if nHeight last \<le> nPastBlocks then GetCompact (UintToArith256 regtest_powLimit) False
                 else if fPowAllowMinDifficultyBlocks params
                         \<and> GetBlockTime pblock > idx_GetBlockTime last + nPowTargetSpacing params * 2
                 then GetCompact bnPowLimit False
                 else
                   do { (bnNew, first) \<leftarrow> dgw_loop m nPastBlocks 1 p uint_zero;
                        fb \<leftarrow> m first;
                        let nTargetTimespan = int nPastBlocks * nPowTargetSpacing params;
                        let nActualTimespan = clamp_time (cdiv nTargetTimespan 10) (nTargetTimespan * 10)
                              (idx_GetBlockTime last - idx_GetBlockTime fb);
                        retarget bnNew nActualTimespan nTargetTimespan bnPowLimit } })"

text \<open>
  \<open>KimotoGravityWell\<close> decides with floating-point arithmetic, and \<open>pow\<close> of the C library, when to stop looking back. These
  two uses are parameters: the product of the time span with \<open>0.025\<close>, truncated to an unsigned integer, and whether the
  ratio of the target and actual times lies outside the event horizon for a number of blocks.
\<close>

record kgw_float =
  fortieth :: "int \<Rightarrow> u64"
  outside_horizon :: "u64 \<Rightarrow> int \<Rightarrow> int \<Rightarrow> bool"

partial_function (option) kgw_loop ::
  "BlockMap \<Rightarrow> kgw_float \<Rightarrow> ConsensusParams \<Rightarrow> u64 \<Rightarrow> u64 \<Rightarrow> CBlockIndex \<Rightarrow> u32 \<Rightarrow> uint256 \<Rightarrow> limbs \<Rightarrow> int \<Rightarrow> int
   \<Rightarrow> (limbs \<times> int \<times> int) option" where
  "kgw_loop m fl params PastBlocksMin PastBlocksMax BlockLastSolved i BlockReading PastDifficultyAveragePrev PastRateActualSeconds PastRateTargetSeconds =
     Option.bind (m BlockReading) (\<lambda>b.
       if nHeight b = 0 \<or> PastBlocksMax > 0 \<and> ucast i > PastBlocksMax
       then Some (PastDifficultyAveragePrev, PastRateActualSeconds, PastRateTargetSeconds)
       else
         let PastBlocksMass = ucast i :: u64;
             target = fst (SetCompact (idx_nBits b))
         in Option.bind
              (if i > 1 then
                 if CompareTo target PastDifficultyAveragePrev \<ge> 0
                 then map_option (\<lambda>q. uint_add q PastDifficultyAveragePrev)
                        (uint_div (uint_sub target PastDifficultyAveragePrev) (uint_of64 (ucast i)))
                 else map_option (\<lambda>q. uint_sub PastDifficultyAveragePrev q)
                        (uint_div (uint_sub PastDifficultyAveragePrev target) (uint_of64 (ucast i)))
               else Some target)
              (\<lambda>avg.
                 let actual = max (idx_GetBlockTime BlockLastSolved - idx_GetBlockTime b) 0;
                     target_seconds = sint (word_of_int (nPowTargetSpacing params) * PastBlocksMass)
                 in if PastBlocksMass \<ge> PastBlocksMin \<and> outside_horizon fl PastBlocksMass actual target_seconds
                    then Some (avg, actual, target_seconds)
                    else case pprev b of
                           None \<Rightarrow> Some (avg, actual, target_seconds)
                         | Some q \<Rightarrow> kgw_loop m fl params PastBlocksMin PastBlocksMax BlockLastSolved (i + 1) q avg actual target_seconds))"

definition KimotoGravityWell :: "BlockMap \<Rightarrow> kgw_float \<Rightarrow> uint256 option \<Rightarrow> ConsensusParams \<Rightarrow> u32 option" where
  "KimotoGravityWell m fl pindexLast params =
     (let bnPowLimit = UintToArith256 (powLimit params);
          spacing = word_of_int (nPowTargetSpacing params) :: u64
      in if spacing = 0 then None
         else
           let PastBlocksMin = fortieth fl (nPowTargetTimespan params) div spacing;
               PastBlocksMax = word_of_int (nPowTargetTimespan params * 7) div spacing
           in case pindexLast of
                None \<Rightarrow> GetCompact bnPowLimit False
              | Some p \<Rightarrow>
                  do { last \<leftarrow> m p;
                       if nHeight last \<le> 1000 \<or> of_nat (nHeight last) < PastBlocksMin then GetCompact bnPowLimit False
                       else
                         do { (avg, actual, target) \<leftarrow> kgw_loop m fl params PastBlocksMin PastBlocksMax last 1 p uint_zero 0 0;
                              if actual \<noteq> 0 \<and> target \<noteq> 0 then retarget avg actual target bnPowLimit
                              else GetCompact (if CompareTo avg bnPowLimit > 0 then bnPowLimit else avg) False } })"

definition CalculateNextWorkRequired :: "CBlockIndex \<Rightarrow> int \<Rightarrow> ConsensusParams \<Rightarrow> u32 option" where
  "CalculateNextWorkRequired b nFirstBlockTime params =
     (if fPowNoRetargeting params then Some (idx_nBits b)
      else
        let nActualTimespan = clamp_time (cdiv (nPowTargetTimespan params) 4) (nPowTargetTimespan params * 4)
              (idx_GetBlockTime b - nFirstBlockTime)
        in retarget (fst (SetCompact (idx_nBits b))) nActualTimespan (nPowTargetTimespan params)
             (UintToArith256 (powLimit params)))"

text \<open>The loop to the last block that was not mined under the special rule.\<close>

partial_function (option) btc_walk :: "BlockMap \<Rightarrow> int \<Rightarrow> u32 \<Rightarrow> uint256 \<Rightarrow> u32 option" where
  "btc_walk m interval nProofOfWorkLimit pindex =
     Option.bind (m pindex) (\<lambda>b.
       case pprev b of
         None \<Rightarrow> Some (idx_nBits b)
       | Some q \<Rightarrow>
           if crem (int (nHeight b)) interval \<noteq> 0 \<and> idx_nBits b = nProofOfWorkLimit
           then btc_walk m interval nProofOfWorkLimit q
           else Some (idx_nBits b))"

definition GetNextWorkRequiredBTC :: "BlockMap \<Rightarrow> uint256 option \<Rightarrow> 'a CPureBlockHeader_scheme \<Rightarrow> ConsensusParams \<Rightarrow> u32 option" where
  "GetNextWorkRequiredBTC m pindexLast pblock params =
     do { nProofOfWorkLimit \<leftarrow> GetCompact (UintToArith256 (powLimit params)) False;
          case pindexLast of
            None \<Rightarrow> Some nProofOfWorkLimit
          | Some p \<Rightarrow>
              do { last \<leftarrow> m p;
                   let interval = DifficultyAdjustmentInterval params;
                   if nPowTargetSpacing params = 0 \<or> interval = 0 then None
                   else if crem (int (nHeight last) + 1) interval \<noteq> 0 then
                     if fPowAllowMinDifficultyBlocks params then
                       if GetBlockTime pblock > idx_GetBlockTime last + nPowTargetSpacing params * 2 then Some nProofOfWorkLimit
                       else btc_walk m interval nProofOfWorkLimit p
                     else Some (idx_nBits last)
                   else
                     let nHeightFirst = int (nHeight last) - (interval - 1)
                     in if nHeightFirst < 0 then None
                        else do { first \<leftarrow> GetAncestor m p nHeightFirst;
                                  q \<leftarrow> first;
                                  fb \<leftarrow> m q;
                                  CalculateNextWorkRequired last (idx_GetBlockTime fb) params } } }"

definition GetNextWorkRequired ::
  "BlockMap \<Rightarrow> kgw_float \<Rightarrow> uint256 option \<Rightarrow> 'a CPureBlockHeader_scheme \<Rightarrow> ConsensusParams \<Rightarrow> u32 option" where
  "GetNextWorkRequired m fl pindexLast pblock params =
     do { p \<leftarrow> pindexLast;
          last \<leftarrow> m p;
          if int (nHeight last) + 1 \<ge> nPowDGWHeight params then DarkGravityWave m pindexLast pblock params
          else if int (nHeight last) + 1 \<ge> nPowKGWHeight params then KimotoGravityWell m fl pindexLast params
          else GetNextWorkRequiredBTC m pindexLast pblock params }"

section \<open>Checking the work of a hash\<close>

text \<open>The node runs on the regression test network, or not (\<open>Params().NetworkIDString()\<close>).\<close>

definition CheckProofOfWork :: "bool \<Rightarrow> uint256 \<Rightarrow> u32 \<Rightarrow> ConsensusParams \<Rightarrow> bool option" where
  "CheckProofOfWork on_regtest hash bits params =
     do { regTestBits \<leftarrow> GetCompact (UintToArith256 regtest_powLimit) False;
          if \<not> on_regtest \<and> bits = regTestBits then Some True
          else
            let (bnTarget, fNegative, fOverflow) = SetCompact bits
            in if fNegative \<or> EqualTo bnTarget 0 \<or> fOverflow \<or> CompareTo bnTarget (UintToArith256 (powLimit params)) > 0
               then Some False
               else if CompareTo (UintToArith256 hash) bnTarget > 0 then Some False
               else Some True }"

section \<open>Numbers behind hashes, targets and compact words\<close>

lemma uval_UintToArith256:
  assumes "length a = 32"
  shows "uval (UintToArith256 a) = le_val a" and "length (UintToArith256 a) = WIDTH"
proof -
  have limb: "unat (ReadLE32 (take 4 (drop i a))) = le_val (take 4 (drop i a))" if "i + 4 \<le> 32" for i
    using le_val_less [of "take 4 (drop i a)"] that assms by (simp add: ReadLE32_def unat_of_nat)
  have "uval (map (\<lambda>x. ReadLE32 (take 4 (drop (x * 4) a))) [0..<n]) = le_val (take (4 * n) a)" if "n \<le> 8" for n
    using that
  proof (induction n)
    case (Suc n)
    have "take (4 * Suc n) a = take (4 * n) a @ take 4 (drop (4 * n) a)" by (simp add: take_add [symmetric] add.commute)
    moreover have "(256 :: nat) ^ (4 * n) = 2 ^ (32 * n)" by (simp add: power_mult)
    ultimately show ?case using Suc limb [of "n * 4"] assms
      by (simp add: uval_append le_val_append mult.commute min_def)
  qed simp
  then show "uval (UintToArith256 a) = le_val a" using assms by (simp add: UintToArith256_def)
  show "length (UintToArith256 a) = WIDTH" by (simp add: UintToArith256_def)
qed

text \<open>A compact word is a proper target: positive or zero, without overflow.\<close>

definition proper_target :: "u32 \<Rightarrow> bool" where
  "proper_target c \<longleftrightarrow> \<not> fst (snd (SetCompact c)) \<and> \<not> snd (snd (SetCompact c))"

definition block_target :: "CBlockIndex \<Rightarrow> nat" where
  "block_target b = uval (fst (SetCompact (idx_nBits b)))"

lemma length_SetCompact [simp]: "length (fst (SetCompact c)) = WIDTH"
  using SetCompact_nat(1) [of c "fst (SetCompact c)" "fst (snd (SetCompact c))" "snd (snd (SetCompact c))"] by simp

lemma GetCompact_target:
  assumes "length w = WIDTH"
  obtains c where "GetCompact w False = Some c" and "proper_target c" and "compact_nat c \<le> uval w"
    and "(uval w - compact_nat c) * 2 ^ 15 \<le> uval w"
proof -
  obtain c where c: "GetCompact w False = Some c" using GetCompact_word [OF assms] by blast
  obtain t neg ovf where t: "SetCompact c = (t, neg, ovf)" by (cases "SetCompact c")
  have facts: "uval t \<le> uval w" "(uval w - uval t) * 2 ^ 15 \<le> uval w" "\<not> neg" "\<not> ovf"
    using GetCompact_SetCompact [OF assms c] t by auto
  then have "uval t = compact_nat c" using SetCompact_nat(2) [OF t] by simp
  then show thesis using that [OF c] t facts by (simp add: proper_target_def)
qed

section \<open>The retargeting step\<close>

lemma retarget_value:
  assumes "length avg = WIDTH" and "length lim = WIDTH" and "word_of_int T \<noteq> (0 :: u64)"
  obtains w where "length w = WIDTH" and "retarget avg A T lim = GetCompact w False" and "uval w \<le> uval lim"
    and "uval avg * unat (word_of_int A :: u32) < 2 ^ 256 \<Longrightarrow>
           uval w = min (uval lim) (uval avg * unat (word_of_int A :: u32) div unat (word_of_int T :: u64))"
proof -
  define M :: nat where "M = 2 ^ 256"
  define x where "x = uint_mul32 avg (word_of_int A)"
  have x: "length x = WIDTH" "uval x = (uval avg * unat (word_of_int A :: u32)) mod M"
    using uval_mul32 [of avg "word_of_int A"] assms(1) by (simp_all add: x_def M_def)
  have d: "uval (uint_of64 (word_of_int T)) = unat (word_of_int T :: u64)" "length (uint_of64 (word_of_int T)) = WIDTH"
    by (rule uval_uint_of64)+
  have "unat (word_of_int T :: u64) \<noteq> 0" using assms(3) by (simp add: unat_eq_zero)
  then obtain q where q: "uint_div x (uint_of64 (word_of_int T)) = Some q"
    using uint_div_correct(1) [of x "uint_of64 (word_of_int T)"] x(1) d by (cases "uint_div x (uint_of64 (word_of_int T))") auto
  have uq: "uval q = uval x div unat (word_of_int T :: u64)" "length q = WIDTH"
    using uint_div_correct(2) [OF _ q] x(1) d by simp_all
  define w where "w = (if CompareTo q lim > 0 then lim else q)"
  have cmp: "0 < CompareTo q lim \<longleftrightarrow> uval lim < uval q" using CompareTo_gt [of q lim] uq assms by simp
  show thesis
  proof (rule that [of w])
    show "length w = WIDTH" using uq assms by (simp add: w_def)
    show "retarget avg A T lim = GetCompact w False" using q by (simp add: retarget_def w_def x_def)
    have w: "uval w = min (uval lim) (uval q)" using cmp by (auto simp: w_def)
    then show "uval w \<le> uval lim" by simp
    assume "uval avg * unat (word_of_int A :: u32) < 2 ^ 256"
    then have "uval avg * unat (word_of_int A :: u32) < M" by (simp only: M_def)
    then have "uval x = uval avg * unat (word_of_int A :: u32)" using x(2) by simp
    then show "uval w = min (uval lim) (uval avg * unat (word_of_int A :: u32) div unat (word_of_int T :: u64))"
      using w uq(1) by simp
  qed
qed

section \<open>The average of the past targets\<close>

definition past_targets :: "BlockMap \<Rightarrow> uint256 \<Rightarrow> nat \<Rightarrow> nat list" where
  "past_targets m p n = map (\<lambda>i. block_target (the (m (the (nth_prev m p i))))) [0..<n]"

text \<open>The pseudo-average: the \<open>k\<close>-th target is weighted \<open>1 / (k + 1)\<close> against what was averaged before.\<close>

fun dgw_mean :: "nat \<Rightarrow> nat \<Rightarrow> nat list \<Rightarrow> nat" where
  "dgw_mean k avg [] = avg"
| "dgw_mean k avg (t # ts) = dgw_mean (Suc k) ((avg * k + t) div Suc k) ts"

lemma weighted_mono: "a \<le> b \<Longrightarrow> t \<le> b \<Longrightarrow> a * k + t \<le> b * Suc k" "b \<le> a \<Longrightarrow> b \<le> t \<Longrightarrow> b * Suc k \<le> a * k + (t :: nat)"
  unfolding mult_Suc_right by (subst add.commute, intro add_mono mult_le_mono1, assumption+)+

lemma mean_bounds:
  assumes "lo \<le> a" "a \<le> hi" "lo \<le> t" "t \<le> (hi :: nat)"
  shows "lo \<le> (a * k + t) div Suc k \<and> (a * k + t) div Suc k \<le> hi"
proof
  have "lo * Suc k \<le> a * k + t" using assms by (intro weighted_mono)
  then show "lo \<le> (a * k + t) div Suc k" by (simp add: less_eq_div_iff_mult_less_eq del: mult_Suc_right)
  have "a * k + t \<le> hi * Suc k" using assms by (intro weighted_mono)
  then have "(a * k + t) div Suc k \<le> hi * Suc k div Suc k" by (rule div_le_mono)
  then show "(a * k + t) div Suc k \<le> hi" by (simp del: mult_Suc_right)
qed

lemma dgw_mean_bounds:
  "lo \<le> a \<Longrightarrow> a \<le> hi \<Longrightarrow> list_all (\<lambda>t. lo \<le> t \<and> t \<le> hi) ts \<Longrightarrow> lo \<le> dgw_mean k a ts \<and> dgw_mean k a ts \<le> hi"
proof (induction ts arbitrary: k a)
  case (Cons t ts)
  then show ?case using mean_bounds [of lo a hi t k] by simp
qed simp

lemma past_targets_Suc:
  "m p = Some b \<Longrightarrow> pprev b = Some q \<Longrightarrow> past_targets m p (Suc n) = block_target b # past_targets m q n"
  unfolding past_targets_def by (simp add: upt_conv_Cons map_Suc_upt [symmetric] comp_def del: upt_Suc)

lemma past_targets_0: "m p = Some b \<Longrightarrow> past_targets m p (Suc 0) = [block_target b]"
  by (simp add: past_targets_def)

lemma uint_mean:
  assumes "length avg = WIDTH" and "length t = WIDTH" and "k + 1 < 2 ^ 32"
  obtains a where "uint_div (uint_add (uint_mul32 avg (of_nat k)) t) (uint_of64 (of_nat (k + 1))) = Some a"
    and "length a = WIDTH"
    and "uval avg * k + uval t < 2 ^ 256 \<Longrightarrow> uval a = (uval avg * k + uval t) div (k + 1)"
proof -
  define M :: nat where "M = 2 ^ 256"
  define x where "x = uint_add (uint_mul32 avg (of_nat k)) t"
  have k: "unat (of_nat k :: u32) = k" "unat (of_nat (k + 1) :: u64) = k + 1"
    using assms(3) by (simp_all add: unat_of_nat del: of_nat_add of_nat_Suc)
  have mul: "length (uint_mul32 avg (of_nat k)) = WIDTH" "uval (uint_mul32 avg (of_nat k)) = (uval avg * k) mod M"
    using uval_mul32 [of avg "of_nat k"] assms(1) k by (simp_all add: M_def)
  have x: "length x = WIDTH" "uval x = (uval avg * k + uval t) mod M"
    using uval_add [of "uint_mul32 avg (of_nat k)" t] mul assms(2) by (simp_all add: x_def M_def mod_add_left_eq)
  have d: "uval (uint_of64 (of_nat (k + 1))) = k + 1" "length (uint_of64 (of_nat (k + 1))) = WIDTH"
    using k by (simp_all only: uval_uint_of64)
  obtain q where q: "uint_div x (uint_of64 (of_nat (k + 1))) = Some q"
    using uint_div_correct(1) [of x "uint_of64 (of_nat (k + 1))"] x(1) d by (cases "uint_div x (uint_of64 (of_nat (k + 1)))") auto
  have "uval q = uval x div (k + 1)" "length q = WIDTH" using uint_div_correct(2) [OF _ q] x(1) d by (simp_all only:)
  moreover have "uval x = uval avg * k + uval t" if "uval avg * k + uval t < 2 ^ 256" using x(2) that by (simp only: M_def mod_less)
  ultimately show thesis using that [of q] q by (simp only: x_def)
qed

lemma dgw_loop_step:
  assumes "m p = Some b" and "1 \<le> k" and "k \<le> n"
  shows "dgw_loop m n k p avg =
    (if k = 1 then Some (fst (SetCompact (idx_nBits b)))
     else uint_div (uint_add (uint_mul32 avg (of_nat k)) (fst (SetCompact (idx_nBits b)))) (uint_of64 (of_nat (k + 1))))
    \<bind> (\<lambda>a. if k = n then Some (a, p) else pprev b \<bind> (\<lambda>q. dgw_loop m n (k + 1) q a))"
  using assms by (subst dgw_loop.simps) (cases "k = n"; simp add: Let_def)

lemma dgw_loop_value:
  assumes "index_ok m" and "n < 2 ^ 31"
  shows "m p = Some b \<Longrightarrow> 2 \<le> k \<Longrightarrow> k \<le> n \<Longrightarrow> n - k \<le> nHeight b \<Longrightarrow> length avg = WIDTH \<Longrightarrow>
    \<exists>a q. dgw_loop m n k p avg = Some (a, q) \<and> length a = WIDTH \<and> nth_prev m p (n - k) = Some q
      \<and> (list_all (\<lambda>t. t \<le> L) (past_targets m p (Suc (n - k))) \<longrightarrow> uval avg \<le> L \<longrightarrow> L * (n + 1) < 2 ^ 256 \<longrightarrow>
           uval a = dgw_mean k (uval avg) (past_targets m p (Suc (n - k))))"
proof (induction "n - k" arbitrary: k p b avg)
  case 0
  define M :: nat where "M = 2 ^ 256"
  have [simp]: "n = k" using 0 by simp
  obtain a where a: "uint_div (uint_add (uint_mul32 avg (of_nat k)) (fst (SetCompact (idx_nBits b)))) (uint_of64 (of_nat (k + 1))) = Some a"
      "length a = WIDTH" "uval avg * k + block_target b < M \<Longrightarrow> uval a = (uval avg * k + block_target b) div (k + 1)"
    using uint_mean [of avg "fst (SetCompact (idx_nBits b))" k] 0 assms(2) unfolding block_target_def M_def by auto
  have small: "uval avg * k + block_target b < M" if "block_target b \<le> L" "uval avg \<le> L" "L * (k + 1) < M"
    using weighted_mono(1) [OF that(2,1), of k] that(3) by simp
  show ?case using 0 a small dgw_loop_step [of m p b k n avg] unfolding M_def [symmetric] by (simp add: past_targets_0)
next
  case (Suc d)
  define M :: nat where "M = 2 ^ 256"
  obtain q c where q: "pprev b = Some q" "m q = Some c" "nHeight b = Suc (nHeight c)"
    using assms(1) Suc by (elim pprev_cases [of m p b]) auto
  obtain a where a: "uint_div (uint_add (uint_mul32 avg (of_nat k)) (fst (SetCompact (idx_nBits b)))) (uint_of64 (of_nat (k + 1))) = Some a"
      "length a = WIDTH" "uval avg * k + block_target b < M \<Longrightarrow> uval a = (uval avg * k + block_target b) div (k + 1)"
    using uint_mean [of avg "fst (SetCompact (idx_nBits b))" k] Suc assms(2) unfolding block_target_def M_def by auto
  have small: "uval avg * k + block_target b < M" if "block_target b \<le> L" "uval avg \<le> L" "L * (n + 1) < M"
  proof -
    have "uval avg * k + block_target b \<le> L * (k + 1)" using weighted_mono(1) [OF that(2,1), of k] by simp
    also have "\<dots> \<le> L * (n + 1)" using Suc by (intro mult_le_mono2) simp
    finally show ?thesis using that(3) by simp
  qed
  have le: "(uval avg * k + block_target b) div (k + 1) \<le> L" if "block_target b \<le> L" "uval avg \<le> L"
    using mean_bounds [of 0 "uval avg" L "block_target b" k] that by simp
  have d: "Suc (n - k) = Suc (Suc (n - Suc k))" "n - k = Suc (n - Suc k)" using Suc by auto
  have d': "d = n - Suc k" and k': "2 \<le> Suc k" and h: "Suc k \<le> n" "n - Suc k \<le> nHeight c"
    using Suc.hyps(2) Suc.prems q(3) by simp_all
  obtain a' q' where r: "dgw_loop m n (Suc k) q a = Some (a', q')" "length a' = WIDTH" "nth_prev m q (n - Suc k) = Some q'"
      "list_all (\<lambda>t. t \<le> L) (past_targets m q (Suc (n - Suc k))) \<longrightarrow> uval a \<le> L \<longrightarrow> L * (n + 1) < M \<longrightarrow>
         uval a' = dgw_mean (Suc k) (uval a) (past_targets m q (Suc (n - Suc k)))"
    using Suc.hyps(1) [OF d' q(2) k' _ _ a(2)] h unfolding M_def by blast
  have "dgw_loop m n k p avg = Some (a', q')"
    using dgw_loop_step [of m p b k n avg] h(1) Suc.prems a(1) q(1) r(1) by auto
  moreover have "nth_prev m p (n - k) = Some q'" using r(3) q Suc.prems(1) by (simp add: d(2))
  moreover have "past_targets m p (Suc (n - k)) = block_target b # past_targets m q (Suc (n - Suc k))"
    unfolding d(1) by (rule past_targets_Suc [of m p b, OF Suc.prems(1) q(1)])
  ultimately show ?case using r(2,4) a(3) small le unfolding M_def [symmetric] by auto
qed

lemma dgw_loop_24:
  assumes "index_ok m" and "m p = Some b" and "24 < nHeight b"
  obtains a q c where "dgw_loop m 24 1 p uint_zero = Some (a, q)" and "length a = WIDTH"
    and "nth_prev m p 23 = Some q" and "m q = Some c"
    and "list_all (\<lambda>t. t \<le> L) (past_targets m p 24) \<Longrightarrow> L * 25 < 2 ^ 256 \<Longrightarrow>
           uval a = dgw_mean 2 (hd (past_targets m p 24)) (tl (past_targets m p 24))"
proof -
  define M :: nat where "M = 2 ^ 256"
  obtain q c where q: "pprev b = Some q" "m q = Some c" "nHeight b = Suc (nHeight c)"
    using assms by (elim pprev_cases [of m p b]) auto
  have first: "past_targets m p 24 = block_target b # past_targets m q 23"
    using past_targets_Suc [of m p b q 23] assms(2) q(1) by simp
  obtain a r where a: "dgw_loop m 24 2 q (fst (SetCompact (idx_nBits b))) = Some (a, r)" "length a = WIDTH" "nth_prev m q 22 = Some r"
      "list_all (\<lambda>t. t \<le> L) (past_targets m q 23) \<Longrightarrow> block_target b \<le> L \<Longrightarrow> L * 25 < M \<Longrightarrow>
         uval a = dgw_mean 2 (block_target b) (past_targets m q 23)"
    using dgw_loop_value [OF assms(1), of 24 q c 2 "fst (SetCompact (idx_nBits b))" L] q assms(3)
    unfolding M_def [symmetric] block_target_def by fastforce
  have r: "nth_prev m p 23 = Some r" using a(3) q(1) assms(2) by (simp add: numeral_eq_Suc)
  obtain e where "m r = Some e" using back_height [OF assms(1,2), of 23] r assms(3) by auto
  moreover have "dgw_loop m 24 1 p uint_zero = Some (a, r)"
    using dgw_loop_step [of m p b 1 24 uint_zero] assms(2) q(1) a(1) by (simp add: numeral_2_eq_2)
  moreover have "uval a = dgw_mean 2 (hd (past_targets m p 24)) (tl (past_targets m p 24))"
    if "list_all (\<lambda>t. t \<le> L) (past_targets m p 24)" "L * 25 < 2 ^ 256"
    using a(4) that unfolding first M_def by simp
  ultimately show thesis using that a(2) r by blast
qed

section \<open>Parameters of a network\<close>

definition params_ok :: "ConsensusParams \<Rightarrow> bool" where
  "params_ok params \<longleftrightarrow> length (powLimit params) = 32 \<and> 0 < nPowTargetSpacing params
     \<and> nPowTargetSpacing params \<le> nPowTargetTimespan params \<and> nPowTargetTimespan params < 2 ^ 31"

lemma interval_pos: "params_ok params \<Longrightarrow> 0 < DifficultyAdjustmentInterval params"
  by (auto simp: params_ok_def DifficultyAdjustmentInterval_def cdiv_def pos_imp_zdiv_pos_iff)

lemma word_pos: "0 < x \<Longrightarrow> x < 2 ^ 40 \<Longrightarrow> unat (word_of_int x :: u64) = nat x" "0 < x \<Longrightarrow> x < 2 ^ 40 \<Longrightarrow> word_of_int x \<noteq> (0 :: u64)"
proof -
  assume "0 < x" "x < 2 ^ 40"
  then have "uint (word_of_int x :: u64) = x" by (simp add: uint_word_of_int)
  then show "unat (word_of_int x :: u64) = nat x" "word_of_int x \<noteq> (0 :: u64)"
    using \<open>0 < x\<close> by (auto simp flip: nat_uint_eq)
qed

lemma retarget_target:
  assumes "length avg = WIDTH" and "length lim = WIDTH" and "word_of_int T \<noteq> (0 :: u64)"
  shows "\<exists>c. retarget avg A T lim = Some c \<and> proper_target c \<and> compact_nat c \<le> uval lim"
proof -
  obtain w where w: "length w = WIDTH" "retarget avg A T lim = GetCompact w False" "uval w \<le> uval lim"
    using retarget_value [OF assms, of A] by metis
  then obtain c where "GetCompact w False = Some c" "proper_target c" "compact_nat c \<le> uval w"
    using GetCompact_target [OF w(1)] by metis
  then show ?thesis using w by auto
qed

lemma limit_target:
  assumes "length a = WIDTH" and "length lim = WIDTH"
  shows "\<exists>c. GetCompact (if CompareTo a lim > 0 then lim else a) False = Some c \<and> proper_target c \<and> compact_nat c \<le> uval lim"
proof -
  define w where "w = (if CompareTo a lim > 0 then lim else a)"
  have "length w = WIDTH" "uval w \<le> uval lim" using assms CompareTo_gt [of a lim] by (auto simp: w_def)
  then show ?thesis using GetCompact_target [of w] unfolding w_def by (metis le_trans)
qed

lemma DarkGravityWave_target:
  assumes "index_ok m" and "m p = Some b" and "params_ok params" and "\<not> fPowNoRetargeting params" and "24 < nHeight b"
  shows "\<exists>c. DarkGravityWave m (Some p) pblock params = Some c \<and> proper_target c \<and> compact_nat c \<le> le_val (powLimit params)"
proof -
  define lim where "lim = UintToArith256 (powLimit params)"
  have lim: "length lim = WIDTH" "uval lim = le_val (powLimit params)"
    using uval_UintToArith256 [of "powLimit params"] assms(3) by (simp_all add: lim_def params_ok_def)
  obtain a q c where a: "dgw_loop m 24 1 p uint_zero = Some (a, q)" "length a = WIDTH" "m q = Some c"
    using dgw_loop_24 [OF assms(1,2,5)] by metis
  have T: "word_of_int (24 * nPowTargetSpacing params) \<noteq> (0 :: u64)"
    using assms(3) by (intro word_pos) (auto simp: params_ok_def)
  define A where "A = clamp_time (cdiv (24 * nPowTargetSpacing params) 10) (24 * nPowTargetSpacing params * 10) (idx_GetBlockTime b - idx_GetBlockTime c)"
  show ?thesis
  proof (cases "fPowAllowMinDifficultyBlocks params \<and> GetBlockTime pblock > idx_GetBlockTime b + nPowTargetSpacing params * 2")
    case True
    then have "DarkGravityWave m (Some p) pblock params = GetCompact lim False"
      using assms by (simp add: DarkGravityWave_def Let_def lim_def)
    then show ?thesis using limit_target [OF lim(1) lim(1)] lim(2) by simp
  next
    case False
    then have "DarkGravityWave m (Some p) pblock params = retarget a A (24 * nPowTargetSpacing params) lim"
      using assms a by (auto simp: DarkGravityWave_def Let_def lim_def A_def)
    then show ?thesis using retarget_target [OF a(2) lim(1) T, of A] lim(2) by simp
  qed
qed

lemma uint_div_some:
  assumes "length x = WIDTH" and "unat d \<noteq> 0"
  obtains q where "uint_div x (uint_of64 d) = Some q" and "length q = WIDTH"
proof -
  have "uval (uint_of64 d) \<noteq> 0" "length (uint_of64 d) = WIDTH" using assms(2) by (simp_all add: uval_uint_of64)
  then show thesis using that uint_div_correct [of x "uint_of64 d"] assms(1)
    by (cases "uint_div x (uint_of64 d)") auto
qed

text \<open>The step of the loop of \<open>KimotoGravityWell\<close> on its average.\<close>

lemma kgw_average:
  assumes "length t = WIDTH" and "length prev = WIDTH"
  obtains avg where "(if i > 1 then
       if CompareTo t prev \<ge> 0 then map_option (\<lambda>q. uint_add q prev) (uint_div (uint_sub t prev) (uint_of64 (ucast (i :: u32))))
       else map_option (\<lambda>q. uint_sub prev q) (uint_div (uint_sub prev t) (uint_of64 (ucast i)))
     else Some t) = Some avg" and "length avg = WIDTH"
proof (cases "i > 1")
  case True
  then have "unat i \<noteq> 0" by (auto simp: unat_eq_zero)
  moreover have "unat (ucast i :: u64) = unat i"
    using unat_u32_less [of i] by (simp add: unsigned_ucast_eq take_bit_nat_eq_self_iff)
  ultimately have i: "unat (ucast i :: u64) \<noteq> 0" by simp
  obtain q where q: "uint_div (uint_sub t prev) (uint_of64 (ucast i)) = Some q" "length q = WIDTH"
    using uint_div_some [of "uint_sub t prev" "ucast i"] assms i by auto
  obtain r where r: "uint_div (uint_sub prev t) (uint_of64 (ucast i)) = Some r" "length r = WIDTH"
    using uint_div_some [of "uint_sub prev t" "ucast i"] assms i by auto
  show thesis using that [of "if CompareTo t prev \<ge> 0 then uint_add q prev else uint_sub prev r"] True q r assms by simp
next
  case False
  then show thesis using that [of t] assms by simp
qed

lemma kgw_loop_returns:
  assumes "index_ok m"
  shows "m p = Some b \<Longrightarrow> length prev = WIDTH \<Longrightarrow>
    \<exists>avg x y. kgw_loop m fl params lo hi solved i p prev x0 (sint (w :: u64)) = Some (avg, x, sint (y :: u64)) \<and> length avg = WIDTH"
proof (induction "nHeight b" arbitrary: p b i prev x0 w)
  case 0
  then show ?case by (subst kgw_loop.simps) (simp, blast)
next
  case (Suc h)
  obtain q c where q: "pprev b = Some q" "m q = Some c" "nHeight b = Suc (nHeight c)"
    using assms Suc by (elim pprev_cases [of m p b]) auto
  define t where "t = fst (SetCompact (idx_nBits b))"
  obtain avg where avg: "(if i > 1 then
       if CompareTo t prev \<ge> 0 then map_option (\<lambda>q. uint_add q prev) (uint_div (uint_sub t prev) (uint_of64 (ucast i)))
       else map_option (\<lambda>q. uint_sub prev q) (uint_div (uint_sub prev t) (uint_of64 (ucast i)))
     else Some t) = Some avg" "length avg = WIDTH"
    using kgw_average [of t prev i] Suc.prems(2) by (auto simp: t_def)
  have rest: "\<exists>a x y. kgw_loop m fl params lo hi solved (i + 1) q avg x1 (sint (w1 :: u64)) = Some (a, x, sint (y :: u64)) \<and> length a = WIDTH"
    for x1 w1 using Suc.hyps(1) [of c q avg "i + 1" x1 w1] Suc.hyps(2) q avg(2) by simp
  show ?case
  proof (cases "hi > 0 \<and> ucast i > hi")
    case True
    then show ?thesis using Suc.prems by (subst kgw_loop.simps) (simp, blast)
  next
    case False
    then show ?thesis using Suc.prems q avg rest unfolding t_def
      by (subst kgw_loop.simps) (auto simp: Let_def)
  qed
qed

lemma KimotoGravityWell_target:
  assumes "index_ok m" and "m p = Some b" and "params_ok params"
  shows "\<exists>c. KimotoGravityWell m fl (Some p) params = Some c \<and> proper_target c \<and> compact_nat c \<le> le_val (powLimit params)"
proof -
  define lim where "lim = UintToArith256 (powLimit params)"
  have lim: "length lim = WIDTH" "uval lim = le_val (powLimit params)"
    using uval_UintToArith256 [of "powLimit params"] assms(3) by (simp_all add: lim_def params_ok_def)
  define sp where "sp = (word_of_int (nPowTargetSpacing params) :: u64)"
  have sp: "sp \<noteq> 0" using assms(3) unfolding sp_def by (intro word_pos) (auto simp: params_ok_def)
  define lo hi where "lo = fortieth fl (nPowTargetTimespan params) div sp" and "hi = word_of_int (nPowTargetTimespan params * 7) div sp"
  obtain avg x w where k: "kgw_loop m fl params lo hi b 1 p uint_zero 0 0 = Some (avg, x, sint (w :: u64))" "length avg = WIDTH"
    using kgw_loop_returns [OF assms(1), of p b uint_zero fl params lo hi b 1 0 0] assms(2) by (auto simp: uint_zero_def)
  have "KimotoGravityWell m fl (Some p) params =
      (if nHeight b \<le> 1000 \<or> of_nat (nHeight b) < lo then GetCompact lim False
       else if x \<noteq> 0 \<and> sint w \<noteq> 0 then retarget avg x (sint w) lim
       else GetCompact (if CompareTo avg lim > 0 then lim else avg) False)"
    using assms(2) sp k
    unfolding KimotoGravityWell_def Let_def lim_def [symmetric] sp_def [symmetric] lo_def [symmetric] hi_def [symmetric] by simp
  moreover have "\<exists>c. GetCompact lim False = Some c \<and> proper_target c \<and> compact_nat c \<le> uval lim"
    using limit_target [OF lim(1) lim(1)] by simp
  moreover have "\<exists>c. retarget avg x (sint w) lim = Some c \<and> proper_target c \<and> compact_nat c \<le> uval lim" if "sint w \<noteq> 0"
    using retarget_target [OF k(2) lim(1), of "sint w" x] that by (cases "w = 0") auto
  ultimately show ?thesis using limit_target [OF k(2) lim(1)] lim(2) by (simp split: if_split)
qed

lemma cdiv_nonneg: "0 \<le> a \<Longrightarrow> 0 \<le> b \<Longrightarrow> cdiv a b = a div b"
  by (cases "a = 0"; cases "b = 0") (auto simp: cdiv_def)

lemma crem_nonneg: "0 \<le> a \<Longrightarrow> 0 \<le> b \<Longrightarrow> crem a b = a mod b"
  by (simp add: crem_def cdiv_nonneg minus_mult_div_eq_mod)

lemma btc_walk_returns:
  assumes "index_ok m"
  shows "m p = Some b \<Longrightarrow> \<exists>c. btc_walk m i limit p = Some c"
proof (induction "nHeight b" arbitrary: p b)
  case 0
  then show ?case using pprev_None_iff [OF assms, of p b] by (subst btc_walk.simps) simp
next
  case (Suc h)
  obtain q c where q: "pprev b = Some q" "m q = Some c" "nHeight b = Suc (nHeight c)"
    using assms Suc by (elim pprev_cases [of m p b]) auto
  then show ?case using Suc.hyps(1) [of c q] Suc.hyps(2) Suc.prems by (subst btc_walk.simps) auto
qed

lemma CalculateNextWorkRequired_returns:
  assumes "params_ok params"
  shows "\<exists>c. CalculateNextWorkRequired b t params = Some c"
proof -
  have T: "word_of_int (nPowTargetTimespan params) \<noteq> (0 :: u64)"
    using assms by (intro word_pos) (auto simp: params_ok_def)
  have "length (UintToArith256 (powLimit params)) = WIDTH" using assms uval_UintToArith256(2) by (auto simp: params_ok_def)
  from retarget_target [OF length_SetCompact this T] show ?thesis by (auto simp: CalculateNextWorkRequired_def Let_def)
qed

lemma GetNextWorkRequiredBTC_returns:
  assumes "index_ok m" and "m p = Some b" and "params_ok params"
  shows "\<exists>c. GetNextWorkRequiredBTC m (Some p) pblock params = Some c"
proof -
  define i where "i = DifficultyAdjustmentInterval params"
  have i: "0 < i" "nPowTargetSpacing params \<noteq> 0" using interval_pos [OF assms(3)] assms(3) by (auto simp: i_def params_ok_def)
  obtain l where l: "GetCompact (UintToArith256 (powLimit params)) False = Some l"
    using GetCompact_target [of "UintToArith256 (powLimit params)"] uval_UintToArith256(2) [of "powLimit params"] assms(3)
    unfolding params_ok_def by metis
  obtain w where w: "btc_walk m i l p = Some w" using btc_walk_returns [OF assms(1,2)] by auto
  have adjust: "\<exists>q e. GetAncestor m p (int (nHeight b) - (i - 1)) = Some (Some q) \<and> m q = Some e \<and> 0 \<le> int (nHeight b) - (i - 1)"
    if r: "crem (int (nHeight b) + 1) i = 0"
  proof -
    have "i \<le> int (nHeight b) + 1" using r i(1) zdvd_imp_le [of i "int (nHeight b) + 1"] by (simp add: crem_nonneg dvd_eq_mod_eq_0)
    then have h: "0 \<le> int (nHeight b) - (i - 1)" "int (nHeight b) - (i - 1) \<le> int (nHeight b)" using i(1) by simp_all
    obtain q e where "nth_prev m p (nHeight b - nat (int (nHeight b) - (i - 1))) = Some q" "m q = Some e"
      using back_height [OF assms(1,2), of "nHeight b - nat (int (nHeight b) - (i - 1))"] by auto
    then show ?thesis using GetAncestor_back [OF assms(1,2), of "int (nHeight b) - (i - 1)"] h by auto
  qed
  show ?thesis
  proof (cases "crem (int (nHeight b) + 1) i = 0")
    case True
    then obtain q e where q: "GetAncestor m p (int (nHeight b) - (i - 1)) = Some (Some q)" "m q = Some e" "\<not> int (nHeight b) - (i - 1) < 0"
      using adjust by auto
    obtain c where "CalculateNextWorkRequired b (idx_GetBlockTime e) params = Some c"
      using CalculateNextWorkRequired_returns [OF assms(3)] by blast
    then show ?thesis using True l i assms(2) q unfolding GetNextWorkRequiredBTC_def i_def by (simp add: Let_def)
  next
    case False
    then show ?thesis using l i w assms(2) unfolding GetNextWorkRequiredBTC_def i_def by (simp add: Let_def)
  qed
qed

lemma le_val_replicate_ff: "le_val (replicate n 0xff) + 1 = 256 ^ n"
proof (induction n)
  case (Suc n)
  have "unat (0xff :: byte) = 255" by simp
  then show ?case using Suc by (simp add: algebra_simps)
qed simp

lemma regtest_number: "uval (UintToArith256 regtest_powLimit) = 2 ^ 255 - 1" "length (UintToArith256 regtest_powLimit) = WIDTH"
proof -
  have len: "length regtest_powLimit = 32" by (simp add: regtest_powLimit_def)
  have "le_val (replicate 31 0xff) + 1 = 256 ^ 31" by (rule le_val_replicate_ff)
  moreover have "le_val [0x7f] = 127" by simp
  ultimately have "le_val regtest_powLimit = 2 ^ 255 - 1" unfolding regtest_powLimit_def le_val_append by simp
  then show "uval (UintToArith256 regtest_powLimit) = 2 ^ 255 - 1" "length (UintToArith256 regtest_powLimit) = WIDTH"
    using uval_UintToArith256 [OF len] by (simp_all only:)
qed

lemma regtest_bits: "GetCompact (UintToArith256 regtest_powLimit) False = Some 0x207fffff"
proof -
  define a where "a = UintToArith256 regtest_powLimit"
  have a: "length a = WIDTH" "uval a = 2 ^ 255 - 1" using regtest_number by (simp_all only: a_def)
  have "uint_bits a = 255"
    using bits_unique [OF uint_bits_bounds(1,2) [of a], of 255] a(2) by simp
  then have "compact_parts (uval a) (uint_bits a) = (0x7fffff, 32)" unfolding a(2) by (simp add: compact_parts_def Let_def)
  then show ?thesis using GetCompact_word [OF a(1), of False] unfolding a_def [symmetric] by (simp add: compact_word_def)
qed

lemma main_params_ok: "params_ok main_params"
  by (simp add: params_ok_def main_params_def)

lemma main_powLimit: "le_val (powLimit main_params) = 2 ^ 236 - 1"
proof -
  have "le_val (replicate 29 0xff) + 1 = 256 ^ 29" by (rule le_val_replicate_ff)
  moreover have "le_val [0x0f, 0, 0] = 15" by simp
  moreover have "powLimit main_params = replicate 29 0xff @ [0x0f, 0, 0]" by (simp only: main_params_def ConsensusParams.simps)
  ultimately show ?thesis by (simp only: le_val_append length_replicate) simp
qed

section \<open>Properties\<close>

text \<open>
  C16. \<open>GetNextWorkRequired\<close> returns for every block of a well-formed index: the loops of all three rules end, no assertion
  fails and no division is by zero. With \<open>DarkGravityWave\<close> the first 24 successors of the genesis block get the limit of the
  regression test network; after them, and with \<open>KimotoGravityWell\<close>, the required target is positive or zero, does not
  overflow and is not above the limit of the network.
\<close>

theorem GetNextWorkRequired_returns:
  assumes "index_ok m" and "m p = Some b" and "params_ok params"
  shows "case GetNextWorkRequired m fl (Some p) pblock params of
      None \<Rightarrow> False
    | Some c \<Rightarrow>
        (nPowDGWHeight params \<le> int (nHeight b) + 1 \<and> \<not> fPowNoRetargeting params \<longrightarrow>
           (if nHeight b \<le> 24 then c = 0x207fffff else proper_target c \<and> compact_nat c \<le> le_val (powLimit params)))
        \<and> (int (nHeight b) + 1 < nPowDGWHeight params \<and> nPowKGWHeight params \<le> int (nHeight b) + 1 \<longrightarrow>
           proper_target c \<and> compact_nat c \<le> le_val (powLimit params))"
proof -
  consider (dgw) "nPowDGWHeight params \<le> int (nHeight b) + 1"
    | (kgw) "int (nHeight b) + 1 < nPowDGWHeight params" "nPowKGWHeight params \<le> int (nHeight b) + 1"
    | (btc) "int (nHeight b) + 1 < nPowDGWHeight params" "int (nHeight b) + 1 < nPowKGWHeight params" by linarith
  then show ?thesis
  proof cases
    case dgw
    then have "GetNextWorkRequired m fl (Some p) pblock params = DarkGravityWave m (Some p) pblock params"
      using assms(2) by (simp add: GetNextWorkRequired_def)
    moreover have "nHeight b \<le> 24 \<Longrightarrow> \<not> fPowNoRetargeting params \<Longrightarrow> DarkGravityWave m (Some p) pblock params = Some 0x207fffff"
      using assms(2) regtest_bits by (simp add: DarkGravityWave_def Let_def)
    moreover have "fPowNoRetargeting params \<Longrightarrow> DarkGravityWave m (Some p) pblock params = Some (idx_nBits b)"
      using assms(2) by (simp add: DarkGravityWave_def)
    ultimately show ?thesis using dgw DarkGravityWave_target [OF assms, of pblock]
      by (cases "fPowNoRetargeting params"; cases "nHeight b \<le> 24") (auto simp: not_le)
  next
    case kgw
    then have "GetNextWorkRequired m fl (Some p) pblock params = KimotoGravityWell m fl (Some p) params"
      using assms(2) by (simp add: GetNextWorkRequired_def)
    then show ?thesis using KimotoGravityWell_target [OF assms, of fl] kgw by auto
  next
    case btc
    then have "GetNextWorkRequired m fl (Some p) pblock params = GetNextWorkRequiredBTC m (Some p) pblock params"
      using assms(2) by (simp add: GetNextWorkRequired_def)
    then show ?thesis using GetNextWorkRequiredBTC_returns [OF assms, of pblock] btc by auto
  qed
qed

theorem GetNextWorkRequired_returns_witness:
  "GetNextWorkRequired (line_index 1 1000 0x207fffff 9)
     \<lparr>fortieth = (\<lambda>t. word_of_int (t div 40)), outside_horizon = (\<lambda>mass actual target. actual > 2 * target)\<rparr> (Some (line_key 9)) CPureBlockHeader_null main_params = Some 0x207fffff"
proof -
  have n: "(9 :: nat) < 256" by simp
  have k: "line_index 1 1000 0x207fffff 9 (line_key 9) = Some (line_block 1 1000 0x207fffff 9)" by (rule line_index_key) simp_all
  have h: "nHeight (line_block 1 1000 0x207fffff 9) = 9" by (simp add: line_block_def)
  have "nPowDGWHeight main_params = 0" "\<not> fPowNoRetargeting main_params" by (simp_all add: main_params_def)
  then show ?thesis
    using GetNextWorkRequired_returns [OF index_ok_line [OF n] k main_params_ok,
        of "\<lparr>fortieth = (\<lambda>t. word_of_int (t div 40)), outside_horizon = (\<lambda>mass actual target. actual > 2 * target)\<rparr>"
           CPureBlockHeader_null, unfolded h]
    by (auto split: option.splits)
qed

text \<open>
  C40. \<open>CheckProofOfWork\<close> accepts a hash exactly when the claimed target is positive, does not overflow, is not above the
  limit of the network and is not below the hash, or when the node is not on the regression test network and the claimed
  target is the limit of that network: such a block needs no work at all.
\<close>

theorem CheckProofOfWork_iff:
  assumes "length hash = 32" and "length (powLimit params) = 32"
  shows "CheckProofOfWork on_regtest hash bits params = Some
    (\<not> on_regtest \<and> bits = 0x207fffff
     \<or> proper_target bits \<and> 0 < compact_nat bits \<and> compact_nat bits \<le> le_val (powLimit params) \<and> le_val hash \<le> compact_nat bits)"
proof -
  obtain t neg ovf where t: "SetCompact bits = (t, neg, ovf)" by (cases "SetCompact bits")
  note v = SetCompact_nat(1,2) [OF t]
  have h: "uval (UintToArith256 hash) = le_val hash" "length (UintToArith256 hash) = WIDTH"
      "uval (UintToArith256 (powLimit params)) = le_val (powLimit params)" "length (UintToArith256 (powLimit params)) = WIDTH"
    using uval_UintToArith256 assms by blast+
  have "CheckProofOfWork on_regtest hash bits params = Some (\<not> on_regtest \<and> bits = 0x207fffff
      \<or> \<not> neg \<and> \<not> ovf \<and> uval t \<noteq> 0 \<and> \<not> le_val (powLimit params) < uval t \<and> \<not> uval t < le_val hash)"
    using t v(1) h CompareTo_gt [of t "UintToArith256 (powLimit params)"] CompareTo_gt [of "UintToArith256 hash" t]
    unfolding CheckProofOfWork_def regtest_bits by (simp add: EqualTo_iff)
  then show ?thesis using v(2) t by (cases ovf) (auto simp: proper_target_def)
qed

theorem CheckProofOfWork_iff_witness:
  "CheckProofOfWork False (replicate 32 0xff) 0x207fffff main_params = Some True"
  using CheckProofOfWork_iff [of "replicate 32 0xff" main_params False "0x207fffff"] main_params_ok by (simp add: params_ok_def)


lemma past_targets_line:
  assumes "n < 256" and "j \<le> n + 1"
  shows "past_targets (line_index ver t bits n) (line_key n) j = replicate j (uval (fst (SetCompact bits)))"
proof (rule nth_equalityI)
  fix i assume "i < length (past_targets (line_index ver t bits n) (line_key n) j)"
  then have i: "i < j" by (simp add: past_targets_def)
  then show "past_targets (line_index ver t bits n) (line_key n) j ! i = replicate j (uval (fst (SetCompact bits))) ! i"
    using nth_prev_line [OF assms(1), of n i ver t bits] assms line_index_key [OF assms(1), of "n - i" ver t bits]
    by (simp add: past_targets_def block_target_def line_block_def line_base_def)
qed (simp add: past_targets_def)


end
