(* ===== verification/Median_Time.thy ===== *)
theory Median_Time
  imports Chain "HOL-Library.Multiset"
begin

text \<open>
  The median of the times of a block and its ten nearest ancestors (\<open>CBlockIndex::GetMedianTimePast\<close>): it exists for
  every block of a well-formed index, and it does not decrease along a chain in which every block is not older than the
  median time of its predecessor.
\<close>

section \<open>Medians\<close>

definition median :: "int list \<Rightarrow> int" where
  "median ts = (let s = sort (rev ts) in s ! (length s div 2))"

lemma sorted_nth_ge_iff:
  "sorted xs \<Longrightarrow> k < length xs \<Longrightarrow> v \<le> xs ! k \<longleftrightarrow> length (filter (\<lambda>x. x < v) xs) \<le> (k :: nat)" for xs :: "int list"
proof (induction xs arbitrary: k)
  case (Cons x xs)
  show ?case
  proof (cases "v \<le> x")
    case True
    then have ge: "v \<le> y" if "y \<in> set (x # xs)" for y using Cons.prems(1) that by fastforce
    then have "filter (\<lambda>x. x < v) (x # xs) = []" by (fastforce simp: filter_empty_conv)
    moreover have "v \<le> (x # xs) ! k" using ge nth_mem [OF Cons.prems(2)] by blast
    ultimately show ?thesis by simp
  next
    case False
    then show ?thesis using Cons by (cases k) auto
  qed
qed simp

lemma median_ge_iff: "ts \<noteq> [] \<Longrightarrow> v \<le> median ts \<longleftrightarrow> length (filter (\<lambda>x. x < v) ts) \<le> length ts div 2"
proof -
  assume ne: "ts \<noteq> []"
  have "mset (filter (\<lambda>x. x < v) (sort (rev ts))) = mset (filter (\<lambda>x. x < v) ts)" by simp
  then have "length (filter (\<lambda>x. x < v) (sort (rev ts))) = length (filter (\<lambda>x. x < v) ts)" by (rule mset_eq_length)
  then show ?thesis using sorted_nth_ge_iff [of "sort (rev ts)" "length ts div 2" v] ne by (simp add: median_def Let_def)
qed

text \<open>A new time that is not below the median, and the loss of some old times, do not lower the median.\<close>

lemma median_push:
  assumes "ts \<noteq> []" and "median ts \<le> t" and "length (take n ts) + 1 \<ge> length ts"
  shows "median ts \<le> median (t # take n ts)"
proof -
  have "length (filter (\<lambda>x. x < median ts) (take n ts)) \<le> length (filter (\<lambda>x. x < median ts) ts)"
    by (metis append_take_drop_id filter_append le_add1 length_append)
  also have "\<dots> \<le> length ts div 2" using median_ge_iff [OF assms(1), of "median ts"] by simp
  also have "\<dots> \<le> length (t # take n ts) div 2" using assms(3) by (intro div_le_mono) simp
  finally show ?thesis using assms(2) median_ge_iff [of "t # take n ts" "median ts"] by simp
qed

section \<open>Median times of blocks\<close>

lemma median_times_returns:
  assumes "index_ok m"
  shows "m p = Some b \<Longrightarrow> \<exists>ts. median_times m n (Some p) = Some ts \<and> length ts = min n (Suc (nHeight b))"
proof (induction n arbitrary: p b)
  case (Suc n)
  from assms Suc.prems show ?case
  proof (cases rule: pprev_cases)
    case 1
    then show ?thesis using Suc.prems by (cases n) simp_all
  next
    case (2 q c)
    then show ?thesis using Suc.IH [of q c] Suc.prems by auto
  qed
qed simp

lemma median_times_take: "median_times m (Suc n) x = Some ts \<Longrightarrow> median_times m n x = Some (take n ts)"
proof (induction n arbitrary: x ts)
  case (Suc n)
  then show ?case by (cases x) (auto simp: bind_eq_Some_conv simp del: median_times.simps(3) simp: median_times.simps(3) [of m "Suc n"] median_times.simps(3) [of m n])
qed simp

definition mtp :: "BlockMap \<Rightarrow> uint256 \<Rightarrow> int" where
  "mtp m p = the (GetMedianTimePast m p)"

lemma GetMedianTimePast_mtp: "index_ok m \<Longrightarrow> m p = Some b \<Longrightarrow> GetMedianTimePast m p = Some (mtp m p)"
  using median_times_returns [of m p b 11] by (auto simp: mtp_def GetMedianTimePast_def Let_def)

lemma mtp_median: "median_times m 11 (Some p) = Some ts \<Longrightarrow> mtp m p = median ts"
  by (simp add: mtp_def GetMedianTimePast_def median_def Let_def)

definition times_ok :: "BlockMap \<Rightarrow> bool" where
  "times_ok m \<longleftrightarrow> (\<forall>p b q. m p = Some b \<longrightarrow> pprev b = Some q \<longrightarrow> mtp m q \<le> idx_GetBlockTime b)"

lemma mtp_pprev:
  assumes "index_ok m" and "times_ok m" and "m p = Some b" and "pprev b = Some q"
  shows "mtp m q \<le> mtp m p"
proof -
  obtain c where c: "m q = Some c" using assms(1,3,4) by (elim pprev_cases [of m p b]) auto
  obtain ts where ts: "median_times m 11 (Some q) = Some ts" "length ts = min 11 (Suc (nHeight c))"
    using median_times_returns [OF assms(1) c] by blast
  have "median_times m 10 (Some q) = Some (take 10 ts)" using median_times_take [of m 10 "Some q" ts] ts(1) by simp
  then have "median_times m 11 (Some p) = Some (idx_GetBlockTime b # take 10 ts)"
    using assms(3,4) median_times.simps(3) [of m 10 p] by simp
  moreover have "median ts \<le> idx_GetBlockTime b" using assms(2-4) unfolding mtp_median [OF ts(1), symmetric] times_ok_def by blast
  moreover have "ts \<noteq> []" "length (take 10 ts) + 1 \<ge> length ts" using ts(2) by auto
  ultimately show ?thesis using median_push [of ts "idx_GetBlockTime b" 10] mtp_median ts(1) by simp
qed

lemma mtp_mono:
  assumes "index_ok m" and "times_ok m"
  shows "m p = Some b \<Longrightarrow> nth_prev m p n = Some q \<Longrightarrow> mtp m q \<le> mtp m p"
proof (induction n arbitrary: p b)
  case (Suc n)
  then obtain r where r: "pprev b = Some r" "nth_prev m r n = Some q" by (auto simp: bind_eq_Some_conv)
  then obtain c where "m r = Some c" using assms(1) Suc.prems(1) by (elim pprev_cases [of m p b]) auto
  then show ?case using Suc.IH [of r c] r mtp_pprev [OF assms Suc.prems(1) r(1)] by simp
qed simp

end
