(* ===== verification/VersionBits.thy ===== *)
theory VersionBits
  imports Pow Median_Time
begin

text \<open>
  Deployments of rule changes by version bits (\<open>versionbits.h\<close>, \<open>versionbits.cpp\<close>). The abstract class
  \<open>AbstractThresholdConditionChecker\<close> is a record of its virtual functions, applied to the parameters of the network. The
  cache is a map from the parent blocks of periods, \<open>None\<close> for \<open>NULL\<close>, to their states, and is returned updated.
  The first part of the theory is the model; the second part defines the state of a block by recursion over the periods,
  without a cache, and shows that the cached computation returns it.
\<close>

unbundle bit_operations_syntax

section \<open>The checker and its cache\<close>

datatype ThresholdState =
  THRESHOLD_DEFINED | THRESHOLD_STARTED | THRESHOLD_LOCKED_IN | THRESHOLD_ACTIVE | THRESHOLD_FAILED

type_synonym ThresholdConditionCache = "uint256 option \<Rightarrow> ThresholdState option"

record ThresholdChecker =
  Condition :: "CBlockIndex \<Rightarrow> bool"
  BeginTime :: int
  EndTime :: int
  Period :: int
  Threshold :: int

text \<open>The number of blocks that signal, over a number of blocks back from a block.\<close>

fun count_loop :: "BlockMap \<Rightarrow> (CBlockIndex \<Rightarrow> bool) \<Rightarrow> nat \<Rightarrow> uint256 option \<Rightarrow> int option" where
  "count_loop m cond 0 pindexCount = Some 0"
| "count_loop m cond (Suc n) None = None"
| "count_loop m cond (Suc n) (Some p) =
     do { b \<leftarrow> m p;
          count \<leftarrow> count_loop m cond n (pprev b);
          Some (if cond b then count + 1 else count) }"

definition state_step :: "BlockMap \<Rightarrow> ThresholdChecker \<Rightarrow> uint256 \<Rightarrow> ThresholdState \<Rightarrow> ThresholdState option" where
  "state_step m ck pindexPrev state =
     (case state of
        THRESHOLD_DEFINED \<Rightarrow>
          do { mtp \<leftarrow> GetMedianTimePast m pindexPrev;
               Some (if mtp \<ge> EndTime ck then THRESHOLD_FAILED
                     else if mtp \<ge> BeginTime ck then THRESHOLD_STARTED
                     else state) }
      | THRESHOLD_STARTED \<Rightarrow>
          do { mtp \<leftarrow> GetMedianTimePast m pindexPrev;
               if mtp \<ge> EndTime ck then Some THRESHOLD_FAILED
               else do { count \<leftarrow> count_loop m (Condition ck) (nat (Period ck)) (Some pindexPrev);
                         Some (if count \<ge> Threshold ck then THRESHOLD_LOCKED_IN else state) } }
      | THRESHOLD_LOCKED_IN \<Rightarrow> Some THRESHOLD_ACTIVE
      | THRESHOLD_FAILED \<Rightarrow> Some state
      | THRESHOLD_ACTIVE \<Rightarrow> Some state)"

text \<open>The parent block of the period of a block.\<close>

definition period_start :: "BlockMap \<Rightarrow> ThresholdChecker \<Rightarrow> uint256 \<Rightarrow> uint256 option option" where
  "period_start m ck p =
     do { b \<leftarrow> m p;
          if Period ck = 0 then None
          else GetAncestor m p (int (nHeight b) - crem (int (nHeight b) + 1) (Period ck)) }"

text \<open>The walk back to a block whose state is known.\<close>

partial_function (option) collect_loop ::
  "BlockMap \<Rightarrow> ThresholdChecker \<Rightarrow> uint256 option \<Rightarrow> uint256 list \<Rightarrow> ThresholdConditionCache
   \<Rightarrow> (uint256 option \<times> uint256 list \<times> ThresholdConditionCache) option" where
  "collect_loop m ck pindexPrev vToCompute cache =
     (if cache pindexPrev \<noteq> None then Some (pindexPrev, vToCompute, cache)
      else
        case pindexPrev of
          None \<Rightarrow> Some (None, vToCompute, cache(None \<mapsto> THRESHOLD_DEFINED))
        | Some p \<Rightarrow>
            Option.bind (GetMedianTimePast m p) (\<lambda>mtp.
              if mtp < BeginTime ck then Some (Some p, vToCompute, cache(Some p \<mapsto> THRESHOLD_DEFINED))
              else
                Option.bind (m p) (\<lambda>b.
                Option.bind (GetAncestor m p (int (nHeight b) - Period ck)) (\<lambda>q.
                  collect_loop m ck q (vToCompute @ [p]) cache))))"

text \<open>The walk forward over the collected blocks, the last one first.\<close>

fun forward_loop ::
  "BlockMap \<Rightarrow> ThresholdChecker \<Rightarrow> uint256 list \<Rightarrow> ThresholdState \<Rightarrow> ThresholdConditionCache
   \<Rightarrow> (ThresholdState \<times> ThresholdConditionCache) option" where
  "forward_loop m ck [] state cache = Some (state, cache)"
| "forward_loop m ck (p # ps) state cache =
     do { stateNext \<leftarrow> state_step m ck p state;
          forward_loop m ck ps stateNext (cache(Some p \<mapsto> stateNext)) }"

definition GetStateFor ::
  "BlockMap \<Rightarrow> ThresholdChecker \<Rightarrow> uint256 option \<Rightarrow> ThresholdConditionCache \<Rightarrow> (ThresholdState \<times> ThresholdConditionCache) option" where
  "GetStateFor m ck pindexPrev cache =
     do { start \<leftarrow> (case pindexPrev of None \<Rightarrow> Some None | Some p \<Rightarrow> period_start m ck p);
          (known, vToCompute, cache) \<leftarrow> collect_loop m ck start [] cache;
          state \<leftarrow> cache known;
          forward_loop m ck (rev vToCompute) state cache }"

partial_function (option) since_loop ::
  "BlockMap \<Rightarrow> ThresholdChecker \<Rightarrow> ThresholdState \<Rightarrow> uint256 \<Rightarrow> uint256 option \<Rightarrow> ThresholdConditionCache
   \<Rightarrow> (uint256 \<times> ThresholdConditionCache) option" where
  "since_loop m ck initialState pindexPrev previousPeriodParent cache =
     (case previousPeriodParent of
        None \<Rightarrow> Some (pindexPrev, cache)
      | Some q \<Rightarrow>
          Option.bind (GetStateFor m ck (Some q) cache) (\<lambda>(state, cache).
            if state = initialState then
              Option.bind (m q) (\<lambda>b.
              Option.bind (GetAncestor m q (int (nHeight b) - Period ck)) (\<lambda>previous.
                since_loop m ck initialState q previous cache))
            else Some (pindexPrev, cache)))"

definition GetStateSinceHeightFor ::
  "BlockMap \<Rightarrow> ThresholdChecker \<Rightarrow> uint256 option \<Rightarrow> ThresholdConditionCache \<Rightarrow> (int \<times> ThresholdConditionCache) option" where
  "GetStateSinceHeightFor m ck pindexPrev cache =
     do { (initialState, cache) \<leftarrow> GetStateFor m ck pindexPrev cache;
          if initialState = THRESHOLD_DEFINED then Some (0, cache)
          else
            do { p \<leftarrow> pindexPrev;
                 start \<leftarrow> period_start m ck p;
                 s \<leftarrow> start;
                 b \<leftarrow> m s;
                 previous \<leftarrow> GetAncestor m s (int (nHeight b) - Period ck);
                 (q, cache) \<leftarrow> since_loop m ck initialState s previous cache;
                 e \<leftarrow> m q;
                 Some (int (nHeight e) + 1, cache) } }"

section \<open>Version bits\<close>

abbreviation (input) VERSIONBITS_TOP_BITS :: u32 where "VERSIONBITS_TOP_BITS \<equiv> 0x20000000"

definition VersionBitsMask :: "ConsensusParams \<Rightarrow> DeploymentPos \<Rightarrow> u32" where
  "VersionBitsMask params pos = push_bit (dep_bit (vDeployments params pos)) 1"

definition VersionBitsConditionChecker :: "ConsensusParams \<Rightarrow> DeploymentPos \<Rightarrow> ThresholdChecker" where
  "VersionBitsConditionChecker params pos =
     (let d = vDeployments params pos
      in \<lparr>Condition = (\<lambda>b. idx_nVersion b AND VERSIONBITS_TOP_MASK = VERSIONBITS_TOP_BITS
                            \<and> idx_nVersion b AND VersionBitsMask params pos \<noteq> 0),
          BeginTime = nStartTime d,
          EndTime = nTimeout d,
          Period = (if nWindowSize d \<noteq> 0 then nWindowSize d else uint (nMinerConfirmationWindow params)),
          Threshold = (if nThreshold d \<noteq> 0 then nThreshold d else uint (nRuleChangeActivationThreshold params))\<rparr>)"

type_synonym VersionBitsCache = "DeploymentPos \<Rightarrow> ThresholdConditionCache"

definition VersionBitsState ::
  "BlockMap \<Rightarrow> uint256 option \<Rightarrow> ConsensusParams \<Rightarrow> DeploymentPos \<Rightarrow> VersionBitsCache \<Rightarrow> (ThresholdState \<times> VersionBitsCache) option" where
  "VersionBitsState m pindexPrev params pos caches =
     do { (state, cache) \<leftarrow> GetStateFor m (VersionBitsConditionChecker params pos) pindexPrev (caches pos);
          Some (state, caches(pos := cache)) }"

definition VersionBitsStateSinceHeight ::
  "BlockMap \<Rightarrow> uint256 option \<Rightarrow> ConsensusParams \<Rightarrow> DeploymentPos \<Rightarrow> VersionBitsCache \<Rightarrow> (int \<times> VersionBitsCache) option" where
  "VersionBitsStateSinceHeight m pindexPrev params pos caches =
     do { (h, cache) \<leftarrow> GetStateSinceHeightFor m (VersionBitsConditionChecker params pos) pindexPrev (caches pos);
          Some (h, caches(pos := cache)) }"

definition VersionBitsCache_Clear :: "VersionBitsCache \<Rightarrow> VersionBitsCache" where
  "VersionBitsCache_Clear caches = (\<lambda>d. Map.empty)"

section \<open>The state of a period by recursion over the periods\<close>

abbreviation (input) per :: "ThresholdChecker \<Rightarrow> nat" where "per ck \<equiv> nat (Period ck)"

definition checker_ok :: "ThresholdChecker \<Rightarrow> bool" where
  "checker_ok ck \<longleftrightarrow> 0 < Period ck"

text \<open>The parent block of the period of a block, and that of the period before.\<close>

definition boundary :: "BlockMap \<Rightarrow> ThresholdChecker \<Rightarrow> uint256 \<Rightarrow> uint256 option" where
  "boundary m ck p =
     (case m p of
        None \<Rightarrow> None
      | Some b \<Rightarrow> if (nHeight b + 1) mod per ck \<le> nHeight b then nth_prev m p ((nHeight b + 1) mod per ck) else None)"

definition prev_period :: "BlockMap \<Rightarrow> ThresholdChecker \<Rightarrow> uint256 \<Rightarrow> uint256 option" where
  "prev_period m ck p =
     (case m p of None \<Rightarrow> None | Some b \<Rightarrow> if per ck \<le> nHeight b then nth_prev m p (per ck) else None)"

definition signals :: "BlockMap \<Rightarrow> ThresholdChecker \<Rightarrow> uint256 \<Rightarrow> int" where
  "signals m ck p = int (length (filter (\<lambda>i. Condition ck (the (m (the (nth_prev m p i))))) [0..<per ck]))"

text \<open>The transitions of BIP 9.\<close>

definition bip9_next :: "BlockMap \<Rightarrow> ThresholdChecker \<Rightarrow> uint256 \<Rightarrow> ThresholdState \<Rightarrow> ThresholdState" where
  "bip9_next m ck p s =
     (case s of
        THRESHOLD_DEFINED \<Rightarrow>
          if mtp m p \<ge> EndTime ck then THRESHOLD_FAILED
          else if mtp m p \<ge> BeginTime ck then THRESHOLD_STARTED else THRESHOLD_DEFINED
      | THRESHOLD_STARTED \<Rightarrow>
          if mtp m p \<ge> EndTime ck then THRESHOLD_FAILED
          else if signals m ck p \<ge> Threshold ck then THRESHOLD_LOCKED_IN else THRESHOLD_STARTED
      | THRESHOLD_LOCKED_IN \<Rightarrow> THRESHOLD_ACTIVE
      | THRESHOLD_ACTIVE \<Rightarrow> THRESHOLD_ACTIVE
      | THRESHOLD_FAILED \<Rightarrow> THRESHOLD_FAILED)"

primrec bip9 :: "BlockMap \<Rightarrow> ThresholdChecker \<Rightarrow> nat \<Rightarrow> uint256 option \<Rightarrow> ThresholdState" where
  "bip9 m ck 0 x = THRESHOLD_DEFINED"
| "bip9 m ck (Suc k) x =
     (case x of
        None \<Rightarrow> THRESHOLD_DEFINED
      | Some p \<Rightarrow> if mtp m p < BeginTime ck then THRESHOLD_DEFINED
                 else bip9_next m ck p (bip9 m ck k (prev_period m ck p)))"

definition periods :: "BlockMap \<Rightarrow> ThresholdChecker \<Rightarrow> uint256 option \<Rightarrow> nat" where
  "periods m ck x = (case x of None \<Rightarrow> 0 | Some p \<Rightarrow> (nHeight (the (m p)) + 1) div per ck)"

definition period_state :: "BlockMap \<Rightarrow> ThresholdChecker \<Rightarrow> uint256 option \<Rightarrow> ThresholdState" where
  "period_state m ck x = bip9 m ck (periods m ck x) x"

definition bip9_state :: "BlockMap \<Rightarrow> ThresholdChecker \<Rightarrow> uint256 option \<Rightarrow> ThresholdState" where
  "bip9_state m ck x = period_state m ck (case x of None \<Rightarrow> None | Some p \<Rightarrow> boundary m ck p)"

definition boundary_ok :: "BlockMap \<Rightarrow> ThresholdChecker \<Rightarrow> uint256 option \<Rightarrow> bool" where
  "boundary_ok m ck x \<longleftrightarrow> (case x of None \<Rightarrow> True | Some p \<Rightarrow> (case m p of None \<Rightarrow> False | Some b \<Rightarrow> per ck dvd nHeight b + 1))"

lemma boundary_ok_None [simp]: "boundary_ok m ck None"
  by (simp add: boundary_ok_def)

lemma boundary_ok_Some: "boundary_ok m ck (Some p) \<longleftrightarrow> (\<exists>b. m p = Some b \<and> per ck dvd nHeight b + 1)"
  by (simp add: boundary_ok_def split: option.splits)

lemma boundary_ok_boundary:
  assumes "index_ok m" and "checker_ok ck" and "m p = Some b"
  shows "boundary_ok m ck (boundary m ck p)"
proof (cases "(nHeight b + 1) mod per ck \<le> nHeight b")
  case True
  then obtain q c where q: "nth_prev m p ((nHeight b + 1) mod per ck) = Some q" "m q = Some c" "nHeight c = nHeight b - (nHeight b + 1) mod per ck"
    using back_height [OF assms(1,3)] by blast
  have "nHeight c + 1 = (nHeight b + 1) - (nHeight b + 1) mod per ck" using q(3) True by simp
  then have "per ck dvd nHeight c + 1" by (metis dvd_minus_mod)
  then show ?thesis using True q assms(3) by (simp add: boundary_def boundary_ok_Some)
next
  case False
  then show ?thesis using assms(3) by (simp add: boundary_def)
qed

lemma prev_period_ok:
  assumes "index_ok m" and "checker_ok ck" and "m p = Some b" and "per ck dvd nHeight b + 1"
  shows "boundary_ok m ck (prev_period m ck p)" and "periods m ck (Some p) = Suc (periods m ck (prev_period m ck p))"
    and "GetAncestor m p (int (nHeight b) - Period ck) = Some (prev_period m ck p)"
proof -
  define P where "P = per ck"
  have P: "0 < P" "Period ck = int P" using assms(2) by (simp_all add: P_def checker_ok_def)
  have le: "P \<le> nHeight b + 1" using assms(4) by (auto simp: P_def dest: dvd_imp_le)
  have "boundary_ok m ck (prev_period m ck p) \<and> periods m ck (Some p) = Suc (periods m ck (prev_period m ck p))
      \<and> GetAncestor m p (int (nHeight b) - Period ck) = Some (prev_period m ck p)"
  proof (cases "P \<le> nHeight b")
    case True
    obtain q c where q: "nth_prev m p P = Some q" "m q = Some c" "nHeight c = nHeight b - P"
      using back_height [OF assms(1,3) True] by blast
    have pp: "prev_period m ck p = Some q" using True q assms(3) by (simp add: prev_period_def P_def)
    have h: "nHeight b + 1 = P + (nHeight c + 1)" using q(3) True by simp
    have "P dvd nHeight c + 1" using assms(4) h by (simp only: P_def [symmetric]) (metis dvd_add_right_iff dvd_refl)
    moreover have "(nHeight b + 1) div P = Suc ((nHeight c + 1) div P)" unfolding h using P(1) div_add_self1 [of P "nHeight c + 1"] by simp
    moreover have "GetAncestor m p (int (nHeight b) - Period ck) = Some (Some q)"
      using GetAncestor_back [OF assms(1,3), of "int (nHeight b) - Period ck"] True q(1) P
      by (simp add: nat_diff_distrib' of_nat_diff [symmetric] del: of_nat_diff)
    ultimately show ?thesis using pp q assms(3) by (simp add: boundary_ok_Some periods_def P_def [symmetric])
  next
    case False
    then have "nHeight b + 1 = P" using le by simp
    moreover have "prev_period m ck p = None" using False assms(3) by (simp add: prev_period_def P_def)
    moreover have "GetAncestor m p (int (nHeight b) - Period ck) = Some None"
      using GetAncestor_back [OF assms(1,3), of "int (nHeight b) - Period ck"] False P by simp
    ultimately show ?thesis using assms(3) P by (simp add: periods_def P_def [symmetric])
  qed
  then show "boundary_ok m ck (prev_period m ck p)" and "periods m ck (Some p) = Suc (periods m ck (prev_period m ck p))"
    and "GetAncestor m p (int (nHeight b) - Period ck) = Some (prev_period m ck p)" by blast+
qed

lemma period_state_None [simp]: "period_state m ck None = THRESHOLD_DEFINED"
  by (simp add: period_state_def periods_def)

lemma period_state_Some:
  assumes "index_ok m" and "checker_ok ck" and "boundary_ok m ck (Some p)"
  shows "period_state m ck (Some p) =
    (if mtp m p < BeginTime ck then THRESHOLD_DEFINED else bip9_next m ck p (period_state m ck (prev_period m ck p)))"
proof -
  obtain b where "m p = Some b" "per ck dvd nHeight b + 1" using assms(3) by (auto simp: boundary_ok_Some)
  then show ?thesis using prev_period_ok(2) [OF assms(1,2)] by (simp add: period_state_def)
qed

section \<open>The cached computation\<close>

lemma count_loop_returns:
  assumes "index_ok m"
  shows "m p = Some b \<Longrightarrow> n \<le> nHeight b + 1 \<Longrightarrow>
    count_loop m cond n (Some p) = Some (int (length (filter (\<lambda>i. cond (the (m (the (nth_prev m p i))))) [0..<n])))"
proof (induction n arbitrary: p b)
  case (Suc n)
  have upt: "[0..<Suc n] = 0 # map Suc [0..<n]" by (simp add: upt_conv_Cons map_Suc_upt del: upt_Suc)
  show ?case
  proof (cases n)
    case 0
    then show ?thesis using Suc.prems by simp
  next
    case (Suc n')
    then obtain q c where q: "pprev b = Some q" "m q = Some c" "nHeight b = Suc (nHeight c)"
      using assms Suc.prems by (elim pprev_cases [of m p b]) auto
    have "count_loop m cond n (Some q) = Some (int (length (filter (\<lambda>i. cond (the (m (the (nth_prev m q i))))) [0..<n])))"
      using Suc.IH [of q c] q Suc.prems by simp
    then show ?thesis using Suc.prems q unfolding upt by (simp add: filter_map comp_def)
  qed
qed simp

lemma state_step_bip9:
  assumes "index_ok m" and "checker_ok ck" and "boundary_ok m ck (Some p)"
  shows "state_step m ck p s = Some (bip9_next m ck p s)"
proof -
  obtain b where b: "m p = Some b" "per ck dvd nHeight b + 1" using assms(3) by (auto simp: boundary_ok_Some)
  have "per ck \<le> nHeight b + 1" using b(2) by (auto dest: dvd_imp_le)
  then have "count_loop m (Condition ck) (per ck) (Some p) = Some (signals m ck p)"
    using count_loop_returns [OF assms(1) b(1)] by (simp add: signals_def)
  then show ?thesis using GetMedianTimePast_mtp [OF assms(1) b(1)]
    by (auto simp: state_step_def bip9_next_def split: ThresholdState.split)
qed

text \<open>A cache is valid when it holds only states of periods.\<close>

definition cache_ok :: "BlockMap \<Rightarrow> ThresholdChecker \<Rightarrow> ThresholdConditionCache \<Rightarrow> bool" where
  "cache_ok m ck c \<longleftrightarrow> (\<forall>x s. c x = Some s \<longrightarrow> boundary_ok m ck x \<and> s = period_state m ck x)"

lemma cache_okD: "cache_ok m ck c \<Longrightarrow> c x = Some s \<Longrightarrow> s = period_state m ck x"
  by (simp add: cache_ok_def)

lemma cache_ok_upd: "cache_ok m ck c \<Longrightarrow> boundary_ok m ck x \<Longrightarrow> s = period_state m ck x \<Longrightarrow> cache_ok m ck (c(x \<mapsto> s))"
  by (auto simp: cache_ok_def)

lemma forward_loop_append:
  "forward_loop m ck (ps @ [p]) s c =
     do { (s, c) \<leftarrow> forward_loop m ck ps s c; s \<leftarrow> state_step m ck p s; Some (s, c(Some p \<mapsto> s)) }"
  by (induction ps arbitrary: s c) (auto split: bind_splits)

lemma collect_loop_correct:
  assumes "index_ok m" and "checker_ok ck"
  shows "boundary_ok m ck x \<Longrightarrow> cache_ok m ck c \<Longrightarrow>
    \<exists>known vs c'. collect_loop m ck x v c = Some (known, v @ vs, c') \<and> cache_ok m ck c'
      \<and> c' known = Some (period_state m ck known)
      \<and> (\<forall>c2. cache_ok m ck c2 \<longrightarrow>
           (\<exists>c3. forward_loop m ck (rev vs) (period_state m ck known) c2 = Some (period_state m ck x, c3) \<and> cache_ok m ck c3))"
proof (induction "periods m ck x" arbitrary: x v rule: less_induct)
  case less
  show ?case
  proof (cases "c x")
    case (Some s)
    then have "collect_loop m ck x v c = Some (x, v @ [], c)" by (subst collect_loop.simps) simp
    moreover have "c x = Some (period_state m ck x)" using Some cache_okD [OF less.prems(2) Some] by simp
    ultimately show ?thesis using less.prems(2) by fastforce
  next
    case None
    note miss = None
    show ?thesis
    proof (cases x)
      case None
      then have "collect_loop m ck x v c = Some (None, v @ [], c(None \<mapsto> THRESHOLD_DEFINED))"
        using miss by (subst collect_loop.simps) simp
      then show ?thesis using None cache_ok_upd [OF less.prems(2), of None] by fastforce
    next
      case (Some p)
      obtain b where b: "m p = Some b" "per ck dvd nHeight b + 1" using less.prems(1) Some by (auto simp: boundary_ok_Some)
      note G = GetMedianTimePast_mtp [OF assms(1) b(1)]
      note prev = prev_period_ok [OF assms b]
      note bok = less.prems(1) [unfolded Some]
      show ?thesis
      proof (cases "mtp m p < BeginTime ck")
        case True
        have st: "period_state m ck (Some p) = THRESHOLD_DEFINED" using period_state_Some [OF assms bok] True by simp
        have "collect_loop m ck x v c = Some (Some p, v @ [], c(Some p \<mapsto> THRESHOLD_DEFINED))"
          using miss Some G True by (subst collect_loop.simps) simp
        then show ?thesis using Some st cache_ok_upd [OF less.prems(2) bok] by fastforce
      next
        case False
        have run: "collect_loop m ck x v c = collect_loop m ck (prev_period m ck p) (v @ [p]) c"
          using miss Some G False b(1) prev(3) by (subst collect_loop.simps) simp
        have "periods m ck (prev_period m ck p) < periods m ck x" using prev(2) Some by simp
        from less.hyps [OF this prev(1) less.prems(2), of "v @ [p]"] obtain known vs c'
          where r: "collect_loop m ck x v c = Some (known, v @ (p # vs), c')" "cache_ok m ck c'"
            "c' known = Some (period_state m ck known)"
            "\<And>c2. cache_ok m ck c2 \<Longrightarrow>
              \<exists>c3. forward_loop m ck (rev vs) (period_state m ck known) c2 = Some (period_state m ck (prev_period m ck p), c3) \<and> cache_ok m ck c3"
          unfolding run by auto
        have st: "period_state m ck x = bip9_next m ck p (period_state m ck (prev_period m ck p))"
          using period_state_Some [OF assms bok] False Some by simp
        have "\<exists>c3. forward_loop m ck (rev (p # vs)) (period_state m ck known) c2 = Some (period_state m ck x, c3) \<and> cache_ok m ck c3"
          if c2: "cache_ok m ck c2" for c2
        proof -
          obtain c3 where c3: "forward_loop m ck (rev vs) (period_state m ck known) c2 = Some (period_state m ck (prev_period m ck p), c3)"
              "cache_ok m ck c3" using r(4) [OF c2] by blast
          have "cache_ok m ck (c3(Some p \<mapsto> period_state m ck x))" using cache_ok_upd [OF c3(2) bok] Some by simp
          then show ?thesis using c3(1) state_step_bip9 [OF assms bok] st by (simp add: forward_loop_append)
        qed
        then show ?thesis using r(1-3) by blast
      qed
    qed
  qed
qed

lemma period_start_boundary:
  assumes "index_ok m" and "checker_ok ck" and "m p = Some b"
  shows "period_start m ck p = Some (boundary m ck p)"
proof -
  define P where "P = per ck"
  have P: "0 < P" "Period ck = int P" using assms(2) by (simp_all add: P_def checker_ok_def)
  have r: "crem (int (nHeight b) + 1) (int P) = int ((nHeight b + 1) mod P)"
    using P by (simp add: crem_nonneg zmod_int add.commute)
  have nat: "nHeight b - nat (int (nHeight b) - int ((nHeight b + 1) mod P)) = (nHeight b + 1) mod P"
    if "(nHeight b + 1) mod P \<le> nHeight b" using that by (simp add: nat_diff_distrib')
  show ?thesis using assms(3) P GetAncestor_back [OF assms(1,3), of "int (nHeight b) - int ((nHeight b + 1) mod P)"] nat
    unfolding period_start_def boundary_def P_def [symmetric] P(2) by (simp add: r)
qed

lemma GetStateFor_spec:
  assumes "index_ok m" and "checker_ok ck" and "case x of None \<Rightarrow> True | Some p \<Rightarrow> m p \<noteq> None" and "cache_ok m ck c"
  shows "\<exists>c'. GetStateFor m ck x c = Some (bip9_state m ck x, c') \<and> cache_ok m ck c'"
proof -
  define s where "s = (case x of None \<Rightarrow> None | Some p \<Rightarrow> boundary m ck p)"
  have start: "(case x of None \<Rightarrow> Some None | Some p \<Rightarrow> period_start m ck p) = Some s" "boundary_ok m ck s"
    using assms period_start_boundary [OF assms(1,2)] boundary_ok_boundary [OF assms(1,2)] by (auto simp: s_def split: option.splits)
  obtain known vs c' where "collect_loop m ck s [] c = Some (known, vs, c')" "cache_ok m ck c'" "c' known = Some (period_state m ck known)"
      "\<exists>c3. forward_loop m ck (rev vs) (period_state m ck known) c' = Some (period_state m ck s, c3) \<and> cache_ok m ck c3"
    using collect_loop_correct [OF assms(1,2) start(2) assms(4), of "[]"] by fastforce
  then show ?thesis using start(1) by (auto simp: GetStateFor_def bip9_state_def s_def [symmetric])
qed

section \<open>Memo tables\<close>

text \<open>
  The contract between a cached computation and its callers: queries that keep a validity condition of the cache return
  the values of a specification. A caller may then put any sequence of queries, in any order and on a cache filled by
  others, and gets the values of the specification.
\<close>

fun run_queries :: "('e \<Rightarrow> 'k \<Rightarrow> 'c \<Rightarrow> ('v \<times> 'c) option) \<Rightarrow> 'e \<Rightarrow> 'k list \<Rightarrow> 'c \<Rightarrow> ('v list \<times> 'c) option" where
  "run_queries query e [] c = Some ([], c)"
| "run_queries query e (k # ks) c =
     do { (v, c) \<leftarrow> query e k c; (vs, c) \<leftarrow> run_queries query e ks c; Some (v # vs, c) }"

locale memo_table =
  fixes env_ok :: "'e \<Rightarrow> bool" and key_ok :: "'e \<Rightarrow> 'k \<Rightarrow> bool" and spec :: "'e \<Rightarrow> 'k \<Rightarrow> 'v"
    and valid :: "'e \<Rightarrow> 'c \<Rightarrow> bool" and fresh :: 'c and query :: "'e \<Rightarrow> 'k \<Rightarrow> 'c \<Rightarrow> ('v \<times> 'c) option"
  assumes valid_fresh: "valid e fresh"
    and query_spec: "env_ok e \<Longrightarrow> key_ok e k \<Longrightarrow> valid e c \<Longrightarrow> \<exists>c'. query e k c = Some (spec e k, c') \<and> valid e c'"
begin

lemma queries_spec:
  "env_ok e \<Longrightarrow> list_all (key_ok e) ks \<Longrightarrow> valid e c \<Longrightarrow>
    \<exists>c'. run_queries query e ks c = Some (map (spec e) ks, c') \<and> valid e c'"
proof (induction ks arbitrary: c)
  case (Cons k ks)
  obtain c1 where c1: "query e k c = Some (spec e k, c1)" "valid e c1" using query_spec [of e k c] Cons.prems by auto
  then show ?case using Cons.IH [of c1] Cons.prems by auto
qed simp

lemma queries_fresh:
  "env_ok e \<Longrightarrow> list_all (key_ok e) ks \<Longrightarrow> \<exists>c'. run_queries query e ks fresh = Some (map (spec e) ks, c')"
  using queries_spec [OF _ _ valid_fresh] by blast

end

interpretation states: memo_table
  "\<lambda>(m, ck). index_ok m \<and> checker_ok ck" "\<lambda>(m, ck) x. case x of None \<Rightarrow> True | Some p \<Rightarrow> m p \<noteq> None"
  "\<lambda>(m, ck). bip9_state m ck" "\<lambda>(m, ck). cache_ok m ck" Map.empty "\<lambda>(m, ck). GetStateFor m ck"
proof unfold_locales
  show "(case e of (m, ck) \<Rightarrow> cache_ok m ck) Map.empty" for e by (auto simp: cache_ok_def)
  show "\<exists>c'. (case e of (m, ck) \<Rightarrow> GetStateFor m ck) k c = Some ((case e of (m, ck) \<Rightarrow> bip9_state m ck) k, c')
      \<and> (case e of (m, ck) \<Rightarrow> cache_ok m ck) c'"
    if "case e of (m, ck) \<Rightarrow> index_ok m \<and> checker_ok ck" "(case e of (m, ck) \<Rightarrow> \<lambda>x. case x of None \<Rightarrow> True | Some p \<Rightarrow> m p \<noteq> None) k"
      "(case e of (m, ck) \<Rightarrow> cache_ok m ck) c" for e k c
    using GetStateFor_spec [of "fst e" "snd e" k c] that by (cases k) (simp_all add: case_prod_beta)
qed

section \<open>Since when a state holds\<close>

primrec back_periods :: "BlockMap \<Rightarrow> ThresholdChecker \<Rightarrow> nat \<Rightarrow> uint256 \<Rightarrow> uint256 option" where
  "back_periods m ck 0 p = Some p"
| "back_periods m ck (Suc n) p = Option.bind (prev_period m ck p) (back_periods m ck n)"

lemma boundary_self:
  assumes "boundary_ok m ck (Some p)"
  shows "boundary m ck p = Some p"
  using assms by (auto simp: boundary_ok_Some boundary_def dvd_eq_mod_eq_0)

text \<open>The first period of the run of periods with a state that ends in a period.\<close>

definition run_start :: "BlockMap \<Rightarrow> ThresholdChecker \<Rightarrow> ThresholdState \<Rightarrow> uint256 \<Rightarrow> uint256 \<Rightarrow> bool" where
  "run_start m ck st p q \<longleftrightarrow>
     (\<exists>n. back_periods m ck n p = Some q
        \<and> (\<forall>i\<le>n. \<forall>r. back_periods m ck i p = Some r \<longrightarrow> period_state m ck (Some r) = st)
        \<and> period_state m ck (prev_period m ck q) \<noteq> st)"

lemma run_start_here: "period_state m ck (Some p) = st \<Longrightarrow> period_state m ck (prev_period m ck p) \<noteq> st \<Longrightarrow> run_start m ck st p p"
  unfolding run_start_def by (rule exI [of _ 0]) simp

lemma run_start_back:
  assumes "period_state m ck (Some p) = st" and "prev_period m ck p = Some r" and "run_start m ck st r q"
  shows "run_start m ck st p q"
proof -
  obtain n where n: "back_periods m ck n r = Some q" "\<And>i r'. i \<le> n \<Longrightarrow> back_periods m ck i r = Some r' \<Longrightarrow> period_state m ck (Some r') = st"
      "period_state m ck (prev_period m ck q) \<noteq> st" using assms(3) by (auto simp: run_start_def)
  have "period_state m ck (Some r') = st" if "i \<le> Suc n" "back_periods m ck i p = Some r'" for i r'
    using that n(2) assms by (cases i) auto
  then show ?thesis unfolding run_start_def using n assms(2) by (intro exI [of _ "Suc n"]) auto
qed

lemma since_loop_correct:
  assumes "index_ok m" and "checker_ok ck" and "st \<noteq> THRESHOLD_DEFINED"
  shows "boundary_ok m ck (Some s) \<Longrightarrow> period_state m ck (Some s) = st \<Longrightarrow> cache_ok m ck c \<Longrightarrow>
    \<exists>q e c'. since_loop m ck st s (prev_period m ck s) c = Some (q, c') \<and> m q = Some e \<and> cache_ok m ck c' \<and> run_start m ck st s q"
proof (induction "periods m ck (Some s)" arbitrary: s c rule: less_induct)
  case less
  obtain b where b: "m s = Some b" "per ck dvd nHeight b + 1" using less.prems(1) by (auto simp: boundary_ok_Some)
  note prev = prev_period_ok [OF assms(1,2) b]
  show ?case
  proof (cases "prev_period m ck s")
    case None
    then have "run_start m ck st s s" using less.prems(2) assms(3) by (intro run_start_here) auto
    then show ?thesis using None b less.prems(3) by (subst since_loop.simps) auto
  next
    case (Some r)
    then have bok: "boundary_ok m ck (Some r)" using prev(1) by simp
    obtain e where e: "m r = Some e" "per ck dvd nHeight e + 1" using bok by (auto simp: boundary_ok_Some)
    obtain c1 where c1: "GetStateFor m ck (Some r) c = Some (period_state m ck (Some r), c1)" "cache_ok m ck c1"
      using GetStateFor_spec [OF assms(1,2), of "Some r" c] e less.prems(3) by (auto simp: bip9_state_def boundary_self [OF bok])
    show ?thesis
    proof (cases "period_state m ck (Some r) = st")
      case True
      have "periods m ck (Some r) < periods m ck (Some s)" using prev(2) Some by simp
      from less.hyps [OF this bok True c1(2)] obtain q f c' where q: "since_loop m ck st r (prev_period m ck r) c1 = Some (q, c')"
          "m q = Some f" "cache_ok m ck c'" "run_start m ck st r q" by blast
      have "since_loop m ck st s (prev_period m ck s) c = Some (q, c')"
        unfolding Some using c1 True e prev_period_ok(3) [OF assms(1,2) e] q(1) by (subst since_loop.simps) simp
      then show ?thesis using q run_start_back [OF less.prems(2) Some q(4)] by blast
    next
      case False
      then have "run_start m ck st s s" using less.prems(2) Some by (intro run_start_here) auto
      then show ?thesis unfolding Some using c1 False b by (subst since_loop.simps) auto
    qed
  qed
qed

section \<open>Progress\<close>

lemma terminal_later:
  assumes "index_ok m" and "times_ok m" and "checker_ok ck"
    and "boundary_ok m ck (Some q)" and "period_state m ck (Some q) \<in> {THRESHOLD_LOCKED_IN, THRESHOLD_ACTIVE, THRESHOLD_FAILED}"
  shows "boundary_ok m ck (Some p) \<Longrightarrow> nth_prev m p n = Some q \<Longrightarrow>
    period_state m ck (Some p) =
      (if n \<noteq> 0 \<and> period_state m ck (Some q) = THRESHOLD_LOCKED_IN then THRESHOLD_ACTIVE else period_state m ck (Some q))"
proof (induction n arbitrary: p rule: less_induct)
  case (less n)
  show ?case
  proof (cases "n = 0")
    case True
    then show ?thesis using less.prems by simp
  next
    case False
    define P where "P = per ck"
    obtain b where b: "m p = Some b" "P dvd nHeight b + 1" using less.prems(1) by (auto simp: boundary_ok_Some P_def)
    obtain c where c: "m q = Some c" "P dvd nHeight c + 1" using assms(4) by (auto simp: boundary_ok_Some P_def)
    have "n \<le> nHeight b" using back_None [OF assms(1) b(1), of n] less.prems(2) by (cases "n \<le> nHeight b") auto
    then have h: "nHeight b = nHeight c + n" using back_height [OF assms(1) b(1)] less.prems(2) c(1) by fastforce
    then have "P dvd n" using b(2) c(2) by (metis add.assoc add.commute dvd_add_right_iff)
    then have le: "P \<le> n" using False by (auto dest: dvd_imp_le)
    have P: "0 < P" using assms(3) by (simp add: P_def checker_ok_def)
    obtain r where r: "nth_prev m p P = Some r" "nth_prev m r (n - P) = Some q"
      using less.prems(2) le back_add [of m p P "n - P"] by (cases "nth_prev m p P") auto
    have pp: "prev_period m ck p = Some r" using r(1) b(1) le h by (simp add: prev_period_def P_def)
    have rok: "boundary_ok m ck (Some r)" using prev_period_ok(1) [OF assms(1,3), of p b] b pp by (simp add: P_def)
    have IH: "period_state m ck (Some r) = (if n - P \<noteq> 0 \<and> period_state m ck (Some q) = THRESHOLD_LOCKED_IN then THRESHOLD_ACTIVE else period_state m ck (Some q))"
      using less.IH [of "n - P" r] P False rok r(2) by simp
    have "\<not> mtp m q < BeginTime ck" using period_state_Some [OF assms(1,3,4)] assms(5) by auto
    then have "\<not> mtp m p < BeginTime ck" using mtp_mono [OF assms(1,2) b(1) less.prems(2)] by simp
    then have "period_state m ck (Some p) = bip9_next m ck p (period_state m ck (Some r))"
      using period_state_Some [OF assms(1,3) less.prems(1)] pp by simp
    then show ?thesis using IH assms(5) False by (auto simp: bip9_next_def)
  qed
qed

lemma timeout_resolved:
  assumes "index_ok m" and "checker_ok ck" and "boundary_ok m ck (Some q)" and "EndTime ck \<le> mtp m q" and "BeginTime ck \<le> EndTime ck"
  shows "period_state m ck (Some q) \<in> {THRESHOLD_ACTIVE, THRESHOLD_FAILED}"
  using period_state_Some [OF assms(1-3)] assms(4,5) by (auto simp: bip9_next_def split: ThresholdState.split)

text \<open>The boundary of a descendant descends from the boundary.\<close>

lemma boundary_descends:
  assumes "index_ok m" and "checker_ok ck" and "m p' = Some b'" and "nth_prev m p' n = Some p" and "boundary m ck p = Some q"
  shows "\<exists>q' k. boundary m ck p' = Some q' \<and> nth_prev m q' k = Some q \<and> boundary_ok m ck (Some q')"
proof -
  define P where "P = per ck"
  have P: "0 < P" using assms(2) by (simp add: P_def checker_ok_def)
  have n: "n \<le> nHeight b'" using back_None [OF assms(1,3), of n] assms(4) by (cases "n \<le> nHeight b'") auto
  then obtain b where b: "m p = Some b" "nHeight b = nHeight b' - n" using back_height [OF assms(1,3) n] assms(4) by auto
  have r: "(nHeight b + 1) mod P \<le> nHeight b" "nth_prev m p ((nHeight b + 1) mod P) = Some q"
    using assms(5) b(1) by (auto simp: boundary_def P_def split: if_splits)
  have hb: "nHeight b' + 1 = (nHeight b + 1) + n" using b(2) n by simp
  have "(nHeight b + 1) div P \<le> (nHeight b' + 1) div P" using hb by (intro div_le_mono) simp
  then have low: "(nHeight b + 1) div P * P \<le> (nHeight b' + 1) div P * P" by (rule mult_le_mono1)
  have split: "(nHeight b + 1) div P * P + (nHeight b + 1) mod P = nHeight b + 1"
      "(nHeight b' + 1) div P * P + (nHeight b' + 1) mod P = nHeight b' + 1" by (rule div_mult_mod_eq)+
  have r': "(nHeight b' + 1) mod P \<le> nHeight b'" using low split r(1) by linarith
  define k where "k = (n + (nHeight b + 1) mod P) - (nHeight b' + 1) mod P"
  have k: "(nHeight b' + 1) mod P + k = n + (nHeight b + 1) mod P" using low split hb unfolding k_def by linarith
  obtain q' where q': "nth_prev m p' ((nHeight b' + 1) mod P) = Some q'" using back_height [OF assms(1,3) r'] by blast
  have bd: "boundary m ck p' = Some q'" using assms(3) r' q' by (simp add: boundary_def P_def)
  have "nth_prev m p' (n + (nHeight b + 1) mod P) = Some q" using assms(4) r(2) by (simp add: back_add)
  then have "nth_prev m q' k = Some q" using q' unfolding k [symmetric] back_add by simp
  then show ?thesis using bd boundary_ok_boundary [OF assms(1,2,3)] by auto
qed

section \<open>Properties\<close>


text \<open>A checker with short periods, and the median times of a straight chain.\<close>

definition short_checker :: ThresholdChecker where
  "short_checker = \<lparr>Condition = (\<lambda>b. bit (idx_nVersion b) 0), BeginTime = 10, EndTime = 2000, Period = 4, Threshold = 3\<rparr>"

lemma short_checker_ok: "checker_ok short_checker"
  by (simp add: checker_ok_def short_checker_def)


lemma line_times:
  assumes "n < 256"
  shows "i \<le> n \<Longrightarrow> \<exists>ts. median_times (line_index ver t bits n) k (Some (line_key i)) = Some ts \<and> set ts \<subseteq> {uint t}"
proof (induction k arbitrary: i)
  case (Suc k)
  have b: "line_index ver t bits n (line_key i) = Some (line_block ver t bits i)" by (rule line_index_key [OF assms Suc.prems])
  show ?case
  proof (cases i)
    case 0
    then show ?thesis using b by (cases k) (simp_all add: line_block_def line_base_def idx_GetBlockTime_def)
  next
    case (Suc j)
    then show ?thesis using b Suc.IH [of j] Suc.prems by (auto simp: line_block_def line_base_def idx_GetBlockTime_def)
  qed
qed simp

lemma mtp_line:
  assumes "n < 256" and "i \<le> n"
  shows "mtp (line_index ver t bits n) (line_key i) = uint t"
proof -
  define m where "m = line_index ver t bits n"
  have b: "m (line_key i) = Some (line_block ver t bits i)" unfolding m_def by (rule line_index_key [OF assms])
  obtain ts where ts: "median_times m 11 (Some (line_key i)) = Some ts" "set ts \<subseteq> {uint t}"
    using line_times [OF assms] unfolding m_def by blast
  have "length ts = min 11 (Suc (nHeight (line_block ver t bits i)))"
    using median_times_returns [OF index_ok_line [OF assms(1), of ver t bits], of "line_key i" "line_block ver t bits i" 11] b ts(1)
    by (simp add: m_def)
  then have "length (sort (rev ts)) div 2 < length (sort (rev ts))" by simp
  then have "sort (rev ts) ! (length (sort (rev ts)) div 2) \<in> set (sort (rev ts))" by (rule nth_mem)
  then have "median ts \<in> set ts" by (simp add: median_def Let_def)
  then show ?thesis using mtp_median [OF ts(1)] ts(2) by (auto simp: m_def)
qed

lemma times_ok_line: "n < 256 \<Longrightarrow> times_ok (line_index ver t bits n)"
  unfolding times_ok_def
proof (intro allI impI)
  fix p b q
  assume n: "n < 256" and b: "line_index ver t bits n p = Some b" and q: "pprev b = Some q"
  obtain i where i: "p = line_key i" "b = line_block ver t bits i" "i \<le> n" using b by (rule line_index_Some)
  then have "q = line_key (i - 1)" using q by (auto simp: line_block_def split: if_splits)
  then show "mtp (line_index ver t bits n) q \<le> idx_GetBlockTime b"
    using mtp_line [OF n, of "i - 1"] i by (simp add: line_block_def line_base_def idx_GetBlockTime_def)
qed

text \<open>
  C14. Version bits, progress: on a well-formed index in which no block is older than the median time of its predecessor, a
  deployment whose timeout has passed is resolved, active or failed, at the next period; a locked-in deployment is active from
  the next period on; and an active or failed deployment stays so for every descendant, whatever valid caches are used.
\<close>

theorem deployment_progress:
  assumes "index_ok m" and "times_ok m" and "checker_ok ck" and "BeginTime ck \<le> EndTime ck"
    and "m p = Some b" and "m p' = Some b'" and "nth_prev m p' n = Some p" and "cache_ok m ck c" and "cache_ok m ck c'"
  shows "\<exists>s s' d d'. GetStateFor m ck (Some p) c = Some (s, d) \<and> GetStateFor m ck (Some p') c' = Some (s', d')
    \<and> (\<forall>q. boundary m ck p = Some q \<and> EndTime ck \<le> mtp m q \<longrightarrow> s = THRESHOLD_ACTIVE \<or> s = THRESHOLD_FAILED)
    \<and> (s = THRESHOLD_LOCKED_IN \<longrightarrow> s' = (if boundary m ck p' = boundary m ck p then THRESHOLD_LOCKED_IN else THRESHOLD_ACTIVE))
    \<and> (s = THRESHOLD_ACTIVE \<or> s = THRESHOLD_FAILED \<longrightarrow> s' = s)"
proof -
  obtain d d' where d: "GetStateFor m ck (Some p) c = Some (bip9_state m ck (Some p), d)"
      "GetStateFor m ck (Some p') c' = Some (bip9_state m ck (Some p'), d')"
    using GetStateFor_spec [OF assms(1,3), of "Some p" c] GetStateFor_spec [OF assms(1,3), of "Some p'" c'] assms(5,6,8,9) by auto
  show ?thesis
  proof (cases "boundary m ck p")
    case None
    then have "bip9_state m ck (Some p) = THRESHOLD_DEFINED" by (simp add: bip9_state_def)
    then show ?thesis using d None by auto
  next
    case (Some q)
    have qok: "boundary_ok m ck (Some q)" using boundary_ok_boundary [OF assms(1,3,5)] Some by simp
    obtain q' k where q': "boundary m ck p' = Some q'" "nth_prev m q' k = Some q" "boundary_ok m ck (Some q')"
      using boundary_descends [OF assms(1,3,6,7) Some] by blast
    have s: "bip9_state m ck (Some p) = period_state m ck (Some q)" "bip9_state m ck (Some p') = period_state m ck (Some q')"
      using Some q'(1) by (simp_all add: bip9_state_def)
    obtain e where e: "m q' = Some e" using q'(3) by (auto simp: boundary_ok_Some)
    have same: "q' = q \<longleftrightarrow> k = 0"
    proof
      assume eq: "q' = q"
      show "k = 0"
      proof (cases "k \<le> nHeight e")
        case True
        then show ?thesis using back_height [OF assms(1) e True] q'(2) e eq by auto
      qed (use back_None [OF assms(1) e, of k] q'(2) in auto)
    qed (use q'(2) in simp)
    have later: "period_state m ck (Some q) \<in> {THRESHOLD_LOCKED_IN, THRESHOLD_ACTIVE, THRESHOLD_FAILED} \<Longrightarrow>
        period_state m ck (Some q') = (if k \<noteq> 0 \<and> period_state m ck (Some q) = THRESHOLD_LOCKED_IN then THRESHOLD_ACTIVE else period_state m ck (Some q))"
      by (rule terminal_later [OF assms(1-3) qok _ q'(3,2)])
    have "EndTime ck \<le> mtp m q \<Longrightarrow> period_state m ck (Some q) \<in> {THRESHOLD_ACTIVE, THRESHOLD_FAILED}"
      by (rule timeout_resolved [OF assms(1,3) qok _ assms(4)])
    then show ?thesis using d s later same Some q'(1) by auto
  qed
qed

theorem deployment_progress_witness:
  "\<exists>s s' d d'. GetStateFor (line_index 1 3000 0 20) short_checker (Some (line_key 5)) Map.empty = Some (s, d)
     \<and> GetStateFor (line_index 1 3000 0 20) short_checker (Some (line_key 17)) Map.empty = Some (s', d')
     \<and> (s = THRESHOLD_ACTIVE \<or> s = THRESHOLD_FAILED) \<and> s' = s"
proof -
  define m where "m = line_index 1 3000 0 20"
  have n: "(20 :: nat) < 256" by simp
  have b: "m (line_key i) = Some (line_block 1 3000 0 i)" if "i \<le> 20" for i unfolding m_def by (rule line_index_key [OF n that])
  have prev: "nth_prev m (line_key 17) 12 = Some (line_key 5)" "nth_prev m (line_key 5) 2 = Some (line_key 3)"
    unfolding m_def using nth_prev_line [OF n, of 17 12 1 3000 0] nth_prev_line [OF n, of 5 2 1 3000 0] by simp_all
  have bd: "boundary m short_checker (line_key 5) = Some (line_key 3)"
    using b [of 5] prev(2) by (simp add: boundary_def short_checker_def line_block_def)
  have time: "EndTime short_checker \<le> mtp m (line_key 3)" unfolding m_def by (simp add: mtp_line [OF n] short_checker_def)
  have begin_end: "BeginTime short_checker \<le> EndTime short_checker" by (simp add: short_checker_def)
  have empty: "cache_ok m short_checker Map.empty" by (simp add: cache_ok_def)
  have ok: "index_ok m" "times_ok m" unfolding m_def using index_ok_line [OF n] times_ok_line [OF n] by blast+
  have b5: "m (line_key 5) = Some (line_block 1 3000 0 5)" and b17: "m (line_key 17) = Some (line_block 1 3000 0 17)" using b by simp_all
  show ?thesis unfolding m_def [symmetric]
    using deployment_progress [OF ok short_checker_ok begin_end b5 b17 prev(1) empty empty] bd time by blast
qed

text \<open>
  \<open>GetStateSinceHeightFor\<close> returns for every block of a well-formed index: 0 in the state DEFINED, and otherwise the height
  of the first block of the uninterrupted run of periods that have the current state, found by walking back period by period.
\<close>

theorem GetStateSinceHeightFor_run:
  assumes "index_ok m" and "checker_ok ck" and "m p = Some b" and "cache_ok m ck c"
  shows "\<exists>h c'. GetStateSinceHeightFor m ck (Some p) c = Some (h, c') \<and> cache_ok m ck c'
    \<and> (if bip9_state m ck (Some p) = THRESHOLD_DEFINED then h = 0
       else \<exists>s q e. boundary m ck p = Some s \<and> run_start m ck (bip9_state m ck (Some p)) s q \<and> m q = Some e \<and> h = int (nHeight e) + 1)"
proof -
  define st where "st = bip9_state m ck (Some p)"
  obtain c1 where c1: "GetStateFor m ck (Some p) c = Some (st, c1)" "cache_ok m ck c1"
    using GetStateFor_spec [OF assms(1,2), of "Some p" c] assms(3,4) by (auto simp: st_def)
  show ?thesis
  proof (cases "st = THRESHOLD_DEFINED")
    case True
    then show ?thesis using c1 by (simp add: GetStateSinceHeightFor_def st_def)
  next
    case False
    then obtain s where s: "boundary m ck p = Some s" "period_state m ck (Some s) = st"
      by (cases "boundary m ck p") (auto simp: st_def bip9_state_def)
    have sok: "boundary_ok m ck (Some s)" using boundary_ok_boundary [OF assms(1-3)] s(1) by simp
    obtain f where f: "m s = Some f" "per ck dvd nHeight f + 1" using sok by (auto simp: boundary_ok_Some)
    obtain q e c2 where q: "since_loop m ck st s (prev_period m ck s) c1 = Some (q, c2)" "m q = Some e" "cache_ok m ck c2" "run_start m ck st s q"
      using since_loop_correct [OF assms(1,2) False sok s(2) c1(2)] by blast
    have "GetStateSinceHeightFor m ck (Some p) c = Some (int (nHeight e) + 1, c2)"
      using c1(1) False period_start_boundary [OF assms(1-3)] s(1) f prev_period_ok(3) [OF assms(1,2) f] q(1,2)
      by (simp add: GetStateSinceHeightFor_def)
    then show ?thesis using False s(1) q by (auto simp: st_def)
  qed
qed

theorem GetStateSinceHeightFor_run_witness:
  "\<exists>h c'. GetStateSinceHeightFor (line_index 1 1000 0 20) short_checker (Some (line_key 17)) Map.empty = Some (h, c')"
proof -
  have n: "(20 :: nat) < 256" by simp
  have k: "line_index 1 1000 0 20 (line_key 17) = Some (line_block 1 1000 0 17)" by (rule line_index_key [OF n]) simp
  have "cache_ok (line_index 1 1000 0 20) short_checker Map.empty" by (simp add: cache_ok_def)
  from GetStateSinceHeightFor_run [OF index_ok_line [OF n] short_checker_ok k this] show ?thesis by blast
qed

end
