(* ===== verification/Headers.thy ===== *)
theory Headers
  imports VersionBits AuxPow
begin

text \<open>
  The acceptance of block headers (\<open>validation.cpp\<close>, \<open>checkpoints.cpp\<close>, \<open>consensus/validation.h\<close>): the check of the work of
  a header with or without merge-mining data, the checks against the previous block, and the insertion into the block
  index. The global variables \<open>mapBlockIndex\<close>, \<open>pindexBestHeader\<close> and \<open>setDirtyBlockIndex\<close> are a record; a validation state
  is passed and returned. \<open>None\<close> is an invalid pointer, a failed assertion or an exception. The lock assertion, the
  notification of listeners and the optional self-check \<open>CheckBlockIndex\<close>, which change nothing, are left out, as is the
  text of debug messages.
\<close>

unbundle bit_operations_syntax

section \<open>Validation states\<close>

datatype mode_state = MODE_VALID | MODE_INVALID | MODE_ERROR

record CValidationState =
  mode :: mode_state
  nDoS :: int
  strRejectReason :: string
  chRejectCode :: u32
  corruptionPossible :: bool

definition CValidationState_init :: CValidationState where
  "CValidationState_init = \<lparr>mode = MODE_VALID, nDoS = 0, strRejectReason = [], chRejectCode = 0, corruptionPossible = False\<rparr>"

abbreviation (input) REJECT_INVALID :: u32 where "REJECT_INVALID \<equiv> 0x10"

definition state_DoS :: "int \<Rightarrow> bool \<Rightarrow> u32 \<Rightarrow> string \<Rightarrow> bool \<Rightarrow> CValidationState \<Rightarrow> bool \<times> CValidationState" where
  "state_DoS level ret code reason corruption st =
     (let st = st\<lparr>chRejectCode := code, strRejectReason := reason, corruptionPossible := corruption\<rparr>
      in if mode st = MODE_ERROR then (ret, st)
         else (ret, st\<lparr>nDoS := nDoS st + level, mode := MODE_INVALID\<rparr>))"

definition state_Invalid :: "bool \<Rightarrow> u32 \<Rightarrow> string \<Rightarrow> CValidationState \<Rightarrow> bool \<times> CValidationState" where
  "state_Invalid ret code reason st = state_DoS 0 ret code reason False st"

definition state_Error :: "string \<Rightarrow> CValidationState \<Rightarrow> bool \<times> CValidationState" where
  "state_Error reason st =
     (let st = (if mode st = MODE_VALID then st\<lparr>strRejectReason := reason\<rparr> else st) in (False, st\<lparr>mode := MODE_ERROR\<rparr>))"

definition state_IsValid :: "CValidationState \<Rightarrow> bool" where "state_IsValid st \<longleftrightarrow> mode st = MODE_VALID"
definition state_IsInvalid :: "CValidationState \<Rightarrow> bool" where "state_IsInvalid st \<longleftrightarrow> mode st = MODE_INVALID"
definition state_IsError :: "CValidationState \<Rightarrow> bool" where "state_IsError st \<longleftrightarrow> mode st = MODE_ERROR"

section \<open>Configuration and global state\<close>

definition ChainNameFromCommandLine :: "bool \<Rightarrow> bool \<Rightarrow> bool \<Rightarrow> string option" where
  "ChainNameFromCommandLine fRegTest fDevNet fTestNet =
     (let nameParamsCount = (if fRegTest then 1 else 0) + (if fDevNet then 1 else 0) + (if fTestNet then 1 else (0 :: nat))
      in if nameParamsCount > 1 then None
         else if fDevNet then Some ''dev''
         else if fRegTest then Some ''regtest''
         else if fTestNet then Some ''test''
         else Some ''main'')"

text \<open>What the code reads of the configuration and the environment: parameters, command line, clock, pruned services.\<close>

record header_env =
  consensus :: ConsensusParams
  strNetworkID :: string
  mapCheckpoints :: "(nat \<times> uint256) list"
  fCheckpointsEnabled :: bool
  arg_regtest :: bool
  arg_devnet :: bool
  arg_testnet :: bool
  nAdjustedTime :: int
  env_prune :: prune_env
  env_float :: kgw_float

record block_db =
  mapBlockIndex :: BlockMap
  pindexBestHeader :: "uint256 option"
  setDirtyBlockIndex :: "uint256 set"

section \<open>Checks\<close>

definition CheckProofOfWork_block :: "header_env \<Rightarrow> 'a CBlockHeader_scheme \<Rightarrow> bool option" where
  "CheckProofOfWork_block env block =
     (let params = consensus env;
          check = (\<lambda>hash. CheckProofOfWork (strNetworkID env = ''regtest'') hash (nBits block) params)
      in case auxpow block of
           None \<Rightarrow>
             if IsAuxpow block then Some False
             else check (CPureBlockHeader_GetHash block)
         | Some a \<Rightarrow>
             if GetChainId block \<noteq> nAuxpowChainId params then Some False
             else if \<not> IsAuxpow block then Some False
             else do { ok \<leftarrow> CAuxPow_check (env_prune env) a (CPureBlockHeader_GetHash block) (GetChainId block);
                       if \<not> ok then Some False
                       else check (CPureBlockHeader_GetHash (parentBlock a)) })"

definition CheckBlockHeader ::
  "header_env \<Rightarrow> 'a CBlockHeader_scheme \<Rightarrow> bool \<Rightarrow> CValidationState \<Rightarrow> (bool \<times> CValidationState) option" where
  "CheckBlockHeader env block fCheckPOW st =
     do { pow \<leftarrow> if fCheckPOW then CheckProofOfWork_block env block else Some True;
          Some (if \<not> pow then state_DoS 50 False REJECT_INVALID ''high-hash'' False st
                else if hashDevnetGenesisBlock (consensus env) \<noteq> uint256_null
                     \<and> hashPrevBlock block = hashGenesisBlock (consensus env)
                     \<and> CPureBlockHeader_GetHash block \<noteq> hashDevnetGenesisBlock (consensus env)
                then state_DoS 100 False REJECT_INVALID ''devnet-genesis'' False st
                else (True, st)) }"

text \<open>The checkpoints are in ascending order of height; the search starts at the last one.\<close>

fun find_checkpoint :: "BlockMap \<Rightarrow> (nat \<times> uint256) list \<Rightarrow> uint256 option" where
  "find_checkpoint m [] = None"
| "find_checkpoint m (i # is) = (if m (snd i) \<noteq> None then Some (snd i) else find_checkpoint m is)"

definition GetLastCheckpoint :: "BlockMap \<Rightarrow> (nat \<times> uint256) list \<Rightarrow> uint256 option" where
  "GetLastCheckpoint m checkpoints = find_checkpoint m (rev checkpoints)"

definition CheckIndexAgainstCheckpoint ::
  "header_env \<Rightarrow> BlockMap \<Rightarrow> uint256 \<Rightarrow> CValidationState \<Rightarrow> (bool \<times> CValidationState) option" where
  "CheckIndexAgainstCheckpoint env m pindexPrev st =
     do { prev \<leftarrow> m pindexPrev;
          hash \<leftarrow> phashBlock prev;
          if hash = hashGenesisBlock (consensus env) then Some (True, st)
          else
            case GetLastCheckpoint m (mapCheckpoints env) of
              None \<Rightarrow> Some (True, st)
            | Some p \<Rightarrow>
                do { pcheckpoint \<leftarrow> m p;
                     Some (if nHeight prev + 1 < nHeight pcheckpoint then state_DoS 100 False 0 [] False st
                           else (True, st)) } }"

definition ContextualCheckBlockHeader ::
  "header_env \<Rightarrow> BlockMap \<Rightarrow> 'a CBlockHeader_scheme \<Rightarrow> uint256 option \<Rightarrow> CValidationState \<Rightarrow> (bool \<times> CValidationState) option" where
  "ContextualCheckBlockHeader env m block pindexPrev st =
     do { required \<leftarrow> GetNextWorkRequired m (env_float env) pindexPrev block (consensus env);
          if nBits block \<noteq> required then Some (state_DoS 100 False REJECT_INVALID ''bad-diffbits'' False st)
          else
            do { chain \<leftarrow> ChainNameFromCommandLine (arg_regtest env) (arg_devnet env) (arg_testnet env);
                 if chain \<noteq> ''regtest'' then
                   do { p \<leftarrow> pindexPrev;
                        past \<leftarrow> GetMedianTimePast m p;
                        Some (if GetBlockTime block \<le> past
                              then state_Invalid False REJECT_INVALID ''time-too-old'' st
                              else if GetBlockTime block > nAdjustedTime env + 2 * 60 * 60
                              then state_Invalid False REJECT_INVALID ''time-too-new'' st
                              else (True, st)) }
                 else Some (True, st) } }"

section \<open>Insertion into the index\<close>

text \<open>
  The new entry is first inserted under its hash, then linked to its predecessor, then given its skip pointer and the
  totals of the chain; each step reads the entries through the map, as the code does through pointers.
\<close>

definition link_entry :: "BlockMap \<Rightarrow> uint256 \<Rightarrow> uint256 \<Rightarrow> CBlockIndex \<Rightarrow> CBlockIndex option" where
  "link_entry m hash prevHash new =
     (case m prevHash of
        None \<Rightarrow> Some new
      | Some prev \<Rightarrow>
          let new = new\<lparr>pprev := Some prevHash, nHeight := nHeight prev + 1\<rparr>
          in BuildSkip (m(hash \<mapsto> new)) new)"

definition total_entry :: "BlockMap \<Rightarrow> CBlockIndex \<Rightarrow> CBlockIndex option" where
  "total_entry m new =
     do { (tmax, work) \<leftarrow> (case pprev new of
            None \<Rightarrow> Some (idx_nTime new, uint_zero)
          | Some q \<Rightarrow> do { prev \<leftarrow> m q; Some (max (nTimeMax prev) (idx_nTime new), nChainWork prev) });
          w \<leftarrow> GetBlockProof new;
          (new, changed) \<leftarrow> RaiseValidity (new\<lparr>nTimeMax := tmax, nChainWork := uint_add work w\<rparr>) BLOCK_VALID_TREE;
          Some new }"

definition AddToBlockIndex :: "'a CBlockHeader_scheme \<Rightarrow> block_db \<Rightarrow> (uint256 \<times> block_db) option" where
  "AddToBlockIndex block db =
     (let hash = CPureBlockHeader_GetHash block
      in if mapBlockIndex db hash \<noteq> None then Some (hash, db)
         else
           do { let new = (CBlockIndex_of block)\<lparr>nSequenceId := 0, phashBlock := Some hash\<rparr>;
                new \<leftarrow> link_entry ((mapBlockIndex db)(hash \<mapsto> new)) hash (hashPrevBlock block) new;
                new \<leftarrow> total_entry ((mapBlockIndex db)(hash \<mapsto> new)) new;
                let m = (mapBlockIndex db)(hash \<mapsto> new);
                best \<leftarrow> (case pindexBestHeader db of
                   None \<Rightarrow> Some hash
                 | Some p \<Rightarrow> do { b \<leftarrow> m p; Some (if CompareTo (nChainWork b) (nChainWork new) < 0 then hash else p) });
                Some (hash, db\<lparr>mapBlockIndex := m, pindexBestHeader := Some best,
                              setDirtyBlockIndex := insert hash (setDirtyBlockIndex db)\<rparr>) })"

text \<open>The checks that are skipped for the genesis block and for a header that is known.\<close>

definition header_checks ::
  "header_env \<Rightarrow> 'a CBlockHeader_scheme \<Rightarrow> BlockMap \<Rightarrow> CValidationState \<Rightarrow> (bool \<times> CValidationState) option" where
  "header_checks env block m st =
     do { (ok, st) \<leftarrow> CheckBlockHeader env block True st;
          if \<not> ok then Some (False, st)
          else
            case m (hashPrevBlock block) of
              None \<Rightarrow> Some (state_DoS 10 False 0 ''bad-prevblk'' False st)
            | Some prev \<Rightarrow>
                if nStatus prev AND BLOCK_FAILED_MASK \<noteq> 0
                then Some (state_DoS 100 False REJECT_INVALID ''bad-prevblk'' False st)
                else
                  do { (ok, st) \<leftarrow> if fCheckpointsEnabled env
                         then CheckIndexAgainstCheckpoint env m (hashPrevBlock block) st else Some (True, st);
                       if \<not> ok then Some (False, st)
                       else ContextualCheckBlockHeader env m block (Some (hashPrevBlock block)) st } }"

definition AcceptBlockHeader ::
  "header_env \<Rightarrow> 'a CBlockHeader_scheme \<Rightarrow> CValidationState \<Rightarrow> block_db \<Rightarrow> (bool \<times> CValidationState \<times> uint256 option \<times> block_db) option" where
  "AcceptBlockHeader env block st db =
     (let hash = CPureBlockHeader_GetHash block;
          known = mapBlockIndex db hash
      in if hash \<noteq> hashGenesisBlock (consensus env) \<and> known \<noteq> None
         then Some (if nStatus (the known) AND BLOCK_FAILED_MASK \<noteq> 0
                    then let (ret, st) = state_Invalid False 0 ''duplicate'' st in (ret, st, Some hash, db)
                    else (True, st, Some hash, db))
         else
           do { (ok, st) \<leftarrow> if hash \<noteq> hashGenesisBlock (consensus env)
                  then header_checks env block (mapBlockIndex db) st else Some (True, st);
                if \<not> ok then Some (False, st, None, db)
                else do { (pindex, db) \<leftarrow> AddToBlockIndex block db;
                          Some (True, st, Some pindex, db) } })"

fun ProcessNewBlockHeaders ::
  "header_env \<Rightarrow> 'a CBlockHeader_scheme list \<Rightarrow> CValidationState \<Rightarrow> uint256 option \<Rightarrow> block_db
   \<Rightarrow> (bool \<times> CValidationState \<times> uint256 option \<times> block_db) option" where
  "ProcessNewBlockHeaders env [] st ppindex db = Some (True, st, ppindex, db)"
| "ProcessNewBlockHeaders env (header # headers) st ppindex db =
     do { (ok, st, pindex, db) \<leftarrow> AcceptBlockHeader env header st db;
          if \<not> ok then Some (False, st, ppindex, db)
          else ProcessNewBlockHeaders env headers st pindex db }"

text \<open>The header that an entry stands for; that of a merge-mined block is read from the disk.\<close>

definition idx_GetBlockHeader :: "(CBlockIndex \<Rightarrow> CBlockHeader) \<Rightarrow> BlockMap \<Rightarrow> CBlockIndex \<Rightarrow> CBlockHeader option" where
  "idx_GetBlockHeader ReadBlockHeaderFromDisk m b =
     (let block = \<lparr>hdr_nVersion = idx_nVersion b, hashPrevBlock = uint256_null, hashMerkleRoot = uint256_null,
                   hdr_nTime = 0, nBits = 0, nNonce = 0, auxpow = None\<rparr>
      in if IsAuxpow block then Some (ReadBlockHeaderFromDisk b)
         else
           do { prev \<leftarrow> (case pprev b of None \<Rightarrow> Some uint256_null | Some q \<Rightarrow> do { c \<leftarrow> m q; phashBlock c });
                Some (block\<lparr>hashPrevBlock := prev, hashMerkleRoot := idx_hashMerkleRoot b, hdr_nTime := idx_nTime b,
                       nBits := idx_nBits b, nNonce := idx_nNonce b\<rparr>) })"

section \<open>Growing indexes\<close>

lemma nth_prev_ext: "m \<subseteq>\<^sub>m m' \<Longrightarrow> nth_prev m p n = Some q \<Longrightarrow> nth_prev m' p n = Some q"
proof (induction n arbitrary: p)
  case (Suc n)
  then obtain b r where "m p = Some b" "pprev b = Some r" "nth_prev m r n = Some q" by (auto simp: bind_eq_Some_conv)
  moreover then have "m' p = Some b" using Suc.prems(1) by (auto simp: map_le_def dom_def)
  ultimately show ?case using Suc by simp
qed simp

lemma map_leD: "m \<subseteq>\<^sub>m m' \<Longrightarrow> m p = Some b \<Longrightarrow> m' p = Some b"
  by (auto simp: map_le_def dom_def)

lemma ancestor_loop_ext:
  assumes "m \<subseteq>\<^sub>m m'"
  shows "ancestor_loop m p h k = Some q \<Longrightarrow> ancestor_loop m' p h k = Some q"
proof (induction h arbitrary: p rule: less_induct)
  case (less h)
  show ?case
  proof (cases "k < h")
    case True
    then obtain b where b: "m p = Some b" using less.prems by (subst (asm) ancestor_loop.simps) (auto split: option.splits)
    have "GetSkipHeight h < h" "h - 1 < h" using True by (simp_all add: GetSkipHeight_less)
    then show ?thesis using less True b map_leD [OF assms b] ancestor_loop.simps [of m p h k] ancestor_loop.simps [of m' p h k]
      by (auto simp: Let_def split: if_splits option.splits)
  next
    case False
    then show ?thesis using less.prems by (subst (asm) ancestor_loop.simps, subst ancestor_loop.simps) simp
  qed
qed

lemma GetAncestor_ext:
  assumes "m \<subseteq>\<^sub>m m'" and "GetAncestor m p h = Some r"
  shows "GetAncestor m' p h = Some r"
proof -
  obtain b where b: "m p = Some b" using assms(2) by (auto simp: GetAncestor_def bind_eq_Some_conv)
  show ?thesis using assms(2) b map_leD [OF assms(1) b] ancestor_loop_ext [OF assms(1), of p "nHeight b" "nat h"]
    by (auto simp: GetAncestor_def bind_eq_Some_conv)
qed

lemma median_times_ext: "m \<subseteq>\<^sub>m m' \<Longrightarrow> median_times m n x = Some ts \<Longrightarrow> median_times m' n x = Some ts"
proof (induction n arbitrary: x ts)
  case (Suc n)
  then show ?case using map_leD [OF Suc.prems(1)] by (cases x) (auto simp: bind_eq_Some_conv)
qed simp

lemma mtp_ext:
  assumes "index_ok m" and "m \<subseteq>\<^sub>m m'" and "m p = Some b"
  shows "mtp m' p = mtp m p"
proof -
  obtain ts where "median_times m 11 (Some p) = Some ts" using median_times_returns [OF assms(1,3)] by blast
  then show ?thesis using mtp_median median_times_ext [OF assms(2)] by metis
qed

section \<open>A new entry\<close>

lemma RaiseValidity_fresh:
  "nStatus b = 0 \<Longrightarrow> RaiseValidity b BLOCK_VALID_TREE = Some (b\<lparr>nStatus := 2\<rparr>, True)"
  by (simp add: RaiseValidity_def)

text \<open>What \<open>AddToBlockIndex\<close> inserts: an entry with the fields of the header, linked to its predecessor if that is known.\<close>

definition new_entry :: "'a CPureBlockHeader_scheme \<Rightarrow> BlockMap \<Rightarrow> CBlockIndex \<Rightarrow> bool" where
  "new_entry block m b \<longleftrightarrow>
     idx_nVersion b = hdr_nVersion block \<and> idx_hashMerkleRoot b = hashMerkleRoot block \<and> idx_nTime b = hdr_nTime block
     \<and> idx_nBits b = nBits block \<and> idx_nNonce b = nNonce block
     \<and> pprev b = (if m (hashPrevBlock block) = None then None else Some (hashPrevBlock block))"

definition works_ok :: "BlockMap \<Rightarrow> bool" where
  "works_ok m \<longleftrightarrow> (\<forall>p b. m p = Some b \<longrightarrow> length (nChainWork b) = WIDTH)"

lemma entry_ok_ext:
  assumes "index_ok m" and "m \<subseteq>\<^sub>m m'" and "m p = Some b"
  shows "entry_ok m' p b"
proof -
  have e: "entry_ok m p b" by (rule index_okD [OF assms(1,3)])
  from assms(1,3) show ?thesis
  proof (cases rule: pprev_cases)
    case 1
    then show ?thesis using e by (simp add: entry_ok_def)
  next
    case (2 q c)
    define d where "d = nHeight b - GetSkipHeight (nHeight b)"
    have "d \<le> nHeight b" by (simp add: d_def)
    then obtain r where r: "nth_prev m p d = Some r" using back_height [OF assms(1,3)] by blast
    then have "nth_prev m' p d = nth_prev m p d" using nth_prev_ext [OF assms(2) r] by simp
    then show ?thesis using e 2 map_leD [OF assms(2) 2(2)] unfolding entry_ok_def d_def by simp
  qed
qed

lemma AddToBlockIndex_new:
  fixes block :: "'a CBlockHeader_scheme"
  assumes "index_ok (mapBlockIndex db)" and "works_ok (mapBlockIndex db)"
    and "mapBlockIndex db (CPureBlockHeader_GetHash block) = None" and "hashPrevBlock block \<noteq> CPureBlockHeader_GetHash block"
    and "pindexBestHeader db \<noteq> None \<Longrightarrow> mapBlockIndex db (the (pindexBestHeader db)) \<noteq> None"
  obtains new where "new_entry block (mapBlockIndex db) new" and "length (nChainWork new) = WIDTH"
    and "entry_ok ((mapBlockIndex db)(CPureBlockHeader_GetHash block \<mapsto> new)) (CPureBlockHeader_GetHash block) new"
    and "AddToBlockIndex block db = Some (CPureBlockHeader_GetHash block,
      db\<lparr>mapBlockIndex := (mapBlockIndex db)(CPureBlockHeader_GetHash block \<mapsto> new),
         pindexBestHeader := (case pindexBestHeader db of
            None \<Rightarrow> Some (CPureBlockHeader_GetHash block)
          | Some p \<Rightarrow> Some (if CompareTo (nChainWork (the (mapBlockIndex db p))) (nChainWork new) < 0
                           then CPureBlockHeader_GetHash block else p)),
         setDirtyBlockIndex := insert (CPureBlockHeader_GetHash block) (setDirtyBlockIndex db)\<rparr>)"
proof -
  define hash where "hash = CPureBlockHeader_GetHash block"
  define m where "m = mapBlockIndex db"
  define new0 where "new0 = (CBlockIndex_of block)\<lparr>nSequenceId := 0, phashBlock := Some hash\<rparr>"
  have fresh: "m hash = None" "hashPrevBlock block \<noteq> hash" using assms(3,4) by (simp_all add: m_def hash_def)
  have ext: "m \<subseteq>\<^sub>m m(hash \<mapsto> x)" for x using fresh(1) by (simp add: map_le_def dom_def)
  have new0: "nStatus new0 = 0" "pprev new0 = None" "pskip new0 = None" "nHeight new0 = 0" "phashBlock new0 = Some hash"
      "idx_nVersion new0 = hdr_nVersion block" "idx_hashMerkleRoot new0 = hashMerkleRoot block" "idx_nTime new0 = hdr_nTime block"
      "idx_nBits new0 = nBits block" "idx_nNonce new0 = nNonce block"
    by (simp_all add: new0_def CBlockIndex_of_def CBlockIndex_null_def)
  obtain w where w: "GetBlockProof new0 = Some w" "length w = WIDTH"
    using GetBlockProof_value [of new0 "fst (SetCompact (idx_nBits new0))" "fst (snd (SetCompact (idx_nBits new0)))"
        "snd (snd (SetCompact (idx_nBits new0)))"] by auto
  have proof_cong: "GetBlockProof x = Some w" if "idx_nBits x = idx_nBits new0" for x
    using GetBlockProof_cong [OF that] w(1) by simp
  have "\<exists>new. new_entry block m new \<and> length (nChainWork new) = WIDTH \<and> entry_ok (m(hash \<mapsto> new)) hash new
      \<and> Option.bind (link_entry (m(hash \<mapsto> new0)) hash (hashPrevBlock block) new0) (\<lambda>x. total_entry (m(hash \<mapsto> x)) x) = Some new"
  proof (cases "m (hashPrevBlock block)")
    case None
    define new where "new = new0\<lparr>nTimeMax := idx_nTime new0, nChainWork := uint_add uint_zero w, nStatus := 2\<rparr>"
    have "link_entry (m(hash \<mapsto> new0)) hash (hashPrevBlock block) new0 = Some new0"
      using None fresh(2) by (simp add: link_entry_def)
    moreover have "total_entry (m(hash \<mapsto> new0)) new0 = Some new"
      using w(1) new0 by (simp add: total_entry_def RaiseValidity_fresh new_def)
    moreover have "length (nChainWork new) = WIDTH" using w(2) by (simp add: new_def uint_zero_def)
    moreover have "entry_ok (m(hash \<mapsto> new)) hash new"
      using proof_cong [of new] new0 by (simp add: entry_ok_def new_def)
    moreover have "new_entry block m new" using None new0 by (simp add: new_entry_def new_def)
    ultimately show ?thesis by auto
  next
    case (Some prev)
    define q where "q = hashPrevBlock block"
    define new1 where "new1 = new0\<lparr>pprev := Some q, nHeight := nHeight prev + 1\<rparr>"
    define k where "k = GetSkipHeight (nHeight prev + 1)"
    have k: "k \<le> nHeight prev" using GetSkipHeight_less [of "nHeight prev + 1"] by (simp add: k_def)
    obtain s where s: "nth_prev m q (nHeight prev - k) = Some s"
      using back_height [OF assms(1), of q prev "nHeight prev - k"] Some by (auto simp: q_def m_def)
    have "GetAncestor m q (int k) = Some (Some s)"
      using GetAncestor_back [OF assms(1), of q prev "int k"] Some k s by (simp add: q_def m_def)
    then have anc: "GetAncestor (m(hash \<mapsto> x)) q (int k) = Some (Some s)" for x by (rule GetAncestor_ext [OF ext])
    define new2 where "new2 = new1\<lparr>pskip := Some s\<rparr>"
    define new where "new = new2\<lparr>nTimeMax := max (nTimeMax prev) (idx_nTime new0), nChainWork := uint_add (nChainWork prev) w, nStatus := 2\<rparr>"
    have link: "link_entry (m(hash \<mapsto> new0)) hash (hashPrevBlock block) new0 = Some new2"
      using Some fresh(2) anc [of new1] by (simp add: link_entry_def Let_def BuildSkip_def new1_def [symmetric] q_def [symmetric] new2_def)
        (simp add: new1_def k_def)
    have total: "total_entry (m(hash \<mapsto> new2)) new2 = Some new"
      using Some fresh(2) proof_cong [of new2] new0
      by (simp add: total_entry_def q_def [symmetric] RaiseValidity_fresh new_def new2_def new1_def)
    have len: "length (nChainWork new) = WIDTH"
      using assms(2) Some w(2) by (simp add: new_def works_ok_def m_def)
    have "nth_prev (m(hash \<mapsto> new)) hash (Suc (nHeight prev - k)) = Some s"
      using nth_prev_ext [OF ext s] by (simp add: new_def new2_def new1_def)
    then have "entry_ok (m(hash \<mapsto> new)) hash new"
      using Some fresh(2) proof_cong [of new] new0 k
      by (simp add: entry_ok_def new_def new2_def new1_def q_def [symmetric] k_def Suc_diff_le del: nth_prev.simps)
    moreover have "new_entry block m new" using Some new0 by (simp add: new_entry_def new_def new2_def new1_def q_def)
    ultimately show ?thesis using link total len by auto
  qed
  then obtain new where new: "new_entry block m new" "length (nChainWork new) = WIDTH" "entry_ok (m(hash \<mapsto> new)) hash new"
      "Option.bind (link_entry (m(hash \<mapsto> new0)) hash (hashPrevBlock block) new0) (\<lambda>x. total_entry (m(hash \<mapsto> x)) x) = Some new"
    by blast
  obtain x where x: "link_entry (m(hash \<mapsto> new0)) hash (hashPrevBlock block) new0 = Some x" "total_entry (m(hash \<mapsto> x)) x = Some new"
    using new(4) by (auto simp: bind_eq_Some_conv)
  have best: "p \<noteq> hash \<and> (\<exists>b. m p = Some b)" if "pindexBestHeader db = Some p" for p using assms(5) that fresh by (auto simp: m_def)
  have "AddToBlockIndex block db = Some (hash,
      db\<lparr>mapBlockIndex := m(hash \<mapsto> new),
         pindexBestHeader := (case pindexBestHeader db of None \<Rightarrow> Some hash
          | Some p \<Rightarrow> Some (if CompareTo (nChainWork (the (m p))) (nChainWork new) < 0 then hash else p)),
         setDirtyBlockIndex := insert hash (setDirtyBlockIndex db)\<rparr>)"
    using x fresh(1) best unfolding AddToBlockIndex_def Let_def hash_def [symmetric] m_def [symmetric] new0_def [symmetric]
    by (auto split: option.splits)
  then show thesis using that [of new] new(1-3) unfolding hash_def m_def by simp
qed

section \<open>The invariant of the block index\<close>

text \<open>The hash under which an entry is held is the hash of the header it stands for.\<close>

definition hash_linked :: "BlockMap \<Rightarrow> bool" where
  "hash_linked m \<longleftrightarrow> (\<forall>p b q. m p = Some b \<longrightarrow> pprev b = Some q \<longrightarrow>
     p = CPureBlockHeader_GetHash \<lparr>hdr_nVersion = idx_nVersion b, hashPrevBlock = q, hashMerkleRoot = idx_hashMerkleRoot b,
           hdr_nTime = idx_nTime b, nBits = idx_nBits b, nNonce = idx_nNonce b\<rparr>)"

text \<open>Every linked entry claims a positive target, so that it adds work to its chain.\<close>

definition targets_ok :: "BlockMap \<Rightarrow> bool" where
  "targets_ok m \<longleftrightarrow> (\<forall>p b q. m p = Some b \<longrightarrow> pprev b = Some q \<longrightarrow> proper_target (idx_nBits b) \<and> 0 < compact_nat (idx_nBits b))"

text \<open>The best header is an entry with the most work.\<close>

definition best_ok :: "BlockMap \<Rightarrow> uint256 option \<Rightarrow> bool" where
  "best_ok m best \<longleftrightarrow>
     (case best of
        None \<Rightarrow> m = Map.empty
      | Some p \<Rightarrow> \<exists>b. m p = Some b \<and> (\<forall>q c. m q = Some c \<longrightarrow> uval (nChainWork c) \<le> uval (nChainWork b)))"

definition db_ok :: "block_db \<Rightarrow> bool" where
  "db_ok db \<longleftrightarrow> index_ok (mapBlockIndex db) \<and> works_ok (mapBlockIndex db) \<and> hash_linked (mapBlockIndex db)
     \<and> targets_ok (mapBlockIndex db) \<and> best_ok (mapBlockIndex db) (pindexBestHeader db)"

lemma CompareTo_lt: "length a = length b \<Longrightarrow> CompareTo a b < 0 \<longleftrightarrow> uval a < uval b"
  by (simp add: CompareTo_sgn sgn_if)

lemma length_header_hash [simp]: "length (CPureBlockHeader_GetHash h) = 32"
  by (simp add: CPureBlockHeader_GetHash_def SerializeHash_eq)

lemma GetHash_fields:
  "CPureBlockHeader_GetHash block = CPureBlockHeader_GetHash \<lparr>hdr_nVersion = hdr_nVersion block, hashPrevBlock = hashPrevBlock block,
     hashMerkleRoot = hashMerkleRoot block, hdr_nTime = hdr_nTime block, nBits = nBits block, nNonce = nNonce block\<rparr>"
  by (simp add: CPureBlockHeader_GetHash_def CPureBlockHeader_Serialize_def)

lemma best_in_map: "db_ok db \<Longrightarrow> pindexBestHeader db = Some p \<Longrightarrow> \<exists>b. mapBlockIndex db p = Some b"
  by (auto simp: db_ok_def best_ok_def)

lemma insert_keeps_ok:
  fixes block :: "'a CBlockHeader_scheme"
  assumes "db_ok db" and "mapBlockIndex db (CPureBlockHeader_GetHash block) = None"
    and "hashPrevBlock block \<noteq> CPureBlockHeader_GetHash block"
    and "mapBlockIndex db (hashPrevBlock block) \<noteq> None \<Longrightarrow> proper_target (nBits block) \<and> 0 < compact_nat (nBits block)"
  obtains db' where "AddToBlockIndex block db = Some (CPureBlockHeader_GetHash block, db')" and "db_ok db'"
    and "times_ok (mapBlockIndex db) \<Longrightarrow>
      (mapBlockIndex db (hashPrevBlock block) \<noteq> None \<Longrightarrow> mtp (mapBlockIndex db) (hashPrevBlock block) \<le> GetBlockTime block) \<Longrightarrow>
      times_ok (mapBlockIndex db')"
    and "mapBlockIndex db \<subseteq>\<^sub>m mapBlockIndex db'"
proof -
  define hash where "hash = CPureBlockHeader_GetHash block"
  define m where "m = mapBlockIndex db"
  have ok: "index_ok m" "works_ok m" "hash_linked m" "targets_ok m" "best_ok m (pindexBestHeader db)"
    using assms(1) by (simp_all add: db_ok_def m_def)
  have best: "pindexBestHeader db \<noteq> None \<Longrightarrow> mapBlockIndex db (the (pindexBestHeader db)) \<noteq> None"
    using best_in_map [OF assms(1)] by auto
  obtain new where new: "new_entry block m new" "length (nChainWork new) = WIDTH" "entry_ok (m(hash \<mapsto> new)) hash new"
      "AddToBlockIndex block db = Some (hash, db\<lparr>mapBlockIndex := m(hash \<mapsto> new),
         pindexBestHeader := (case pindexBestHeader db of None \<Rightarrow> Some hash
          | Some p \<Rightarrow> Some (if CompareTo (nChainWork (the (m p))) (nChainWork new) < 0 then hash else p)),
         setDirtyBlockIndex := insert hash (setDirtyBlockIndex db)\<rparr>)"
    using AddToBlockIndex_new [OF ok(1,2) [unfolded m_def] assms(2,3) best] unfolding m_def hash_def by blast
  define m' where "m' = m(hash \<mapsto> new)"
  have fresh: "m hash = None" using assms(2) by (simp add: m_def hash_def)
  have ext: "m \<subseteq>\<^sub>m m'" using fresh by (simp add: map_le_def dom_def m'_def)
  have cases': "p = hash \<and> b = new \<or> m p = Some b" if "m' p = Some b" for p b using that by (auto simp: m'_def split: if_splits)
  have "index_ok m'" unfolding index_ok_def
    using cases' new(3) entry_ok_ext [OF ok(1) ext] by (auto simp: m'_def [symmetric])
  moreover have "works_ok m'" using ok(2) new(2) cases' unfolding works_ok_def by blast
  moreover have "hash_linked m'" unfolding hash_linked_def
  proof (intro allI impI)
    fix p b q assume b: "m' p = Some b" "pprev b = Some q"
    show "p = CPureBlockHeader_GetHash \<lparr>hdr_nVersion = idx_nVersion b, hashPrevBlock = q, hashMerkleRoot = idx_hashMerkleRoot b,
           hdr_nTime = idx_nTime b, nBits = idx_nBits b, nNonce = idx_nNonce b\<rparr>"
      using cases' [OF b(1)]
    proof
      assume eq: "p = hash \<and> b = new"
      then have "q = hashPrevBlock block" using b(2) new(1) by (auto simp: new_entry_def split: if_splits)
      then show ?thesis using eq new(1) GetHash_fields [of block] by (simp add: new_entry_def hash_def)
    qed (use ok(3) b(2) in \<open>auto simp: hash_linked_def\<close>)
  qed
  moreover have "targets_ok m'" unfolding targets_ok_def
    using cases' ok(4) new(1) assms(4) by (fastforce simp: targets_ok_def new_entry_def m_def split: if_splits)
  moreover have "best_ok m' (case pindexBestHeader db of None \<Rightarrow> Some hash
      | Some p \<Rightarrow> Some (if CompareTo (nChainWork (the (m p))) (nChainWork new) < 0 then hash else p))"
  proof (cases "pindexBestHeader db")
    case None
    then show ?thesis using ok(5) by (auto simp: best_ok_def m'_def)
  next
    case (Some p)
    then obtain b where b: "m p = Some b" "\<And>q c. m q = Some c \<Longrightarrow> uval (nChainWork c) \<le> uval (nChainWork b)"
      using ok(5) by (auto simp: best_ok_def)
    have cmp: "CompareTo (nChainWork b) (nChainWork new) < 0 \<longleftrightarrow> uval (nChainWork b) < uval (nChainWork new)"
      using CompareTo_lt ok(2) b(1) new(2) by (simp add: works_ok_def)
    have p: "m' p = Some b" "m' hash = Some new" using b(1) fresh by (auto simp: m'_def)
    show ?thesis
    proof (cases "uval (nChainWork b) < uval (nChainWork new)")
      case True
      have "uval (nChainWork c) \<le> uval (nChainWork new)" if "m' q = Some c" for q c using cases' [OF that] b(2) True by fastforce
      then show ?thesis using Some b(1) cmp True p(2) by (simp add: best_ok_def)
    next
      case False
      have "uval (nChainWork c) \<le> uval (nChainWork b)" if "m' q = Some c" for q c using cases' [OF that] b(2) False by fastforce
      then show ?thesis using Some b(1) cmp False p(1) by (simp add: best_ok_def)
    qed
  qed
  moreover have "times_ok m'" if "times_ok m" "m (hashPrevBlock block) \<noteq> None \<Longrightarrow> mtp m (hashPrevBlock block) \<le> GetBlockTime block"
    unfolding times_ok_def
  proof (intro allI impI)
    fix p b q assume b: "m' p = Some b" "pprev b = Some q"
    show "mtp m' q \<le> idx_GetBlockTime b"
      using cases' [OF b(1)]
    proof
      assume eq: "p = hash \<and> b = new"
      then have q: "q = hashPrevBlock block" "m q \<noteq> None" using b(2) new(1) by (auto simp: new_entry_def split: if_splits)
      then show ?thesis using that(2) mtp_ext [OF ok(1) ext, of q] eq new(1) by (auto simp: new_entry_def idx_GetBlockTime_def GetBlockTime_def)
    next
      assume old: "m p = Some b"
      then obtain c where "m q = Some c" using ok(1) b(2) by (elim pprev_cases [of m p b]) auto
      then show ?thesis using that(1) old b(2) mtp_ext [OF ok(1) ext] by (auto simp: times_ok_def)
    qed
  qed
  moreover define db' where "db' = db\<lparr>mapBlockIndex := m', pindexBestHeader := (case pindexBestHeader db of None \<Rightarrow> Some hash
      | Some p \<Rightarrow> Some (if CompareTo (nChainWork (the (m p))) (nChainWork new) < 0 then hash else p)),
      setDirtyBlockIndex := insert hash (setDirtyBlockIndex db)\<rparr>"
  ultimately have res: "db_ok db'" "mapBlockIndex db' = m'"
      "times_ok m \<Longrightarrow> (m (hashPrevBlock block) \<noteq> None \<Longrightarrow> mtp m (hashPrevBlock block) \<le> GetBlockTime block) \<Longrightarrow> times_ok m'"
    by (simp_all add: db_ok_def)
  show thesis
  proof (rule that [of db'])
    show "AddToBlockIndex block db = Some (CPureBlockHeader_GetHash block, db')" using new(4) by (simp only: db'_def m'_def hash_def)
    show "db_ok db'" by (rule res(1))
    show "mapBlockIndex db \<subseteq>\<^sub>m mapBlockIndex db'" using ext by (simp only: res(2) m_def)
  next
    show "times_ok (mapBlockIndex db')" if "times_ok (mapBlockIndex db)"
        "mapBlockIndex db (hashPrevBlock block) \<noteq> None \<Longrightarrow> mtp (mapBlockIndex db) (hashPrevBlock block) \<le> GetBlockTime block"
      unfolding res(2) by (rule res(3) [unfolded m_def, OF that])
  qed
qed

section \<open>What the checks establish\<close>

lemma regtest_target: "proper_target 0x207fffff \<and> 0 < compact_nat 0x207fffff"
proof -
  have "proper_target 0x207fffff"
    using GetCompact_target [OF regtest_number(2)] regtest_bits by (metis option.inject)
  then show ?thesis by (simp add: compact_nat_def compact_value_def)
qed

lemma CheckProofOfWork_target:
  "CheckProofOfWork r hash bits params = Some True \<Longrightarrow> length hash = 32 \<Longrightarrow> length (powLimit params) = 32 \<Longrightarrow>
    proper_target bits \<and> 0 < compact_nat bits"
proof -
  assume a: "CheckProofOfWork r hash bits params = Some True" "length hash = 32" "length (powLimit params) = 32"
  obtain t neg ovf where t: "SetCompact bits = (t, neg, ovf)" by (cases "SetCompact bits")
  note v = SetCompact_nat(1,2) [OF t]
  show ?thesis
  proof (cases "bits = 0x207fffff")
    case True
    then show ?thesis using regtest_target by simp
  next
    case False
    then have "\<not> neg \<and> \<not> ovf \<and> uval t \<noteq> 0"
      using a(1) t v(1) unfolding CheckProofOfWork_def regtest_bits by (auto simp: EqualTo_iff split: if_splits)
    then show ?thesis using v(2) t by (simp add: proper_target_def)
  qed
qed

lemma CheckProofOfWork_block_target:
  assumes "CheckProofOfWork_block env block = Some True" and "length (powLimit (consensus env)) = 32"
  shows "proper_target (nBits block) \<and> 0 < compact_nat (nBits block)"
proof -
  obtain h :: CPureBlockHeader where "CheckProofOfWork (strNetworkID env = ''regtest'') (CPureBlockHeader_GetHash block) (nBits block) (consensus env) = Some True
      \<or> CheckProofOfWork (strNetworkID env = ''regtest'') (CPureBlockHeader_GetHash h) (nBits block) (consensus env) = Some True"
    using assms(1) unfolding CheckProofOfWork_block_def
    by (auto simp: Let_def bind_eq_Some_conv split: option.splits if_splits)
  then show ?thesis by (auto dest: CheckProofOfWork_target [OF _ length_header_hash assms(2)])
qed

text \<open>The command line does not select the regression test network.\<close>

definition off_regtest :: "header_env \<Rightarrow> bool" where
  "off_regtest env \<longleftrightarrow> ChainNameFromCommandLine (arg_regtest env) (arg_devnet env) (arg_testnet env) \<noteq> Some ''regtest''"

lemma state_DoS_ret [simp]: "fst (state_DoS level ret code reason corr st) = ret"
  by (simp add: state_DoS_def Let_def)

lemma state_False: "state_DoS level False code reason corr st \<noteq> (True, st')" "state_Invalid False code reason st \<noteq> (True, st')"
  by (metis fst_conv state_DoS_ret) (metis fst_conv state_DoS_ret state_Invalid_def)

lemma header_checks_True:
  assumes "header_checks env block m st = Some (True, st')" and "index_ok m"
  shows "CheckProofOfWork_block env block = Some True" and "m (hashPrevBlock block) \<noteq> None"
    and "off_regtest env \<Longrightarrow> mtp m (hashPrevBlock block) < GetBlockTime block \<and> GetBlockTime block \<le> nAdjustedTime env + 2 * 60 * 60"
    and "GetNextWorkRequired m (env_float env) (Some (hashPrevBlock block)) block (consensus env) = Some (nBits block)"
    and "st' = st"
proof -
  obtain st1 where c1: "CheckBlockHeader env block True st = Some (True, st1)"
    using assms(1) by (auto simp: header_checks_def bind_eq_Some_conv split: if_splits)
  then show pow: "CheckProofOfWork_block env block = Some True"
    by (auto simp: CheckBlockHeader_def bind_eq_Some_conv state_False split: if_splits)
  have st1: "st1 = st" using c1 by (auto simp: CheckBlockHeader_def bind_eq_Some_conv state_False split: if_splits)
  obtain prev where prev: "m (hashPrevBlock block) = Some prev"
    using assms(1) c1 by (auto simp: header_checks_def state_False split: option.splits)
  then show "m (hashPrevBlock block) \<noteq> None" by simp
  have st2: "x = (True, st2) \<Longrightarrow> CheckIndexAgainstCheckpoint env m p st = Some x \<Longrightarrow> st2 = st" for x st2 p
    by (auto simp: CheckIndexAgainstCheckpoint_def bind_eq_Some_conv state_False split: if_splits option.splits)
  obtain ctx: "ContextualCheckBlockHeader env m block (Some (hashPrevBlock block)) st = Some (True, st')"
    using assms(1) c1 prev st2 unfolding st1
    by (auto simp: header_checks_def bind_eq_Some_conv state_False split: if_splits)
  have mtp: "GetMedianTimePast m (hashPrevBlock block) = Some (mtp m (hashPrevBlock block))"
    by (rule GetMedianTimePast_mtp [OF assms(2) prev])
  show "GetNextWorkRequired m (env_float env) (Some (hashPrevBlock block)) block (consensus env) = Some (nBits block)"
    using ctx by (auto simp: ContextualCheckBlockHeader_def bind_eq_Some_conv state_False split: if_splits)
  show "st' = st" using ctx by (auto simp: ContextualCheckBlockHeader_def bind_eq_Some_conv state_False split: if_splits)
  assume "off_regtest env"
  then show "mtp m (hashPrevBlock block) < GetBlockTime block \<and> GetBlockTime block \<le> nAdjustedTime env + 2 * 60 * 60"
    using ctx mtp by (auto simp: ContextualCheckBlockHeader_def off_regtest_def bind_eq_Some_conv state_False split: if_splits)
qed

section \<open>Runs\<close>

text \<open>
  The states of the block index that a node reaches by accepting headers, from an empty index. The clock may show any time
  at each step. The header whose hash is that of the genesis block names a predecessor that is not in the index.
\<close>

definition empty_db :: block_db where
  "empty_db = \<lparr>mapBlockIndex = Map.empty, pindexBestHeader = None, setDirtyBlockIndex = {}\<rparr>"

definition genesis_ok :: "header_env \<Rightarrow> CBlockHeader \<Rightarrow> block_db \<Rightarrow> bool" where
  "genesis_ok env block db \<longleftrightarrow> (CPureBlockHeader_GetHash block = hashGenesisBlock (consensus env) \<longrightarrow>
     hashPrevBlock block \<noteq> CPureBlockHeader_GetHash block \<and> mapBlockIndex db (hashPrevBlock block) = None)"

inductive header_reach :: "header_env \<Rightarrow> block_db \<Rightarrow> bool" for env where
  start: "header_reach env empty_db"
| accept: "header_reach env db \<Longrightarrow> genesis_ok env block db \<Longrightarrow>
    AcceptBlockHeader (env\<lparr>nAdjustedTime := now\<rparr>) block st db = Some (ok, st', pindex, db') \<Longrightarrow> header_reach env db'"

inductive_cases header_reachE: "header_reach env db"

text \<open>What a rejection does to the validation state, and that the checks leave the state alone otherwise.\<close>

definition rejected :: "CValidationState \<Rightarrow> CValidationState \<Rightarrow> bool" where
  "rejected st st' \<longleftrightarrow> mode st' = (if mode st = MODE_ERROR then MODE_ERROR else MODE_INVALID)"

definition verdict :: "CValidationState \<Rightarrow> bool \<times> CValidationState \<Rightarrow> bool" where
  "verdict st r \<longleftrightarrow> (if fst r then snd r = st else rejected st (snd r))"

lemma verdict_DoS: "verdict st (state_DoS level False code reason corr st)"
  by (simp add: verdict_def rejected_def state_DoS_def Let_def)

lemma verdict_Invalid: "verdict st (state_Invalid False code reason st)"
  by (simp add: state_Invalid_def verdict_DoS)

lemma verdict_ok: "verdict st (True, st)"
  by (simp add: verdict_def)

lemmas verdicts = verdict_DoS verdict_Invalid verdict_ok

lemma CheckBlockHeader_verdict: "CheckBlockHeader env block p st = Some r \<Longrightarrow> verdict st r"
  by (auto simp: CheckBlockHeader_def bind_eq_Some_conv verdicts)

lemma CheckIndexAgainstCheckpoint_verdict: "CheckIndexAgainstCheckpoint env m p st = Some r \<Longrightarrow> verdict st r"
  by (auto simp: CheckIndexAgainstCheckpoint_def bind_eq_Some_conv verdicts split: if_splits option.splits)

lemma ContextualCheckBlockHeader_verdict: "ContextualCheckBlockHeader env m block p st = Some r \<Longrightarrow> verdict st r"
  by (auto simp: ContextualCheckBlockHeader_def bind_eq_Some_conv verdicts split: if_splits option.splits)

lemma header_checks_verdict:
  assumes "header_checks env block m st = Some r"
  shows "verdict st r"
proof -
  obtain r1 where r1: "CheckBlockHeader env block True st = Some r1" using assms by (auto simp: header_checks_def bind_eq_Some_conv)
  note v1 = CheckBlockHeader_verdict [OF r1]
  show ?thesis
  proof (cases "fst r1")
    case False
    then show ?thesis using assms r1 v1 by (auto simp: header_checks_def split: prod.splits)
  next
    case True
    then have "r1 = (True, st)" using v1 by (cases r1) (simp add: verdict_def)
    with assms r1 show ?thesis
      by (auto simp: header_checks_def bind_eq_Some_conv verdicts verdict_def [of st "(True, s)" for s]
          split: if_splits option.splits
          dest!: CheckIndexAgainstCheckpoint_verdict ContextualCheckBlockHeader_verdict)
  qed
qed

lemma AcceptBlockHeader_cases:
  fixes block :: "'a CBlockHeader_scheme"
  assumes "AcceptBlockHeader env block st db = Some (ok, st', pindex, db')"
  defines "hash \<equiv> CPureBlockHeader_GetHash block"
  obtains (reject) "\<not> ok" "db' = db" "rejected st st'"
  | (known) "ok" "st' = st" "pindex = Some hash" "db' = db" "mapBlockIndex db hash \<noteq> None"
  | (insert) "ok" "st' = st" "pindex = Some hash" "mapBlockIndex db hash = None" "AddToBlockIndex block db = Some (hash, db')"
      "hash \<noteq> hashGenesisBlock (consensus env) \<Longrightarrow> header_checks env block (mapBlockIndex db) st = Some (True, st)"
proof (cases "hash \<noteq> hashGenesisBlock (consensus env) \<and> mapBlockIndex db hash \<noteq> None")
  case True
  note r = assms(1) [unfolded AcceptBlockHeader_def Let_def hash_def [symmetric] if_P [OF True]]
  show thesis
  proof (cases ok)
    case False
    show thesis using r False verdict_Invalid [of st 0 "''duplicate''"]
      by (intro reject) (auto simp: verdict_def split: if_splits prod.splits)
  next
    assume ok: ok
    show thesis using r ok True state_False by (intro known) (auto split: if_splits prod.splits)
  qed
next
  case False
  note r = assms(1) [unfolded AcceptBlockHeader_def Let_def hash_def [symmetric] if_not_P [OF False]]
  obtain ok1 st1 where c: "(if hash \<noteq> hashGenesisBlock (consensus env) then header_checks env block (mapBlockIndex db) st
      else Some (True, st)) = Some (ok1, st1)" using r by (auto simp: bind_eq_Some_conv)
  then have v: "verdict st (ok1, st1)" using header_checks_verdict verdict_ok by (auto split: if_splits)
  show thesis
  proof (cases ok1)
    assume no: "\<not> ok1"
    show thesis using r c v no by (intro reject) (auto simp: verdict_def)
  next
    assume yes: ok1
    then have st: "st1 = st" using v by (simp add: verdict_def)
    obtain p where add: "AddToBlockIndex block db = Some (p, db')" "ok" "st' = st" "pindex = Some p"
      using r c yes st by (auto simp: bind_eq_Some_conv)
    have p: "p = hash" using add(1) by (auto simp: AddToBlockIndex_def Let_def bind_eq_Some_conv hash_def split: option.splits if_splits)
    show thesis
    proof (cases "mapBlockIndex db hash")
      case None
      show thesis using add p None c yes st by (intro insert) (auto split: if_splits)
    next
      case (Some b)
      then have "db' = db" using add(1) by (simp add: AddToBlockIndex_def Let_def hash_def)
      then show thesis using add p Some by (intro known) auto
    qed
  qed
qed

lemma AddToBlockIndex_extends:
  assumes "AddToBlockIndex block db = Some (p, db')"
  shows "mapBlockIndex db \<subseteq>\<^sub>m mapBlockIndex db'" and "mapBlockIndex db' p \<noteq> None"
proof -
  define hash where "hash = CPureBlockHeader_GetHash block"
  have "mapBlockIndex db \<subseteq>\<^sub>m mapBlockIndex db' \<and> mapBlockIndex db' p \<noteq> None"
  proof (cases "mapBlockIndex db hash")
    case (Some b)
    then show ?thesis using assms by (simp add: AddToBlockIndex_def Let_def hash_def)
  next
    case None
    then obtain new where "p = hash" "mapBlockIndex db' = (mapBlockIndex db)(hash \<mapsto> new)"
      using assms unfolding AddToBlockIndex_def Let_def hash_def [symmetric] by (auto simp: bind_eq_Some_conv)
    then show ?thesis using None by (auto simp: map_le_def)
  qed
  then show "mapBlockIndex db \<subseteq>\<^sub>m mapBlockIndex db'" and "mapBlockIndex db' p \<noteq> None" by simp_all
qed

lemma AcceptBlockHeader_step:
  fixes block :: CBlockHeader
  assumes "AcceptBlockHeader env block st db = Some (ok, st', pindex, db')" and "db_ok db" and "genesis_ok env block db"
    and "length (powLimit (consensus env)) = 32"
  shows "db_ok db' \<and> (off_regtest env \<longrightarrow> times_ok (mapBlockIndex db) \<longrightarrow> times_ok (mapBlockIndex db'))"
  using assms(1)
proof (cases rule: AcceptBlockHeader_cases)
  case insert
  have idx: "index_ok (mapBlockIndex db)" using assms(2) by (simp add: db_ok_def)
  note checks = header_checks_True [OF insert(6) idx]
  have linked: "CPureBlockHeader_GetHash block \<noteq> hashGenesisBlock (consensus env)" if "mapBlockIndex db (hashPrevBlock block) \<noteq> None"
    using that assms(3) by (auto simp: genesis_ok_def)
  have neq: "hashPrevBlock block \<noteq> CPureBlockHeader_GetHash block"
    using assms(3) checks(2) insert(4) by (cases "CPureBlockHeader_GetHash block = hashGenesisBlock (consensus env)") (auto simp: genesis_ok_def)
  obtain d where "AddToBlockIndex block db = Some (CPureBlockHeader_GetHash block, d)" "db_ok d"
      "times_ok (mapBlockIndex db) \<Longrightarrow>
        (mapBlockIndex db (hashPrevBlock block) \<noteq> None \<Longrightarrow> mtp (mapBlockIndex db) (hashPrevBlock block) \<le> GetBlockTime block) \<Longrightarrow>
        times_ok (mapBlockIndex d)"
    using insert_keeps_ok [OF assms(2) insert(4) neq CheckProofOfWork_block_target [OF checks(1) [OF linked] assms(4)]] by blast
  then show ?thesis using insert(5) checks(3) [OF linked] by (auto simp: less_imp_le)
qed (use assms(2) in simp_all)

lemma ProcessNewBlockHeaders_reach:
  "header_reach env db \<Longrightarrow> (\<And>d h. h \<in> set headers \<Longrightarrow> genesis_ok env h d) \<Longrightarrow>
    ProcessNewBlockHeaders (env\<lparr>nAdjustedTime := now\<rparr>) headers st pp db = Some (ok, st', pp', db') \<Longrightarrow> header_reach env db'"
proof (induction headers arbitrary: st pp db)
  case (Cons h headers)
  obtain ok1 st1 pi1 db1 where step: "AcceptBlockHeader (env\<lparr>nAdjustedTime := now\<rparr>) h st db = Some (ok1, st1, pi1, db1)"
    using Cons.prems(3) by (auto simp: bind_eq_Some_conv)
  have "header_reach env db1" by (rule header_reach.accept [OF Cons.prems(1) _ step]) (simp add: Cons.prems(2))
  then show ?case using Cons.IH [of db1 st1 pi1] Cons.prems(2,3) step by (auto split: if_splits)
qed simp

section \<open>Properties\<close>

text \<open>
  C3. The block index: every state that a node reaches by accepting headers is well formed. Each entry is held under the hash
  of its header; heights, skip pointers, greatest times and total work are those of its chain; every linked entry adds
  work; the best header is an entry with the most work; and off the regression test network no block is older than the median
  time of its predecessor, so that median times never decrease along a chain.
\<close>

theorem header_reach_invariant:
  assumes "header_reach env db" and "length (powLimit (consensus env)) = 32"
  shows "db_ok db \<and> (off_regtest env \<longrightarrow> times_ok (mapBlockIndex db))"
  using assms(1)
proof (induction rule: header_reach.induct)
  case start
  show ?case by (simp add: empty_db_def db_ok_def index_ok_def works_ok_def hash_linked_def targets_ok_def best_ok_def times_ok_def)
next
  case (accept db block now st ok st' pindex db')
  have "genesis_ok (env\<lparr>nAdjustedTime := now\<rparr>) block db" "length (powLimit (consensus (env\<lparr>nAdjustedTime := now\<rparr>))) = 32"
    using accept(2) assms(2) by (simp_all add: genesis_ok_def)
  from AcceptBlockHeader_step [OF accept(3) _ this] accept.IH show ?case by (simp add: off_regtest_def)
qed

text \<open>
  A node on the main network whose genesis block is a given header. The header names no predecessor; the empty string, which
  is no hash, stands for it, so that it differs from the hash of the header without computing that.
\<close>

definition sample_header :: CBlockHeader where
  "sample_header = \<lparr>hdr_nVersion = 1, hashPrevBlock = [], hashMerkleRoot = uint256_null, hdr_nTime = 1000, nBits = 0x1d00ffff,
     nNonce = 0, auxpow = None\<rparr>"

definition sample_env :: header_env where
  "sample_env = \<lparr>consensus = main_params\<lparr>hashGenesisBlock := CPureBlockHeader_GetHash sample_header\<rparr>, strNetworkID = ''main'',
     mapCheckpoints = [], fCheckpointsEnabled = True, arg_regtest = False, arg_devnet = False, arg_testnet = False,
     nAdjustedTime = 0, env_prune = \<lparr>GetTimeToPrune = (\<lambda>script. None), TipMedianTimePast = None\<rparr>,
     env_float = \<lparr>fortieth = (\<lambda>t. word_of_int (t div 40)), outside_horizon = (\<lambda>mass actual target. actual > 2 * target)\<rparr>\<rparr>"

lemma sample_distinct: "hashPrevBlock sample_header \<noteq> CPureBlockHeader_GetHash sample_header"
proof -
  have "hashPrevBlock sample_header = []" by (simp add: sample_header_def)
  moreover have "length (CPureBlockHeader_GetHash sample_header) = 32" by (rule length_header_hash)
  ultimately show ?thesis by force
qed

lemma empty_db_ok: "db_ok empty_db" and empty_db_None: "mapBlockIndex empty_db x = None"
  by (simp_all add: empty_db_def db_ok_def index_ok_def works_ok_def hash_linked_def targets_ok_def best_ok_def)

lemma AcceptBlockHeader_genesis:
  "CPureBlockHeader_GetHash block = hashGenesisBlock (consensus env) \<Longrightarrow> AddToBlockIndex block db = Some (p, db') \<Longrightarrow>
    AcceptBlockHeader env block st db = Some (True, st, Some p, db')"
  by (simp add: AcceptBlockHeader_def)

lemma sample_accepted:
  "\<exists>db. AcceptBlockHeader (sample_env\<lparr>nAdjustedTime := 0\<rparr>) sample_header CValidationState_init empty_db =
      Some (True, CValidationState_init, Some (CPureBlockHeader_GetHash sample_header), db)
      \<and> mapBlockIndex db (CPureBlockHeader_GetHash sample_header) \<noteq> None"
proof -
  have none: "mapBlockIndex empty_db (hashPrevBlock sample_header) \<noteq> None \<Longrightarrow> X" for X using empty_db_None [of "hashPrevBlock sample_header"] by blast
  obtain db where db: "AddToBlockIndex sample_header empty_db = Some (CPureBlockHeader_GetHash sample_header, db)"
    by (rule insert_keeps_ok [OF empty_db_ok empty_db_None sample_distinct none])
  have "CPureBlockHeader_GetHash sample_header = hashGenesisBlock (consensus (sample_env\<lparr>nAdjustedTime := 0\<rparr>))"
    by (simp add: sample_env_def)
  from AcceptBlockHeader_genesis [OF this db] AddToBlockIndex_extends(2) [OF db] show ?thesis by blast
qed

lemma sample_genesis: "genesis_ok sample_env sample_header empty_db"
  using sample_distinct by (auto simp: genesis_ok_def empty_db_def)

lemma sample_powLimit: "length (powLimit (consensus sample_env)) = 32"
  by (simp add: sample_env_def main_params_def)

theorem header_reach_invariant_witness:
  "\<exists>db. header_reach sample_env db \<and> mapBlockIndex db \<noteq> Map.empty \<and> db_ok db \<and> times_ok (mapBlockIndex db)"
proof -
  obtain db where db: "AcceptBlockHeader (sample_env\<lparr>nAdjustedTime := 0\<rparr>) sample_header CValidationState_init empty_db =
      Some (True, CValidationState_init, Some (CPureBlockHeader_GetHash sample_header), db)"
      "mapBlockIndex db (CPureBlockHeader_GetHash sample_header) \<noteq> None" using sample_accepted by blast
  have reach: "header_reach sample_env db" by (rule header_reach.accept [OF header_reach.start sample_genesis db(1)])
  have "off_regtest sample_env" by (simp add: off_regtest_def sample_env_def ChainNameFromCommandLine_def)
  then show ?thesis using header_reach_invariant [OF reach sample_powLimit] reach db(2) by auto
qed

text \<open>
  C13. \<open>AcceptBlockHeader\<close> on every outcome, on a well-formed index. A rejected header leaves the index untouched and marks the
  validation state as invalid, unless that holds an error already. An accepted header leaves the validation state alone, is in the
  index afterwards and no other entry has changed; and unless it was known or is the genesis block, its work is proven,
  its target is the required one, its predecessor is known, and off the regression test network its time lies after the median
  time of the predecessor and at most two hours ahead of the clock.
\<close>

theorem AcceptBlockHeader_outcome:
  fixes block :: CBlockHeader
  assumes "AcceptBlockHeader env block st db = Some (ok, st', pindex, db')" and "index_ok (mapBlockIndex db)"
  shows "if \<not> ok then db' = db \<and> mode st' = (if mode st = MODE_ERROR then MODE_ERROR else MODE_INVALID)
     else st' = st \<and> pindex = Some (CPureBlockHeader_GetHash block) \<and> mapBlockIndex db' (CPureBlockHeader_GetHash block) \<noteq> None
        \<and> mapBlockIndex db \<subseteq>\<^sub>m mapBlockIndex db'
        \<and> (mapBlockIndex db (CPureBlockHeader_GetHash block) = None
            \<and> CPureBlockHeader_GetHash block \<noteq> hashGenesisBlock (consensus env) \<longrightarrow>
              CheckProofOfWork_block env block = Some True
              \<and> GetNextWorkRequired (mapBlockIndex db) (env_float env) (Some (hashPrevBlock block)) block (consensus env) = Some (nBits block)
              \<and> mapBlockIndex db (hashPrevBlock block) \<noteq> None
              \<and> (off_regtest env \<longrightarrow> mtp (mapBlockIndex db) (hashPrevBlock block) < GetBlockTime block
                   \<and> GetBlockTime block \<le> nAdjustedTime env + 2 * 60 * 60))"
  using assms(1)
proof (cases rule: AcceptBlockHeader_cases)
  case reject
  then show ?thesis by (simp add: rejected_def)
next
  case insert
  then show ?thesis using AddToBlockIndex_extends [OF insert(5)] header_checks_True [OF insert(6) assms(2)] by simp
qed auto

text \<open>At the genesis block of the sample node, on the empty index.\<close>

theorem AcceptBlockHeader_outcome_witness:
  "\<exists>db pindex. AcceptBlockHeader (sample_env\<lparr>nAdjustedTime := 0\<rparr>) sample_header CValidationState_init empty_db =
      Some (True, CValidationState_init, pindex, db) \<and> pindex = Some (CPureBlockHeader_GetHash sample_header)
      \<and> mapBlockIndex db (CPureBlockHeader_GetHash sample_header) \<noteq> None"
proof -
  have idx: "index_ok (mapBlockIndex empty_db)" using empty_db_ok by (simp only: db_ok_def)
  obtain db where db: "AcceptBlockHeader (sample_env\<lparr>nAdjustedTime := 0\<rparr>) sample_header CValidationState_init empty_db =
      Some (True, CValidationState_init, Some (CPureBlockHeader_GetHash sample_header), db)" using sample_accepted by blast
  from AcceptBlockHeader_outcome [OF db idx] db show ?thesis by auto
qed

end
