(* ===== verification/Coins.thy ===== *)
theory Coins
  imports Transaction "HOL-Library.AList"
begin

text \<open>
  The set of unspent outputs (\<^verbatim>\<open>src/coins.h\<close>, \<^verbatim>\<open>src/coins.cpp\<close> and the coin database of \<^verbatim>\<open>src/txdb.cpp\<close>). A view is the database,
  or a cache on top of another view; the virtual methods are functions by recursion over the layers. Reading through a cache
  fills the caches below it, so that every method returns the view it leaves. A hash map is the list of its entries in the order
  of iteration. The key-value store is a map from outpoints to coins together with the entry for the best block; a store that
  cannot be written throws. \<open>None\<close> is an exception or a failed assertion. The memory statistics (\<open>cachedCoinsUsage\<close>), which depend
  on the allocator, are left out.
\<close>

unbundle bit_operations_syntax

section \<open>Coins\<close>

record Coin =
  coin_out :: CTxOut
  fCoinBase :: bool
  coin_nHeight :: "31 word"

definition Coin_of :: "CTxOut \<Rightarrow> int \<Rightarrow> bool \<Rightarrow> Coin" where
  "Coin_of outIn nHeightIn fCoinBaseIn = \<lparr>coin_out = outIn, fCoinBase = fCoinBaseIn, coin_nHeight = word_of_int nHeightIn\<rparr>"

definition Coin_Clear :: "Coin \<Rightarrow> Coin" where
  "Coin_Clear coin = coin\<lparr>coin_out := CTxOut_null, fCoinBase := False, coin_nHeight := 0\<rparr>"

definition coinEmpty :: Coin where
  "coinEmpty = \<lparr>coin_out = CTxOut_null, fCoinBase = False, coin_nHeight = 0\<rparr>"

definition IsSpent :: "Coin \<Rightarrow> bool" where
  "IsSpent coin \<longleftrightarrow> CTxOut_IsNull (coin_out coin)"

section \<open>Views\<close>

record CCoinsCacheEntry =
  cached :: Coin
  flags :: byte

abbreviation (input) DIRTY :: byte where "DIRTY \<equiv> 1"
abbreviation (input) FRESH :: byte where "FRESH \<equiv> 2"

definition CCoinsCacheEntry_of :: "Coin \<Rightarrow> CCoinsCacheEntry" where
  "CCoinsCacheEntry_of coin = \<lparr>cached = coin, flags = 0\<rparr>"

type_synonym CCoinsMap = "(COutPoint \<times> CCoinsCacheEntry) list"

record coin_db =
  db_coins :: "COutPoint \<Rightarrow> Coin option"
  db_best :: "uint256 option"
  db_writable :: bool

datatype CCoinsView =
  CCoinsView
| CCoinsViewBacked CCoinsView
| CCoinsViewDB coin_db
| CCoinsViewCache (cacheCoins: CCoinsMap) (hashBlock: uint256) CCoinsView

text \<open>
  \<open>GetCoin\<close> with the coin it may overwrite, and \<open>FetchCoin\<close>, which returns the entry that its iterator points to.
\<close>

fun GetCoin :: "CCoinsView \<Rightarrow> COutPoint \<Rightarrow> Coin \<Rightarrow> bool \<times> Coin \<times> CCoinsView"
  and FetchCoin :: "CCoinsMap \<Rightarrow> CCoinsView \<Rightarrow> COutPoint \<Rightarrow> CCoinsCacheEntry option \<times> CCoinsMap \<times> CCoinsView" where
  "GetCoin CCoinsView outpoint coin = (False, coin, CCoinsView)"
| "GetCoin (CCoinsViewBacked base) outpoint coin =
     (let (ret, coin, base) = GetCoin base outpoint coin in (ret, coin, CCoinsViewBacked base))"
| "GetCoin (CCoinsViewDB db) outpoint coin =
     (case db_coins db outpoint of None \<Rightarrow> (False, coin, CCoinsViewDB db) | Some c \<Rightarrow> (True, c, CCoinsViewDB db))"
| "GetCoin (CCoinsViewCache coins hash base) outpoint coin =
     (let (it, coins, base) = FetchCoin coins base outpoint
      in case it of
           None \<Rightarrow> (False, coin, CCoinsViewCache coins hash base)
         | Some e \<Rightarrow> (\<not> IsSpent (cached e), cached e, CCoinsViewCache coins hash base))"
| "FetchCoin coins base outpoint =
     (case map_of coins outpoint of
        Some it \<Rightarrow> (Some it, coins, base)
      | None \<Rightarrow>
          let (ret, tmp, base) = GetCoin base outpoint coinEmpty
          in if \<not> ret then (None, coins, base)
             else
               let e = CCoinsCacheEntry_of tmp;
                   e = (if IsSpent (cached e) then e\<lparr>flags := FRESH\<rparr> else e)
               in (Some e, AList.update outpoint e coins, base))"

fun HaveCoin :: "CCoinsView \<Rightarrow> COutPoint \<Rightarrow> bool \<times> CCoinsView" where
  "HaveCoin CCoinsView outpoint = (let (ret, coin, view) = GetCoin CCoinsView outpoint coinEmpty in (ret, view))"
| "HaveCoin (CCoinsViewBacked base) outpoint = (let (ret, base) = HaveCoin base outpoint in (ret, CCoinsViewBacked base))"
| "HaveCoin (CCoinsViewDB db) outpoint = (db_coins db outpoint \<noteq> None, CCoinsViewDB db)"
| "HaveCoin (CCoinsViewCache coins hash base) outpoint =
     (let (it, coins, base) = FetchCoin coins base outpoint
      in ((case it of None \<Rightarrow> False | Some e \<Rightarrow> \<not> IsSpent (cached e)), CCoinsViewCache coins hash base))"

fun GetBestBlock :: "CCoinsView \<Rightarrow> uint256 \<times> CCoinsView" where
  "GetBestBlock CCoinsView = (uint256_null, CCoinsView)"
| "GetBestBlock (CCoinsViewBacked base) = (let (h, base) = GetBestBlock base in (h, CCoinsViewBacked base))"
| "GetBestBlock (CCoinsViewDB db) = ((case db_best db of None \<Rightarrow> uint256_null | Some h \<Rightarrow> h), CCoinsViewDB db)"
| "GetBestBlock (CCoinsViewCache coins hash base) =
     (if hash = uint256_null
      then let (h, base) = GetBestBlock base in (h, CCoinsViewCache coins h base)
      else (hash, CCoinsViewCache coins hash base))"

text \<open>Writing the entries of a child cache into the database and into a cache.\<close>

fun db_write :: "(COutPoint \<Rightarrow> Coin option) \<Rightarrow> CCoinsMap \<Rightarrow> COutPoint \<Rightarrow> Coin option" where
  "db_write m [] = m"
| "db_write m ((outpoint, e) # mapCoins) =
     db_write (if flags e AND DIRTY \<noteq> 0
               then if IsSpent (cached e) then m(outpoint := None) else m(outpoint \<mapsto> cached e)
               else m) mapCoins"

definition merge_entry :: "CCoinsMap \<Rightarrow> COutPoint \<Rightarrow> CCoinsCacheEntry \<Rightarrow> CCoinsMap option" where
  "merge_entry coins outpoint e =
     (if flags e AND DIRTY = 0 then Some coins
      else
        case map_of coins outpoint of
          None \<Rightarrow>
            if flags e AND FRESH \<noteq> 0 \<and> IsSpent (cached e) then Some coins
            else Some (AList.update outpoint
                         \<lparr>cached = cached e, flags = (if flags e AND FRESH \<noteq> 0 then DIRTY OR FRESH else DIRTY)\<rparr> coins)
        | Some us \<Rightarrow>
            if flags e AND FRESH \<noteq> 0 \<and> \<not> IsSpent (cached us) then None
            else if flags us AND FRESH \<noteq> 0 \<and> IsSpent (cached e) then Some (AList.delete outpoint coins)
            else Some (AList.update outpoint (us\<lparr>cached := cached e, flags := flags us OR DIRTY\<rparr>) coins))"

fun merge_loop :: "CCoinsMap \<Rightarrow> CCoinsMap \<Rightarrow> CCoinsMap option" where
  "merge_loop coins [] = Some coins"
| "merge_loop coins ((outpoint, e) # mapCoins) = do { coins \<leftarrow> merge_entry coins outpoint e; merge_loop coins mapCoins }"

fun BatchWrite :: "CCoinsView \<Rightarrow> CCoinsMap \<Rightarrow> uint256 \<Rightarrow> (bool \<times> CCoinsView) option" where
  "BatchWrite CCoinsView mapCoins hash = Some (False, CCoinsView)"
| "BatchWrite (CCoinsViewBacked base) mapCoins hash =
     do { (ret, base) \<leftarrow> BatchWrite base mapCoins hash; Some (ret, CCoinsViewBacked base) }"
| "BatchWrite (CCoinsViewDB db) mapCoins hash =
     (if \<not> db_writable db then None
      else Some (True, CCoinsViewDB (db\<lparr>db_coins := db_write (db_coins db) mapCoins,
                                        db_best := (if hash = uint256_null then db_best db else Some hash)\<rparr>)))"
| "BatchWrite (CCoinsViewCache coins hash base) mapCoins hashBlockIn =
     do { coins \<leftarrow> merge_loop coins mapCoins; Some (True, CCoinsViewCache coins hashBlockIn base) }"

section \<open>The methods of a cache\<close>

text \<open>These are methods of \<open>CCoinsViewCache\<close> only; \<open>None\<close> stands for their absence in the other classes too.\<close>

definition new_cache :: "CCoinsView \<Rightarrow> CCoinsView" where
  "new_cache baseIn = CCoinsViewCache [] uint256_null baseIn"

fun AddCoin :: "CCoinsView \<Rightarrow> COutPoint \<Rightarrow> Coin \<Rightarrow> bool \<Rightarrow> CCoinsView option" where
  "AddCoin (CCoinsViewCache coins hash base) outpoint coin possible_overwrite =
     (if IsSpent coin then None
      else if IsUnspendable (scriptPubKey (coin_out coin)) then Some (CCoinsViewCache coins hash base)
      else
        let it = (case map_of coins outpoint of None \<Rightarrow> CCoinsCacheEntry_of coinEmpty | Some e \<Rightarrow> e)
        in if \<not> possible_overwrite \<and> \<not> IsSpent (cached it) then None
           else
             let fresh = (\<not> possible_overwrite \<and> flags it AND DIRTY = 0);
                 e = \<lparr>cached = coin, flags = flags it OR (DIRTY OR (if fresh then FRESH else 0))\<rparr>
             in Some (CCoinsViewCache (AList.update outpoint e coins) hash base))"
| "AddCoin _ outpoint coin possible_overwrite = None"

fun SpendCoin :: "CCoinsView \<Rightarrow> COutPoint \<Rightarrow> Coin \<Rightarrow> (bool \<times> Coin \<times> CCoinsView) option" where
  "SpendCoin (CCoinsViewCache coins hash base) outpoint moveout =
     (let (it, coins, base) = FetchCoin coins base outpoint
      in Some (case it of
           None \<Rightarrow> (False, moveout, CCoinsViewCache coins hash base)
         | Some e \<Rightarrow>
             let coins = (if flags e AND FRESH \<noteq> 0 then AList.delete outpoint coins
                          else AList.update outpoint (e\<lparr>flags := flags e OR DIRTY, cached := Coin_Clear (cached e)\<rparr>) coins)
             in (True, cached e, CCoinsViewCache coins hash base)))"
| "SpendCoin _ outpoint moveout = None"

fun AccessCoin :: "CCoinsView \<Rightarrow> COutPoint \<Rightarrow> (Coin \<times> CCoinsView) option" where
  "AccessCoin (CCoinsViewCache coins hash base) outpoint =
     (let (it, coins, base) = FetchCoin coins base outpoint
      in Some ((case it of None \<Rightarrow> coinEmpty | Some e \<Rightarrow> cached e), CCoinsViewCache coins hash base))"
| "AccessCoin _ outpoint = None"

fun HaveCoinInCache :: "CCoinsView \<Rightarrow> COutPoint \<Rightarrow> bool option" where
  "HaveCoinInCache (CCoinsViewCache coins hash base) outpoint =
     Some (case map_of coins outpoint of None \<Rightarrow> False | Some e \<Rightarrow> \<not> IsSpent (cached e))"
| "HaveCoinInCache _ outpoint = None"

fun SetBestBlock :: "CCoinsView \<Rightarrow> uint256 \<Rightarrow> CCoinsView option" where
  "SetBestBlock (CCoinsViewCache coins hash base) hashBlockIn = Some (CCoinsViewCache coins hashBlockIn base)"
| "SetBestBlock _ hashBlockIn = None"

fun Flush :: "CCoinsView \<Rightarrow> (bool \<times> CCoinsView) option" where
  "Flush (CCoinsViewCache coins hash base) =
     do { (fOk, base) \<leftarrow> BatchWrite base coins hash; Some (fOk, CCoinsViewCache [] hash base) }"
| "Flush _ = None"

fun Uncache :: "CCoinsView \<Rightarrow> COutPoint \<Rightarrow> CCoinsView option" where
  "Uncache (CCoinsViewCache coins hash base) outpoint =
     Some (case map_of coins outpoint of
             None \<Rightarrow> CCoinsViewCache coins hash base
           | Some e \<Rightarrow> if flags e = 0 then CCoinsViewCache (AList.delete outpoint coins) hash base
                       else CCoinsViewCache coins hash base)"
| "Uncache _ outpoint = None"

section \<open>The set of unspent outputs behind a view\<close>

type_synonym utxos = "COutPoint \<Rightarrow> Coin option"

definition visible :: "CCoinsCacheEntry \<Rightarrow> Coin option" where
  "visible e = (if IsSpent (cached e) then None else Some (cached e))"

primrec utxo :: "CCoinsView \<Rightarrow> utxos" where
  "utxo CCoinsView = Map.empty"
| "utxo (CCoinsViewBacked base) = utxo base"
| "utxo (CCoinsViewDB db) = db_coins db"
| "utxo (CCoinsViewCache coins hash base) = (\<lambda>p. case map_of coins p of None \<Rightarrow> utxo base p | Some e \<Rightarrow> visible e)"

text \<open>
  What the flags promise of an entry, over what the view below shows: a fresh entry is unspent nowhere below, and an entry that
  is not dirty agrees with it.
\<close>

definition flags_ok :: "Coin option \<Rightarrow> CCoinsCacheEntry \<Rightarrow> bool" where
  "flags_ok below e \<longleftrightarrow> (flags e AND FRESH \<noteq> 0 \<longrightarrow> below = None) \<and> (flags e AND DIRTY = 0 \<longrightarrow> visible e = below)
     \<and> (IsSpent (cached e) \<longrightarrow> cached e = coinEmpty)"

definition entries_ok :: "utxos \<Rightarrow> CCoinsMap \<Rightarrow> bool" where
  "entries_ok below coins \<longleftrightarrow> distinct (map fst coins) \<and> (\<forall>p e. map_of coins p = Some e \<longrightarrow> flags_ok (below p) e)"

primrec view_ok :: "CCoinsView \<Rightarrow> bool" where
  "view_ok CCoinsView \<longleftrightarrow> True"
| "view_ok (CCoinsViewBacked base) \<longleftrightarrow> view_ok base"
| "view_ok (CCoinsViewDB db) \<longleftrightarrow> (\<forall>p c. db_coins db p = Some c \<longrightarrow> \<not> IsSpent c)"
| "view_ok (CCoinsViewCache coins hash base) \<longleftrightarrow> view_ok base \<and> entries_ok (utxo base) coins"

text \<open>The sets of unspent outputs of a stack of caches, from the top, and whether there is a store below that can be written.\<close>

primrec layers :: "CCoinsView \<Rightarrow> utxos list" where
  "layers CCoinsView = [utxo CCoinsView]"
| "layers (CCoinsViewBacked base) = [utxo base]"
| "layers (CCoinsViewDB db) = [utxo (CCoinsViewDB db)]"
| "layers (CCoinsViewCache coins hash base) = utxo (CCoinsViewCache coins hash base) # layers base"

primrec stored :: "CCoinsView \<Rightarrow> bool" where
  "stored CCoinsView \<longleftrightarrow> False"
| "stored (CCoinsViewBacked base) \<longleftrightarrow> stored base"
| "stored (CCoinsViewDB db) \<longleftrightarrow> db_writable db"
| "stored (CCoinsViewCache coins hash base) \<longleftrightarrow> stored base"

lemma layers_utxo: "layers v = utxo v # tl (layers v)"
  by (cases v) simp_all

lemma flag_bits:
  fixes f :: byte
  shows "(f OR DIRTY) AND DIRTY \<noteq> 0" and "(f OR DIRTY) AND FRESH = f AND FRESH"
    and "(f OR (DIRTY OR FRESH)) AND DIRTY \<noteq> 0" and "(0 :: byte) AND DIRTY = 0" and "FRESH AND DIRTY = (0 :: byte)"
proof -
  have a: "(DIRTY :: byte) AND FRESH = 0" "FRESH AND DIRTY = (0 :: byte)" "DIRTY AND DIRTY = (1 :: byte)" by simp_all
  have one: "x OR 1 \<noteq> (0 :: byte)" for x 
  proof
    assume "x OR 1 = 0"
    then have "bit (x OR 1) 0 = bit (0 :: byte) 0" by simp
    then show False by (simp add: bit_or_iff)
  qed
  show "(f OR DIRTY) AND DIRTY \<noteq> 0" using one by (simp add: bit.conj_disj_distrib2)
  show "(f OR DIRTY) AND FRESH = f AND FRESH" by (simp add: bit.conj_disj_distrib2)
  show "(f OR (DIRTY OR FRESH)) AND DIRTY \<noteq> 0" using one by (simp add: bit.conj_disj_distrib2)
  show "(0 :: byte) AND DIRTY = 0" "FRESH AND DIRTY = (0 :: byte)" by simp_all
qed

lemma Coin_Clear_eq [simp]: "Coin_Clear c = coinEmpty"
  by (simp add: Coin_Clear_def coinEmpty_def)

lemma IsSpent_empty [simp]: "IsSpent coinEmpty"
  by (simp add: IsSpent_def coinEmpty_def CTxOut_IsNull_def CTxOut_null_def)

lemma view_ok_unspent: "view_ok v \<Longrightarrow> utxo v p = Some c \<Longrightarrow> \<not> IsSpent c"
  by (induction v) (auto simp: visible_def split: option.splits if_splits)

lemma entries_ok_update:
  "entries_ok below coins \<Longrightarrow> flags_ok (below p) e \<Longrightarrow> entries_ok below (AList.update p e coins)"
  by (auto simp: entries_ok_def update_conv' distinct_update)

lemma entries_ok_delete: "entries_ok below coins \<Longrightarrow> entries_ok below (AList.delete p coins)"
  by (auto simp: entries_ok_def delete_conv' distinct_delete split: if_splits)

section \<open>Reading\<close>

declare FetchCoin.simps [simp del]

lemma read_keeps:
  "view_ok v \<Longrightarrow> GetCoin v p c = (r, c', v') \<Longrightarrow>
     view_ok v' \<and> layers v' = layers v \<and> stored v' = stored v \<and> (if r then utxo v p = Some c' else utxo v p = None)"
  "view_ok base \<Longrightarrow> entries_ok (utxo base) coins \<Longrightarrow> FetchCoin coins base p = (it, coins', base') \<Longrightarrow>
     view_ok base' \<and> entries_ok (utxo base') coins' \<and> layers base' = layers base \<and> stored base' = stored base
     \<and> utxo (CCoinsViewCache coins' h base') = utxo (CCoinsViewCache coins h base) \<and> map_of coins' p = it
     \<and> utxo (CCoinsViewCache coins h base) p = (case it of None \<Rightarrow> None | Some e \<Rightarrow> visible e)"
proof (induction v p c and coins base p arbitrary: r c' v' and it coins' base' rule: GetCoin_FetchCoin.induct)
  case (2 base p c)
  then show ?case by (auto split: prod.splits) (metis layers_utxo list.inject)+
next
  case (4 coins hash base p c)
  obtain it cs b where f: "FetchCoin coins base p = (it, cs, b)" by (cases "FetchCoin coins base p")
  have ok: "view_ok base" "entries_ok (utxo base) coins" using 4(2) by simp_all
  note k = 4(1) [OF ok f]
  show ?case using 4(3) f k by (cases it) (auto simp: visible_def)
next
  case (5 coins base p)
  show ?case
  proof (cases "map_of coins p")
    case (Some e)
    then show ?thesis using 5(2-) by (auto simp: FetchCoin.simps split: option.splits)
  next
    case None
    obtain r t b where g: "GetCoin base p coinEmpty = (r, t, b)" by (cases "GetCoin base p coinEmpty")
    note k = 5(1) [OF None 5(2) g]
    have u: "utxo b = utxo base" using k layers_utxo by (metis list.inject)
    show ?thesis
    proof (cases r)
      case False
      then show ?thesis using 5(3,4) None g k u by (auto simp: FetchCoin.simps fun_eq_iff split: option.splits)
    next
      case True
      define e where "e = \<lparr>cached = t, flags = 0\<rparr>"
      have t: "utxo base p = Some t" "\<not> IsSpent t" using k True view_ok_unspent [OF 5(2)] by auto
      have f: "FetchCoin coins base p = (Some e, AList.update p e coins, b)"
        using None g True t(2) by (simp add: FetchCoin.simps CCoinsCacheEntry_of_def e_def Let_def)
      have "flags_ok (utxo base p) e" using t by (simp add: flags_ok_def e_def visible_def)
      then have "entries_ok (utxo b) (AList.update p e coins)" using 5(3) by (simp add: u entries_ok_update)
      moreover have "utxo (CCoinsViewCache (AList.update p e coins) h b) = utxo (CCoinsViewCache coins h base)"
        using None t by (auto simp: u update_conv' e_def visible_def fun_eq_iff split: option.splits)
      moreover have "utxo (CCoinsViewCache coins h base) p = visible e" using None t by (simp add: e_def visible_def)
      moreover have "it = Some e" "coins' = AList.update p e coins" "base' = b" using 5(4) f by simp_all
      ultimately show ?thesis using k by (simp del: utxo.simps add: update_conv')
    qed
  qed
qed (auto split: option.splits)

lemma FetchCoin_cases:
  assumes "view_ok (CCoinsViewCache coins h base)"
  obtains it coins' base' where "FetchCoin coins base p = (it, coins', base')" and "view_ok (CCoinsViewCache coins' h base')"
    and "layers base' = layers base" and "stored base' = stored base"
    and "utxo (CCoinsViewCache coins' h base') = utxo (CCoinsViewCache coins h base)" and "map_of coins' p = it"
    and "utxo (CCoinsViewCache coins h base) p = (case it of None \<Rightarrow> None | Some e \<Rightarrow> visible e)"
proof -
  obtain it coins' base' where f: "FetchCoin coins base p = (it, coins', base')" by (cases "FetchCoin coins base p")
  show thesis by (rule that [OF f]) (use read_keeps(2) [OF _ _ f, of h] assms in simp_all)
qed

lemma utxo_layers: "layers v' = layers v \<Longrightarrow> utxo v' = utxo v"
  by (metis layers_utxo list.inject)

lemma HaveCoin_keeps:
  "view_ok v \<Longrightarrow> HaveCoin v p = (r, v') \<Longrightarrow>
     view_ok v' \<and> layers v' = layers v \<and> stored v' = stored v \<and> r = (utxo v p \<noteq> None)"
proof (induction v arbitrary: r v')
  case (CCoinsViewBacked base)
  then show ?case by (auto split: prod.splits dest: utxo_layers)
next
  case (CCoinsViewCache coins h base)
  from FetchCoin_cases [OF CCoinsViewCache(2), of p] obtain it cs b where f: "FetchCoin coins base p = (it, cs, b)"
      "view_ok (CCoinsViewCache cs h b)" "layers b = layers base" "stored b = stored base"
      "utxo (CCoinsViewCache cs h b) = utxo (CCoinsViewCache coins h base)"
      "utxo (CCoinsViewCache coins h base) p = (case it of None \<Rightarrow> None | Some e \<Rightarrow> visible e)" by blast
  have v': "v' = CCoinsViewCache cs h b" and r: "r = (case it of None \<Rightarrow> False | Some e \<Rightarrow> \<not> IsSpent (cached e))"
    using CCoinsViewCache(3) f(1) by simp_all
  have "r = (utxo (CCoinsViewCache coins h base) p \<noteq> None)" unfolding r f(6) by (simp add: visible_def split: option.split)
  then show ?case using f(2-5) by (simp only: v' layers.simps stored.simps)
qed auto

lemma map_upd_triv': "m p = None \<Longrightarrow> m(p := None) = m"
  by (rule fun_upd_idem)

section \<open>Writing\<close>

lemma AddCoin_adds:
  assumes "view_ok v" and "AddCoin v p coin ow = Some v'" and "\<not> ow \<Longrightarrow> utxo v p = None"
  shows "view_ok v' \<and> stored v' = stored v
    \<and> layers v' = (if IsUnspendable (scriptPubKey (coin_out coin)) then utxo v else (utxo v)(p \<mapsto> coin)) # tl (layers v)"
proof -
  obtain coins h base where v: "v = CCoinsViewCache coins h base" using assms(2) by (cases v) auto
  show ?thesis
  proof (cases "IsUnspendable (scriptPubKey (coin_out coin))")
    case True
    then show ?thesis using assms(1,2) unfolding v by (auto split: if_splits)
  next
    case False
    define it where "it = (case map_of coins p of None \<Rightarrow> CCoinsCacheEntry_of coinEmpty | Some e \<Rightarrow> e)"
    define fresh where "fresh = (\<not> ow \<and> flags it AND DIRTY = 0)"
    define e where "e = \<lparr>cached = coin, flags = flags it OR (DIRTY OR (if fresh then FRESH else 0))\<rparr>"
    have c: "\<not> IsSpent coin" and v': "v' = CCoinsViewCache (AList.update p e coins) h base"
      using assms(2) False unfolding v by (auto simp: it_def [symmetric] e_def fresh_def Let_def split: if_splits)
    have below: "utxo base p = None" if "flags e AND FRESH \<noteq> 0"
    proof (cases fresh)
      case True
      then show ?thesis using assms(1,3) unfolding v fresh_def it_def
        by (auto simp: entries_ok_def flags_ok_def split: option.splits)
    next
      case False
      then have "flags it AND FRESH \<noteq> 0" using that by (simp add: e_def flag_bits)
      then show ?thesis using assms(1) unfolding v it_def
        by (auto simp: entries_ok_def flags_ok_def CCoinsCacheEntry_of_def split: option.splits)
    qed
    have "flags e AND DIRTY \<noteq> 0" unfolding e_def using flag_bits(1,3) by simp
    then have "flags_ok (utxo base p) e" using below c by (auto simp: flags_ok_def e_def)
    moreover have "utxo v' = (utxo v)(p \<mapsto> coin)" using c by (auto simp: v v' update_conv' e_def visible_def fun_eq_iff)
    ultimately show ?thesis using assms(1) False unfolding v v' by (simp add: entries_ok_update)
  qed
qed

lemma AddCoin_succeeds:
  assumes "view_ok v" and "v = CCoinsViewCache coins h base" and "\<not> IsSpent coin" and "\<not> ow \<Longrightarrow> utxo v p = None"
  shows "\<exists>v'. AddCoin v p coin ow = Some v'"
  using assms by (auto simp: Let_def visible_def CCoinsCacheEntry_of_def split: option.splits if_splits)

lemma SpendCoin_spends:
  assumes "view_ok v" and "v = CCoinsViewCache coins h base"
  shows "\<exists>r c coins' base'. SpendCoin v p moveout = Some (r, c, CCoinsViewCache coins' h base')
    \<and> view_ok (CCoinsViewCache coins' h base') \<and> stored base' = stored base \<and> layers base' = layers base
    \<and> utxo (CCoinsViewCache coins' h base') = (utxo v)(p := None)
    \<and> (case utxo v p of Some d \<Rightarrow> r \<and> c = d | None \<Rightarrow> r \<longrightarrow> c = coinEmpty)"
proof -
  obtain it cs b where f: "FetchCoin coins base p = (it, cs, b)" "view_ok (CCoinsViewCache cs h b)" "layers b = layers base"
      "stored b = stored base" "utxo (CCoinsViewCache cs h b) = utxo v" "map_of cs p = it"
      "utxo v p = (case it of None \<Rightarrow> None | Some e \<Rightarrow> visible e)"
    using FetchCoin_cases [OF assms(1) [unfolded assms(2)], of p] unfolding assms(2) by blast
  show ?thesis
  proof (cases it)
    case None
    have "SpendCoin v p moveout = Some (False, moveout, CCoinsViewCache cs h b)" using f(1) None by (simp add: assms(2))
    moreover have "utxo v p = None" using f(7) None by simp
    moreover from this have "(utxo v)(p := None) = utxo v" by (rule map_upd_triv')
    ultimately show ?thesis using f(2-5) by auto
  next
    case (Some e)
    define cs' where "cs' = (if flags e AND FRESH \<noteq> 0 then AList.delete p cs
        else AList.update p (e\<lparr>flags := flags e OR DIRTY, cached := coinEmpty\<rparr>) cs)"
    have ok: "flags_ok (utxo b p) e" using f(2,6) Some by (simp add: entries_ok_def)
    have s: "SpendCoin v p moveout = Some (True, cached e, CCoinsViewCache cs' h b)"
      using f(1) Some assms(2) by (simp add: cs'_def)
    have u: "utxo (CCoinsViewCache cs' h b) = (utxo v)(p := None)"
      using ok unfolding f(5) [symmetric] by (auto simp: cs'_def flags_ok_def update_conv' delete_conv' visible_def fun_eq_iff split: option.splits)
    have ok': "flags_ok (utxo b p) (e\<lparr>flags := flags e OR DIRTY, cached := coinEmpty\<rparr>)" if "flags e AND FRESH = 0"
      using that by (simp add: flags_ok_def flag_bits)
    have "view_ok (CCoinsViewCache cs' h b)"
      using f(2) ok' by (auto simp: cs'_def intro!: entries_ok_update entries_ok_delete)
    moreover have "case utxo v p of Some d \<Rightarrow> True \<and> cached e = d | None \<Rightarrow> True \<longrightarrow> cached e = coinEmpty"
      using f(7) Some ok by (simp add: visible_def flags_ok_def)
    ultimately show ?thesis using s u f(3,4) by blast
  qed
qed

lemma Uncache_keeps:
  assumes "view_ok v" and "Uncache v p = Some v'"
  shows "view_ok v' \<and> stored v' = stored v \<and> layers v' = layers v"
proof -
  obtain coins h base where v: "v = CCoinsViewCache coins h base" using assms(2) by (cases v) auto
  show ?thesis
  proof (cases "\<exists>e. map_of coins p = Some e \<and> flags e = 0")
    case True
    then obtain e where e: "map_of coins p = Some e" "flags e = 0" by blast
    then have "visible e = utxo base p" using assms(1) unfolding v by (auto simp: entries_ok_def flags_ok_def)
    then have "utxo (CCoinsViewCache (AList.delete p coins) h base) = utxo v"
      using e(1) by (auto simp: v delete_conv' fun_eq_iff split: option.splits)
    then show ?thesis using assms e unfolding v by (auto simp: entries_ok_delete)
  next
    case False
    then show ?thesis using assms unfolding v by (auto split: option.splits if_splits)
  qed
qed

definition overlay :: "utxos \<Rightarrow> CCoinsMap \<Rightarrow> utxos" where
  "overlay below coins = (\<lambda>p. case map_of coins p of None \<Rightarrow> below p | Some e \<Rightarrow> visible e)"

lemma utxo_overlay: "utxo (CCoinsViewCache coins h base) = overlay (utxo base) coins"
  by (simp add: overlay_def)

lemma overlay_Nil [simp]: "overlay below [] = below"
  by (simp add: overlay_def)

lemma overlay_Cons:
  assumes "entries_ok below ((p, e) # coins)"
  shows "overlay below ((p, e) # coins) = overlay (below(p := visible e)) coins"
proof -
  have "map_of coins p = None" using assms by (auto simp: entries_ok_def map_of_eq_None_iff)
  then show ?thesis by (auto simp: overlay_def fun_eq_iff split: option.splits)
qed

lemma entries_ok_Cons:
  assumes "entries_ok below ((p, e) # coins)"
  shows "flags_ok (below p) e" and "entries_ok (below(p := x)) coins"
proof -
  have d: "distinct (map fst coins)" "p \<notin> fst ` set coins" "\<And>q d. map_of ((p, e) # coins) q = Some d \<Longrightarrow> flags_ok (below q) d"
    using assms by (auto simp: entries_ok_def)
  then show "flags_ok (below p) e" by simp
  have "q \<noteq> p" if "map_of coins q = Some d" for q d using that d(2) by (metis fst_conv image_eqI map_of_SomeD)
  then show "entries_ok (below(p := x)) coins" using d by (auto simp: entries_ok_def)
qed

lemma db_write_overlay: "entries_ok m coins \<Longrightarrow> db_write m coins = overlay m coins"
proof (induction coins arbitrary: m)
  case (Cons a coins)
  obtain p e where a: "a = (p, e)" by (cases a)
  have f: "flags_ok (m p) e" and ok: "entries_ok (m(p := visible e)) coins" using entries_ok_Cons Cons.prems unfolding a by blast+
  have "m(p := visible e) = (if flags e AND DIRTY \<noteq> 0 then if IsSpent (cached e) then m(p := None) else m(p \<mapsto> cached e) else m)"
    using f by (auto simp: flags_ok_def visible_def)
  then show ?case using Cons.IH [OF ok] overlay_Cons Cons.prems unfolding a by simp
qed simp

lemma merge_entry_ok:
  assumes "entries_ok below coins" and "flags_ok (overlay below coins p) e"
  shows "\<exists>coins'. merge_entry coins p e = Some coins' \<and> entries_ok below coins' \<and> overlay below coins' = (overlay below coins)(p := visible e)"
proof (cases "flags e AND DIRTY = 0")
  case True
  then have "(overlay below coins)(p := visible e) = overlay below coins" using assms(2) by (auto simp: flags_ok_def)
  then show ?thesis using True assms(1) by (simp add: merge_entry_def)
next
  case dirty: False
  have upd: "overlay below (AList.update p d coins) = (overlay below coins)(p := visible d)" for d
    by (auto simp: overlay_def update_conv' fun_eq_iff)
  show ?thesis
  proof (cases "map_of coins p")
    case None
    then have o: "overlay below coins p = below p" by (simp add: overlay_def)
    show ?thesis
    proof (cases "flags e AND FRESH \<noteq> 0 \<and> IsSpent (cached e)")
      case True
      then have "(overlay below coins)(p := visible e) = overlay below coins" using assms(2) o by (auto simp: flags_ok_def visible_def)
      then show ?thesis using True None dirty assms(1) by (simp add: merge_entry_def)
    next
      case False
      define d where "d = \<lparr>cached = cached e, flags = (if flags e AND FRESH \<noteq> 0 then DIRTY OR FRESH else DIRTY)\<rparr>"
      have "flags_ok (below p) d" using assms(2) o by (auto simp: flags_ok_def d_def)
      then have "entries_ok below (AList.update p d coins)" by (rule entries_ok_update [OF assms(1)])
      moreover have "merge_entry coins p e = Some (AList.update p d coins)" using False None dirty by (auto simp: merge_entry_def d_def)
      moreover have "visible d = visible e" by (simp add: d_def visible_def)
      ultimately show ?thesis using upd by simp
    qed
  next
    case (Some us)
    then have o: "overlay below coins p = visible us" by (simp add: overlay_def)
    have us: "flags_ok (below p) us" using assms(1) Some by (simp add: entries_ok_def)
    have ok: "\<not> (flags e AND FRESH \<noteq> 0 \<and> \<not> IsSpent (cached us))" using assms(2) o by (auto simp: flags_ok_def visible_def)
    show ?thesis
    proof (cases "flags us AND FRESH \<noteq> 0 \<and> IsSpent (cached e)")
      case True
      then have "below p = None" "visible e = None" using us by (auto simp: flags_ok_def visible_def)
      then have "overlay below (AList.delete p coins) = (overlay below coins)(p := visible e)"
        by (auto simp: overlay_def delete_conv' fun_eq_iff)
      then show ?thesis using True Some dirty ok entries_ok_delete [OF assms(1)] by (auto simp: merge_entry_def)
    next
      case False
      define d where "d = us\<lparr>cached := cached e, flags := flags us OR DIRTY\<rparr>"
      have "flags_ok (below p) d" using us assms(2) False by (auto simp: flags_ok_def d_def flag_bits)
      then have "entries_ok below (AList.update p d coins)" by (rule entries_ok_update [OF assms(1)])
      moreover have "merge_entry coins p e = Some (AList.update p d coins)" using False Some dirty ok by (auto simp: merge_entry_def d_def)
      moreover have "visible d = visible e" by (simp add: d_def visible_def)
      ultimately show ?thesis using upd by simp
    qed
  qed
qed

lemma merge_loop_ok:
  "entries_ok below coins \<Longrightarrow> entries_ok (overlay below coins) mc \<Longrightarrow>
    \<exists>coins'. merge_loop coins mc = Some coins' \<and> entries_ok below coins' \<and> overlay below coins' = overlay (overlay below coins) mc"
proof (induction mc arbitrary: coins)
  case (Cons a mc)
  obtain p e where a: "a = (p, e)" by (cases a)
  have "flags_ok (overlay below coins p) e" using entries_ok_Cons(1) [of "overlay below coins" p e mc] Cons.prems(2) unfolding a by blast
  from merge_entry_ok [OF Cons.prems(1) this] obtain c where c: "merge_entry coins p e = Some c" "entries_ok below c"
    "overlay below c = (overlay below coins)(p := visible e)" by blast
  have "entries_ok (overlay below c) mc" using entries_ok_Cons(2) Cons.prems(2) unfolding a c(3) by blast
  moreover have "overlay (overlay below coins) (a # mc) = overlay (overlay below c) mc"
    using overlay_Cons Cons.prems(2) unfolding a c(3) by blast
  ultimately show ?case using Cons.IH [OF c(2)] c(1) by (simp only: a merge_loop.simps Option.bind.bind_lunit)
qed simp

lemma BatchWrite_merges:
  "view_ok v \<Longrightarrow> stored v \<Longrightarrow> entries_ok (utxo v) mc \<Longrightarrow>
    \<exists>v'. BatchWrite v mc h = Some (True, v') \<and> view_ok v' \<and> stored v' \<and> layers v' = overlay (utxo v) mc # tl (layers v)"
proof (induction v)
  case (CCoinsViewBacked base)
  then obtain b where "BatchWrite base mc h = Some (True, b)" "view_ok b" "stored b" "layers b = overlay (utxo base) mc # tl (layers base)"
    by auto
  moreover from this(4) have "utxo b = overlay (utxo base) mc" by (metis layers_utxo list.inject)
  ultimately show ?case by auto
next
  case (CCoinsViewDB db)
  have "\<not> IsSpent c" if "overlay (db_coins db) mc p = Some c" for p c
    using that CCoinsViewDB.prems(1) by (auto simp: overlay_def visible_def split: option.splits if_splits)
  then show ?case using CCoinsViewDB.prems by (simp add: db_write_overlay)
next
  case (CCoinsViewCache coins hash base)
  have ok: "entries_ok (utxo base) coins" and mc: "entries_ok (overlay (utxo base) coins) mc"
    using CCoinsViewCache.prems by (simp_all add: overlay_def)
  obtain c where c: "merge_loop coins mc = Some c" "entries_ok (utxo base) c" "overlay (utxo base) c = overlay (overlay (utxo base) coins) mc"
    using merge_loop_ok [OF ok mc] by blast
  have "layers (CCoinsViewCache c h base) = overlay (overlay (utxo base) coins) mc # layers base"
    by (simp only: layers.simps utxo_overlay c(3))
  then show ?case using c CCoinsViewCache.prems by (simp del: layers.simps utxo.simps add: utxo_overlay) (simp add: overlay_def)
qed simp

lemma Flush_writes:
  assumes "view_ok v" and "v = CCoinsViewCache coins h base" and "stored v"
  shows "\<exists>base'. Flush v = Some (True, CCoinsViewCache [] h base') \<and> view_ok base' \<and> stored base' \<and> layers base' = utxo v # tl (layers base)"
proof -
  have "entries_ok (utxo base) coins" "view_ok base" "stored base" using assms by simp_all
  from BatchWrite_merges [OF this(2,3,1), of h] show ?thesis by (auto simp: assms(2) overlay_def)
qed

section \<open>Sequences of operations\<close>

text \<open>
  A forward simulation: an abstract machine that may be stuck, and a concrete one that follows each of its steps with the same
  result.
\<close>

fun run_ops :: "('o \<Rightarrow> 's \<Rightarrow> ('r \<times> 's) option) \<Rightarrow> 'o list \<Rightarrow> 's \<Rightarrow> ('r list \<times> 's) option" where
  "run_ops step [] s = Some ([], s)"
| "run_ops step (x # xs) s = do { (r, s) \<leftarrow> step x s; (rs, s) \<leftarrow> run_ops step xs s; Some (r # rs, s) }"

locale forward_simulation =
  fixes astep :: "'o \<Rightarrow> 'a \<Rightarrow> ('r \<times> 'a) option" and cstep :: "'o \<Rightarrow> 'c \<Rightarrow> ('r \<times> 'c) option"
    and absf :: "'c \<Rightarrow> 'a" and inv :: "'c \<Rightarrow> bool"
  assumes step_simulates: "inv c \<Longrightarrow> astep x (absf c) = Some (r, a') \<Longrightarrow> \<exists>c'. cstep x c = Some (r, c') \<and> inv c' \<and> absf c' = a'"
begin

lemma run_simulates:
  "inv c \<Longrightarrow> run_ops astep xs (absf c) = Some (rs, a') \<Longrightarrow> \<exists>c'. run_ops cstep xs c = Some (rs, c') \<and> inv c' \<and> absf c' = a'"
proof (induction xs arbitrary: c rs)
  case (Cons x xs)
  obtain r a rs' where a: "astep x (absf c) = Some (r, a)" "run_ops astep xs a = Some (rs', a')" "rs = r # rs'"
    using Cons.prems(2) by (auto simp: bind_eq_Some_conv)
  obtain c1 where c1: "cstep x c = Some (r, c1)" "inv c1" "absf c1 = a" using step_simulates [OF Cons.prems(1) a(1)] by blast
  obtain c2 where "run_ops cstep xs c1 = Some (rs', c2)" "inv c2" "absf c2 = a'" using Cons.IH [OF c1(2)] a(2) c1(3) by blast
  then show ?case using c1(1) a(3) by auto
qed simp

end

text \<open>
  What a program does with a stack of caches: open a cache on top, read, change and flush the top, give it up, or flush it and
  give it up. The results are the coins that are found.
\<close>

datatype coins_op =
  OpGet COutPoint
| OpHave COutPoint
| OpAccess COutPoint
| OpAdd COutPoint Coin bool
| OpSpend COutPoint
| OpUncache COutPoint
| OpBegin
| OpFlush
| OpCommit
| OpAbort

definition found :: "bool \<Rightarrow> Coin \<Rightarrow> Coin option" where
  "found r c = (if r \<and> \<not> IsSpent c then Some c else None)"

fun coins_step :: "coins_op \<Rightarrow> CCoinsView \<Rightarrow> (Coin option \<times> CCoinsView) option" where
  "coins_step (OpGet p) v = (let (r, c, v) = GetCoin v p coinEmpty in Some (found r c, v))"
| "coins_step (OpHave p) v = (let (r, v) = HaveCoin v p in Some (if r then Some coinEmpty else None, v))"
| "coins_step (OpAccess p) v = do { (c, v) \<leftarrow> AccessCoin v p; Some (found True c, v) }"
| "coins_step (OpAdd p c ow) v = do { v \<leftarrow> AddCoin v p c ow; Some (None, v) }"
| "coins_step (OpSpend p) v = do { (r, c, v) \<leftarrow> SpendCoin v p coinEmpty; Some (found r c, v) }"
| "coins_step (OpUncache p) v = do { v \<leftarrow> Uncache v p; Some (None, v) }"
| "coins_step OpBegin v = Some (None, new_cache v)"
| "coins_step OpFlush v = do { (ok, v) \<leftarrow> Flush v; if ok then Some (None, v) else None }"
| "coins_step OpCommit v =
     do { (ok, v) \<leftarrow> Flush v;
          case v of CCoinsViewCache coins h base \<Rightarrow> if ok then Some (None, base) else None | _ \<Rightarrow> None }"
| "coins_step OpAbort v = (case v of CCoinsViewCache coins h base \<Rightarrow> Some (None, base) | _ \<Rightarrow> None)"

text \<open>
  The specification: a stack of sets of unspent outputs. A coin that may be in the set is added only with the permission to
  overwrite it, and the outputs that cannot be spent are not kept.
\<close>

fun utxo_step :: "coins_op \<Rightarrow> utxos list \<Rightarrow> (Coin option \<times> utxos list) option" where
  "utxo_step (OpGet p) (u # us) = Some (u p, u # us)"
| "utxo_step (OpHave p) (u # us) = Some (if u p = None then None else Some coinEmpty, u # us)"
| "utxo_step (OpAccess p) (u # w # us) = Some (u p, u # w # us)"
| "utxo_step (OpAdd p c ow) (u # w # us) =
     (if IsSpent c \<or> \<not> ow \<and> u p \<noteq> None then None
      else Some (None, (if IsUnspendable (scriptPubKey (coin_out c)) then u else u(p \<mapsto> c)) # w # us))"
| "utxo_step (OpSpend p) (u # w # us) = Some (u p, u(p := None) # w # us)"
| "utxo_step (OpUncache p) (u # w # us) = Some (None, u # w # us)"
| "utxo_step OpBegin (u # us) = Some (None, u # u # us)"
| "utxo_step OpFlush (u # w # us) = Some (None, u # u # us)"
| "utxo_step OpCommit (u # w # us) = Some (None, u # us)"
| "utxo_step OpAbort (u # w # us) = Some (None, w # us)"
| "utxo_step _ us = None"

lemma two_layers:
  assumes "layers v = u # w # us"
  obtains coins h base where "v = CCoinsViewCache coins h base" and "u = utxo v" and "layers base = w # us" and "w = utxo base"
  using assms layers_utxo by (cases v) (auto, metis list.inject)

lemma top_layer: "layers v = u # us \<Longrightarrow> u = utxo v"
  by (metis layers_utxo list.inject)

lemma AccessCoin_reads:
  assumes "view_ok v" and "v = CCoinsViewCache coins h base"
  shows "\<exists>c coins' base'. AccessCoin v p = Some (c, CCoinsViewCache coins' h base') \<and> view_ok (CCoinsViewCache coins' h base')
    \<and> stored base' = stored base \<and> layers (CCoinsViewCache coins' h base') = layers v
    \<and> c = (case utxo v p of None \<Rightarrow> coinEmpty | Some d \<Rightarrow> d)"
proof -
  obtain it cs b where f: "FetchCoin coins base p = (it, cs, b)" "view_ok (CCoinsViewCache cs h b)" "layers b = layers base"
      "stored b = stored base" "utxo (CCoinsViewCache cs h b) = utxo v" "map_of cs p = it"
      "utxo v p = (case it of None \<Rightarrow> None | Some e \<Rightarrow> visible e)"
    using FetchCoin_cases [OF assms(1) [unfolded assms(2)], of p] unfolding assms(2) by blast
  have "(case it of None \<Rightarrow> coinEmpty | Some e \<Rightarrow> cached e) = (case utxo v p of None \<Rightarrow> coinEmpty | Some d \<Rightarrow> d)"
    using f(2,6,7) by (auto simp: visible_def entries_ok_def flags_ok_def split: option.splits)
  moreover have "layers (CCoinsViewCache cs h b) = layers v" using f(3,5) by (simp only: layers.simps assms(2))
  ultimately show ?thesis using f(1,2,4) by (simp add: assms(2) del: utxo.simps layers.simps)
qed

lemma cache_op:
  assumes "utxo_step x (layers v) = Some y" and "\<And>p. x \<noteq> OpGet p" and "\<And>p. x \<noteq> OpHave p" and "x \<noteq> OpBegin"
  obtains u w us coins h base where "layers v = u # w # us" and "v = CCoinsViewCache coins h base" and "u = utxo v" and "layers base = w # us"
proof -
  obtain u w us where l: "layers v = u # w # us" using assms by (cases "(x, layers v)" rule: utxo_step.cases) auto
  show thesis by (rule two_layers [OF l]) (rule that [OF l])
qed

lemma coins_step_simulates:
  assumes "view_ok v \<and> stored v" and "utxo_step x (layers v) = Some (r, us')"
  shows "\<exists>v'. coins_step x v = Some (r, v') \<and> (view_ok v' \<and> stored v') \<and> layers v' = us'"
proof (cases x)
  case (OpGet p)
  obtain r1 c v1 where g: "GetCoin v p coinEmpty = (r1, c, v1)" by (cases "GetCoin v p coinEmpty")
  note k = read_keeps(1) [OF conjunct1 [OF assms(1)] g]
  have f: "found r1 c = utxo v p" using k view_ok_unspent [OF conjunct1 [OF assms(1)], of p] by (auto simp: found_def split: if_splits)
  obtain us where l: "layers v = utxo v # us" using layers_utxo by blast
  then have "r = utxo v p" "us' = layers v" using assms(2) unfolding OpGet by auto
  then show ?thesis using assms(1) k g f unfolding OpGet by simp
next
  case (OpHave p)
  obtain r1 v1 where g: "HaveCoin v p = (r1, v1)" by (cases "HaveCoin v p")
  note k = HaveCoin_keeps [OF conjunct1 [OF assms(1)] g]
  obtain us where l: "layers v = utxo v # us" using layers_utxo by blast
  show ?thesis using assms k g l unfolding OpHave by (auto split: if_splits)
next
  case (OpAccess p)
  obtain u w us coins h base where l: "layers v = u # w # us" and v: "v = CCoinsViewCache coins h base" "u = utxo v" "layers base = w # us"
    by (rule cache_op [OF assms(2)]) (simp_all add: OpAccess)
  show ?thesis using AccessCoin_reads [OF conjunct1 [OF assms(1)] v(1), of p] assms l v(2) view_ok_unspent [of v p] unfolding OpAccess
    by (auto simp: found_def v(1) split: option.splits)
next
  case (OpAdd p c ow)
  obtain u w us coins h base where l: "layers v = u # w # us" and v: "v = CCoinsViewCache coins h base" "u = utxo v" "layers base = w # us"
    by (rule cache_op [OF assms(2)]) (simp_all add: OpAdd)
  have c: "\<not> IsSpent c" "\<not> ow \<Longrightarrow> utxo v p = None" using assms(2) l v(2) unfolding OpAdd by (auto split: if_splits)
  obtain v' where v': "AddCoin v p c ow = Some v'" using AddCoin_succeeds [OF _ v(1) c] assms(1) by blast
  show ?thesis using AddCoin_adds [OF _ v' c(2)] v' assms l c v(2) unfolding OpAdd by (auto split: if_splits)
next
  case (OpSpend p)
  obtain u w us coins h base where l: "layers v = u # w # us" and v: "v = CCoinsViewCache coins h base" "u = utxo v" "layers base = w # us"
    by (rule cache_op [OF assms(2)]) (simp_all add: OpSpend)
  obtain r1 c cs b where s: "SpendCoin v p coinEmpty = Some (r1, c, CCoinsViewCache cs h b)" "view_ok (CCoinsViewCache cs h b)"
      "stored b = stored base" "layers b = layers base" "utxo (CCoinsViewCache cs h b) = (utxo v)(p := None)"
      "case utxo v p of Some d \<Rightarrow> r1 \<and> c = d | None \<Rightarrow> r1 \<longrightarrow> c = coinEmpty"
    using SpendCoin_spends [OF conjunct1 [OF assms(1)] v(1), of p coinEmpty] by blast
  have "found r1 c = utxo v p" using s(6) view_ok_unspent [OF conjunct1 [OF assms(1)], of p]
    by (auto simp: found_def split: option.splits)
  moreover have "layers (CCoinsViewCache cs h b) = (utxo v)(p := None) # w # us" using s(4,5) v(3) by (simp only: layers.simps)
  ultimately show ?thesis using s(1-3) assms l v(1,2) unfolding OpSpend by auto
next
  case (OpUncache p)
  obtain u w us coins h base where l: "layers v = u # w # us" and v: "v = CCoinsViewCache coins h base" "u = utxo v" "layers base = w # us"
    by (rule cache_op [OF assms(2)]) (simp_all add: OpUncache)
  obtain v' where v': "Uncache v p = Some v'" by (simp add: v)
  show ?thesis using Uncache_keeps [OF _ v'] v' assms l unfolding OpUncache by auto
next
  case OpBegin
  obtain us where l: "layers v = utxo v # us" using layers_utxo by blast
  show ?thesis using assms l unfolding OpBegin by (auto simp: new_cache_def entries_ok_def)
next
  case OpFlush
  obtain u w us coins h base where l: "layers v = u # w # us" and v: "v = CCoinsViewCache coins h base" "u = utxo v" "layers base = w # us"
    by (rule cache_op [OF assms(2)]) (simp_all add: OpFlush)
  obtain b where b: "Flush v = Some (True, CCoinsViewCache [] h b)" "view_ok b" "stored b" "layers b = utxo v # tl (layers base)"
    using Flush_writes [OF _ v(1)] assms(1) by blast
  have "utxo b = utxo v" using b(4) layers_utxo by (metis list.inject)
  then show ?thesis using b assms(2) l v unfolding OpFlush by (auto simp: entries_ok_def)
next
  case OpCommit
  obtain u w us coins h base where l: "layers v = u # w # us" and v: "v = CCoinsViewCache coins h base" "u = utxo v" "layers base = w # us"
    by (rule cache_op [OF assms(2)]) (simp_all add: OpCommit)
  show ?thesis using Flush_writes [OF _ v(1)] assms l v(2,3) unfolding OpCommit by fastforce
next
  case OpAbort
  obtain u w us coins h base where l: "layers v = u # w # us" and v: "v = CCoinsViewCache coins h base" "u = utxo v" "layers base = w # us"
    by (rule cache_op [OF assms(2)]) (simp_all add: OpAbort)
  have "us' = w # us" "r = None" using assms(2) l unfolding OpAbort by simp_all
  then show ?thesis using assms(1) v unfolding OpAbort by simp
qed

interpretation caches: forward_simulation utxo_step coins_step layers "\<lambda>v. view_ok v \<and> stored v"
  by unfold_locales (rule coins_step_simulates)

section \<open>Transactions and coins\<close>

fun add_outputs :: "uint256 \<Rightarrow> nat \<Rightarrow> CTxOut list \<Rightarrow> int \<Rightarrow> bool \<Rightarrow> CCoinsView \<Rightarrow> CCoinsView option" where
  "add_outputs txid i [] nHeight fCoinbase cache = Some cache"
| "add_outputs txid i (out # outs) nHeight fCoinbase cache =
     do { cache \<leftarrow> AddCoin cache \<lparr>out_hash = txid, out_n = word_of_nat i\<rparr> (Coin_of out nHeight fCoinbase) fCoinbase;
          add_outputs txid (i + 1) outs nHeight fCoinbase cache }"

definition AddCoins :: "prune_env \<Rightarrow> CCoinsView \<Rightarrow> CTransaction \<Rightarrow> int \<Rightarrow> CCoinsView option" where
  "AddCoins env cache tx nHeight = add_outputs (ComputeHash fresh_buf env tx) 0 (vout tx) nHeight (IsCoinBase tx) cache"

fun value_in :: "CAmount \<Rightarrow> CTxIn list \<Rightarrow> CCoinsView \<Rightarrow> (CAmount \<times> CCoinsView) option" where
  "value_in nResult [] view = Some (nResult, view)"
| "value_in nResult (txin # ins) view =
     do { (coin, view) \<leftarrow> AccessCoin view (prevout txin);
          value_in (int64 (nResult + nValue (coin_out coin))) ins view }"

definition GetValueIn :: "CCoinsView \<Rightarrow> CTransaction \<Rightarrow> (CAmount \<times> CCoinsView) option" where
  "GetValueIn view tx = (if IsCoinBase tx then Some (0, view) else value_in 0 (vin tx) view)"

fun have_inputs :: "CTxIn list \<Rightarrow> CCoinsView \<Rightarrow> bool \<times> CCoinsView" where
  "have_inputs [] view = (True, view)"
| "have_inputs (txin # ins) view =
     (let (have, view) = HaveCoin view (prevout txin) in if \<not> have then (False, view) else have_inputs ins view)"

definition HaveInputs :: "CCoinsView \<Rightarrow> CTransaction \<Rightarrow> bool \<times> CCoinsView" where
  "HaveInputs view tx = (if IsCoinBase tx then (True, view) else have_inputs (vin tx) view)"

text \<open>\<open>UpdateCoins\<close> with the coins that it appends to the undo data.\<close>

fun spend_inputs :: "CTxIn list \<Rightarrow> CCoinsView \<Rightarrow> Coin list \<Rightarrow> (Coin list \<times> CCoinsView) option" where
  "spend_inputs [] inputs vprevout = Some (vprevout, inputs)"
| "spend_inputs (txin # ins) inputs vprevout =
     do { (is_spent, coin, inputs) \<leftarrow> SpendCoin inputs (prevout txin) coinEmpty;
          if \<not> is_spent then None else spend_inputs ins inputs (vprevout @ [coin]) }"

definition UpdateCoins :: "prune_env \<Rightarrow> CTransaction \<Rightarrow> CCoinsView \<Rightarrow> Coin list \<Rightarrow> int \<Rightarrow> (Coin list \<times> CCoinsView) option" where
  "UpdateCoins env tx inputs vprevout nHeight =
     do { (vprevout, inputs) \<leftarrow> if \<not> IsCoinBase tx then spend_inputs (vin tx) inputs vprevout else Some (vprevout, inputs);
          inputs \<leftarrow> AddCoins env inputs tx nHeight;
          Some (vprevout, inputs) }"

text \<open>Their effect on the set of unspent outputs of a cache.\<close>

definition cache_on :: "CCoinsView \<Rightarrow> utxos \<Rightarrow> utxos list \<Rightarrow> bool" where
  "cache_on v u us \<longleftrightarrow> view_ok v \<and> (\<exists>coins h base. v = CCoinsViewCache coins h base) \<and> layers v = u # us"

lemma cache_onE:
  assumes "cache_on v u us"
  obtains coins h base where "v = CCoinsViewCache coins h base" and "view_ok v" and "u = utxo v" and "layers base = us"
  using assms by (auto simp: cache_on_def)

lemma cache_on_Cache: "view_ok (CCoinsViewCache coins h base) \<Longrightarrow> cache_on (CCoinsViewCache coins h base) (utxo (CCoinsViewCache coins h base)) (layers base)"
  by (simp add: cache_on_def)

lemma cache_AddCoin:
  assumes "cache_on v u us" and "\<not> IsSpent c" and "\<not> ow \<Longrightarrow> u p = None"
  obtains v' where "AddCoin v p c ow = Some v'" and "cache_on v' (if IsUnspendable (scriptPubKey (coin_out c)) then u else u(p \<mapsto> c)) us"
proof -
  obtain coins h base where v: "v = CCoinsViewCache coins h base" "view_ok v" "u = utxo v" "layers base = us" by (rule cache_onE [OF assms(1)])
  obtain v' where v': "AddCoin v p c ow = Some v'" using AddCoin_succeeds [OF v(2,1) assms(2)] assms(3) v(3) by blast
  have "\<exists>coins h base. v' = CCoinsViewCache coins h base" using v' unfolding v(1) by (auto simp: Let_def split: if_splits)
  moreover have "view_ok v'" "layers v' = (if IsUnspendable (scriptPubKey (coin_out c)) then u else u(p \<mapsto> c)) # us"
    using AddCoin_adds [OF v(2) v'] assms(3) v(1,3,4) by simp_all
  ultimately show thesis using v' by (intro that) (auto simp: cache_on_def)
qed

lemma cache_SpendCoin:
  assumes "cache_on v u us"
  obtains r c v' where "SpendCoin v p m = Some (r, c, v')" and "cache_on v' (u(p := None)) us"
    and "\<And>d. u p = Some d \<Longrightarrow> r \<and> c = d" and "u p = None \<Longrightarrow> r \<Longrightarrow> c = coinEmpty"
proof -
  obtain coins h base where v: "v = CCoinsViewCache coins h base" "view_ok v" "u = utxo v" "layers base = us" by (rule cache_onE [OF assms(1)])
  obtain r c cs b where s: "SpendCoin v p m = Some (r, c, CCoinsViewCache cs h b)" "view_ok (CCoinsViewCache cs h b)"
      "layers b = layers base" "utxo (CCoinsViewCache cs h b) = (utxo v)(p := None)"
      "case utxo v p of Some d \<Rightarrow> r \<and> c = d | None \<Rightarrow> r \<longrightarrow> c = coinEmpty"
    using SpendCoin_spends [OF v(2,1), of p m] by blast
  have "cache_on (CCoinsViewCache cs h b) (u(p := None)) us" using cache_on_Cache [OF s(2)] s(3,4) v(3,4) by simp
  then show thesis by (rule that [OF s(1)]) (use s(5) v(3) in simp_all)
qed

lemma cache_SpendCoin_unspent:
  assumes "cache_on v u us" and "u p = Some c"
  obtains v' where "SpendCoin v p m = Some (True, c, v')" and "cache_on v' (u(p := None)) us"
  by (rule cache_SpendCoin [OF assms(1), of p m]) (use assms(2) that in auto)

lemma cache_HaveCoin:
  assumes "cache_on v u us"
  obtains v' where "HaveCoin v p = (u p \<noteq> None, v')" and "cache_on v' u us"
proof -
  obtain coins h base where v: "v = CCoinsViewCache coins h base" "view_ok v" "u = utxo v" "layers base = us" by (rule cache_onE [OF assms(1)])
  obtain r v' where h: "HaveCoin v p = (r, v')" by (cases "HaveCoin v p")
  have "\<exists>coins h base. v' = CCoinsViewCache coins h base" using h unfolding v(1) by (auto split: prod.splits)
  then show thesis using HaveCoin_keeps [OF v(2) h] h v assms by (intro that) (auto simp: cache_on_def)
qed

lemma cache_AccessCoin:
  assumes "cache_on v u us"
  obtains v' where "AccessCoin v p = Some (case u p of None \<Rightarrow> coinEmpty | Some d \<Rightarrow> d, v')" and "cache_on v' u us"
proof -
  obtain coins h base where v: "v = CCoinsViewCache coins h base" "view_ok v" "u = utxo v" "layers base = us" by (rule cache_onE [OF assms(1)])
  obtain c cs b where a: "AccessCoin v p = Some (c, CCoinsViewCache cs h b)" "view_ok (CCoinsViewCache cs h b)"
      "layers (CCoinsViewCache cs h b) = layers v" "c = (case utxo v p of None \<Rightarrow> coinEmpty | Some d \<Rightarrow> d)"
    using AccessCoin_reads [OF v(2,1), of p] by blast
  have "cache_on (CCoinsViewCache cs h b) u us" using a(2,3) assms by (simp only: cache_on_def) blast
  then show thesis using a(1,4) v(3) by (intro that [of "CCoinsViewCache cs h b"]) simp_all
qed

text \<open>The coins of the outputs of a transaction that can be spent.\<close>

primrec outs_map :: "uint256 \<Rightarrow> nat \<Rightarrow> CTxOut list \<Rightarrow> int \<Rightarrow> bool \<Rightarrow> utxos" where
  "outs_map txid i [] h cb = Map.empty"
| "outs_map txid i (out # outs) h cb =
     (if IsUnspendable (scriptPubKey out) then outs_map txid (i + 1) outs h cb
      else (outs_map txid (i + 1) outs h cb)(\<lparr>out_hash = txid, out_n = word_of_nat i\<rparr> \<mapsto> Coin_of out h cb))"

definition tx_coins :: "prune_env \<Rightarrow> CTransaction \<Rightarrow> int \<Rightarrow> utxos" where
  "tx_coins env tx h = outs_map (ComputeHash fresh_buf env tx) 0 (vout tx) h (IsCoinBase tx)"

definition tx_spends :: "CTransaction \<Rightarrow> COutPoint set" where
  "tx_spends tx = (if IsCoinBase tx then {} else set (map prevout (vin tx)))"

text \<open>
  The conditions under which a block may apply a transaction: the inputs are different and unspent, no output has the amount
  that marks a spent coin, and no unspent output has the same hash.
\<close>

definition tx_applies :: "prune_env \<Rightarrow> CTransaction \<Rightarrow> utxos \<Rightarrow> bool" where
  "tx_applies env tx u \<longleftrightarrow> (\<not> IsCoinBase tx \<longrightarrow> distinct (map prevout (vin tx)) \<and> (\<forall>i\<in>set (vin tx). u (prevout i) \<noteq> None))
     \<and> (\<forall>out\<in>set (vout tx). \<not> CTxOut_IsNull out) \<and> length (vout tx) < 2 ^ 32
     \<and> (\<forall>n. u \<lparr>out_hash = ComputeHash fresh_buf env tx, out_n = n\<rparr> = None)"

lemma outs_map_hash: "outs_map txid i outs h cb p \<noteq> None \<Longrightarrow> out_hash p = txid"
  by (induction outs arbitrary: i) (auto split: if_splits)

lemma outs_map_fresh:
  "i + length outs < 2 ^ 32 \<Longrightarrow> j < i \<Longrightarrow> outs_map txid i outs h cb \<lparr>out_hash = txid, out_n = word_of_nat j\<rparr> = None"
proof (induction outs arbitrary: i)
  case (Cons out outs)
  have "(word_of_nat j :: u32) \<noteq> word_of_nat i" using Cons.prems by (simp add: word_of_nat_eq_iff take_bit_nat_eq_self)
  then show ?case using Cons.IH [of "i + 1"] Cons.prems by simp
qed simp

lemma IsSpent_Coin_of [simp]: "IsSpent (Coin_of out h cb) = CTxOut_IsNull out"
  by (simp add: IsSpent_def Coin_of_def)

lemma Coin_of_out [simp]: "coin_out (Coin_of out h cb) = out"
  by (simp add: Coin_of_def)

lemma spend_inputs_spends:
  assumes "cache_on v u us" and "distinct (map prevout ins)" and "\<forall>i\<in>set ins. u (prevout i) \<noteq> None"
  shows "\<exists>v'. spend_inputs ins v acc = Some (acc @ map (\<lambda>i. the (u (prevout i))) ins, v') \<and> cache_on v' (u |` (- set (map prevout ins))) us"
  using assms
proof (induction ins arbitrary: v u acc)
  case (Cons i ins)
  obtain c where c: "u (prevout i) = Some c" using Cons.prems(3) by auto
  obtain v1 where v1: "SpendCoin v (prevout i) coinEmpty = Some (True, c, v1)" "cache_on v1 (u(prevout i := None)) us"
    by (rule cache_SpendCoin_unspent [OF Cons.prems(1) c])
  have "\<forall>j\<in>set ins. (u(prevout i := None)) (prevout j) \<noteq> None" using Cons.prems(2,3) by (simp add: image_iff) metis
  moreover have "distinct (map prevout ins)" using Cons.prems(2) by simp
  ultimately obtain v' where v':
    "spend_inputs ins v1 (acc @ [c]) = Some ((acc @ [c]) @ map (\<lambda>j. the ((u(prevout i := None)) (prevout j))) ins, v')"
    "cache_on v' (u(prevout i := None) |` (- set (map prevout ins))) us" using Cons.IH [OF v1(2), of "acc @ [c]"] by blast
  have "map (\<lambda>j. the ((u(prevout i := None)) (prevout j))) ins = map (\<lambda>j. the (u (prevout j))) ins"
    using Cons.prems(2) by (auto simp: image_iff)
  moreover have "u(prevout i := None) |` (- set (map prevout ins)) = u |` (- set (map prevout (i # ins)))"
    by (auto simp: restrict_map_def fun_eq_iff)
  ultimately show ?case using v1(1) v' c by simp
qed (simp add: restrict_map_def)

lemma add_outputs_adds:
  assumes "cache_on v u us" and "\<forall>out\<in>set outs. \<not> CTxOut_IsNull out" and "i + length outs < 2 ^ 32"
    and "\<not> cb \<Longrightarrow> \<forall>j. i \<le> j \<longrightarrow> j < i + length outs \<longrightarrow> u \<lparr>out_hash = txid, out_n = word_of_nat j\<rparr> = None"
  shows "\<exists>v'. add_outputs txid i outs h cb v = Some v' \<and> cache_on v' (u ++ outs_map txid i outs h cb) us"
  using assms
proof (induction outs arbitrary: v u i)
  case (Cons out outs)
  define p where "p = (\<lparr>out_hash = txid, out_n = word_of_nat i\<rparr> :: COutPoint)"
  define u1 where "u1 = (if IsUnspendable (scriptPubKey out) then u else u(p \<mapsto> Coin_of out h cb))"
  have free: "\<not> cb \<Longrightarrow> u p = None" using Cons.prems(4) by (auto simp: p_def)
  obtain v1 where v1: "AddCoin v p (Coin_of out h cb) cb = Some v1" "cache_on v1 u1 us"
    using cache_AddCoin [OF Cons.prems(1), of "Coin_of out h cb" cb p] Cons.prems(2) free by (auto simp: u1_def)
  have "u1 \<lparr>out_hash = txid, out_n = word_of_nat j\<rparr> = None" if "\<not> cb" "i + 1 \<le> j" "j < i + 1 + length outs" for j
  proof -
    have "(word_of_nat j :: u32) \<noteq> word_of_nat i" using that Cons.prems(3) by (simp add: word_of_nat_eq_iff take_bit_nat_eq_self)
    then show ?thesis using that Cons.prems(4) by (simp add: u1_def p_def)
  qed
  then obtain v' where v': "add_outputs txid (i + 1) outs h cb v1 = Some v'" "cache_on v' (u1 ++ outs_map txid (i + 1) outs h cb) us"
    using Cons.IH [OF v1(2), of "i + 1"] Cons.prems(2,3) by auto
  have "outs_map txid (i + 1) outs h cb p = None" unfolding p_def by (rule outs_map_fresh) (use Cons.prems(3) in simp_all)
  then have "u1 ++ outs_map txid (i + 1) outs h cb = u ++ outs_map txid i (out # outs) h cb"
    by (auto simp: u1_def p_def map_add_def fun_eq_iff split: option.splits)
  then show ?case using v1(1) v' by (simp add: p_def)
qed simp

lemma UpdateCoins_applies:
  assumes "cache_on v u us" and "tx_applies env tx u"
  obtains v' where "UpdateCoins env tx v [] h = Some (if IsCoinBase tx then [] else map (\<lambda>i. the (u (prevout i))) (vin tx), v')"
    and "cache_on v' ((u |` (- tx_spends tx)) ++ tx_coins env tx h) us"
proof -
  define cs where "cs = (if IsCoinBase tx then [] else map (\<lambda>i. the (u (prevout i))) (vin tx))"
  obtain v1 where v1: "(if \<not> IsCoinBase tx then spend_inputs (vin tx) v [] else Some ([], v)) = Some (cs, v1)"
      "cache_on v1 (u |` (- tx_spends tx)) us"
  proof (cases "IsCoinBase tx")
    case True
    then show thesis using that [of v] assms(1) by (simp add: cs_def tx_spends_def restrict_map_def)
  next
    case False
    then show thesis using that spend_inputs_spends [OF assms(1), of "vin tx" "[]"] assms(2) by (auto simp: cs_def tx_spends_def tx_applies_def)
  qed
  have "(u |` (- tx_spends tx)) \<lparr>out_hash = ComputeHash fresh_buf env tx, out_n = n\<rparr> = None" for n
    using assms(2) by (simp add: tx_applies_def restrict_map_def)
  then obtain v' where "AddCoins env v1 tx h = Some v'" "cache_on v' ((u |` (- tx_spends tx)) ++ tx_coins env tx h) us"
    using add_outputs_adds [OF v1(2), of "vout tx" 0 "IsCoinBase tx" "ComputeHash fresh_buf env tx" h] assms(2)
    by (auto simp: AddCoins_def tx_coins_def tx_applies_def)
  then show thesis using v1(1) that by (simp add: UpdateCoins_def cs_def)
qed

section \<open>Properties\<close>

text \<open>
  C4. The stack of coin caches refines a stack of sets of unspent outputs: whatever sequence of lookups, additions, spendings,
  evictions, flushes, nested caches and their commits or rollbacks a program runs, if the specification allows it then the
  caches run it without an exception, return the same coins, keep the promises of the flags DIRTY and FRESH, and every
  layer ends with the unspent outputs of the specification. Caching, the flags and the merging of a child into its parent are
  invisible.
\<close>

theorem coins_cache_refines:
  assumes "view_ok v" and "stored v" and "run_ops utxo_step ops (layers v) = Some (rs, us)"
  shows "\<exists>v'. run_ops coins_step ops v = Some (rs, v') \<and> view_ok v' \<and> stored v' \<and> layers v' = us"
  using caches.run_simulates [of v ops rs us] assms by blast

definition sample_coin :: Coin where
  "sample_coin = Coin_of \<lparr>nValue = 5, scriptPubKey = [OP_TRUE], nRounds = - 10\<rparr> 7 False"

definition sample_ops :: "coins_op list" where
  "sample_ops = [OpBegin, OpAdd COutPoint_null sample_coin False, OpBegin, OpSpend COutPoint_null, OpCommit, OpGet COutPoint_null,
     OpFlush, OpAbort]"

definition empty_store :: CCoinsView where
  "empty_store = CCoinsViewDB \<lparr>db_coins = Map.empty, db_best = None, db_writable = True\<rparr>"

theorem coins_cache_refines_witness:
  "\<exists>v'. run_ops coins_step sample_ops empty_store = Some ([None, None, None, Some sample_coin, None, None, None, None], v')
     \<and> layers v' = [Map.empty]"
proof -
  have c: "\<not> IsSpent sample_coin" "\<not> IsUnspendable (scriptPubKey (coin_out sample_coin))"
    by (simp_all add: sample_coin_def Coin_of_def IsSpent_def CTxOut_IsNull_def IsUnspendable_def)
  have "run_ops utxo_step sample_ops (layers empty_store) = Some ([None, None, None, Some sample_coin, None, None, None, None], [Map.empty])"
    using c by (simp add: sample_ops_def empty_store_def)
  moreover have "view_ok empty_store" "stored empty_store" by (simp_all add: empty_store_def)
  ultimately show ?thesis using coins_cache_refines [of empty_store sample_ops] by blast
qed

end
