(* ===== verification/Tx_Checks.thy ===== *)
theory Tx_Checks
  imports Headers Coins
begin

text \<open>
  The checks of a transaction (\<^verbatim>\<open>src/validation.cpp\<close>): those that need no context (\<open>CheckTransaction\<close>), those of its amounts over
  the coins that it spends (\<open>CheckTxInputs\<close>), and its lock times, absolute (\<open>IsFinalTx\<close>) and relative to the blocks of its
  inputs (\<open>SequenceLocks\<close>, BIP 68). \<open>None\<close> is an exception, a failed assertion or an invalid pointer. Debug messages are left out.
\<close>

unbundle bit_operations_syntax

section \<open>Checks without context\<close>

abbreviation (input) MAX_LEGACY_BLOCK_SIZE :: nat where "MAX_LEGACY_BLOCK_SIZE \<equiv> 10 * 1000 * 1000"

fun check_values :: "CAmount \<Rightarrow> CTxOut list \<Rightarrow> CValidationState \<Rightarrow> bool \<times> CValidationState" where
  "check_values nValueOut [] st = (True, st)"
| "check_values nValueOut (txout # outs) st =
     (if nValue txout < 0 then state_DoS 100 False REJECT_INVALID ''bad-txns-vout-negative'' False st
      else if nValue txout > MAX_MONEY then state_DoS 100 False REJECT_INVALID ''bad-txns-vout-toolarge'' False st
      else
        let nValueOut = int64 (nValueOut + nValue txout)
        in if \<not> MoneyRange nValueOut then state_DoS 100 False REJECT_INVALID ''bad-txns-txouttotal-toolarge'' False st
           else check_values nValueOut outs st)"

fun check_duplicates :: "COutPoint list \<Rightarrow> CTxIn list \<Rightarrow> CValidationState \<Rightarrow> bool \<times> CValidationState" where
  "check_duplicates vInOutPoints [] st = (True, st)"
| "check_duplicates vInOutPoints (txin # ins) st =
     (if prevout txin \<in> set vInOutPoints then state_DoS 100 False REJECT_INVALID ''bad-txns-inputs-duplicate'' False st
      else check_duplicates (prevout txin # vInOutPoints) ins st)"

fun check_prevouts :: "CTxIn list \<Rightarrow> CValidationState \<Rightarrow> bool \<times> CValidationState" where
  "check_prevouts [] st = (True, st)"
| "check_prevouts (txin # ins) st =
     (if COutPoint_IsNull (prevout txin) then state_DoS 10 False REJECT_INVALID ''bad-txns-prevout-null'' False st
      else check_prevouts ins st)"

definition CheckTransaction :: "prune_env \<Rightarrow> CTransaction \<Rightarrow> CValidationState \<Rightarrow> bool \<Rightarrow> bool \<times> CValidationState" where
  "CheckTransaction env tx st fCheckDuplicateInputs =
     (if vin tx = [] then state_DoS 10 False REJECT_INVALID ''bad-txns-vin-empty'' False st
      else if vout tx = [] then state_DoS 10 False REJECT_INVALID ''bad-txns-vout-empty'' False st
      else if length (CTransaction_Serialize env SER_NETWORK tx) > MAX_LEGACY_BLOCK_SIZE
      then state_DoS 100 False REJECT_INVALID ''bad-txns-oversize'' False st
      else
        let (ok, st) = check_values 0 (vout tx) st
        in if \<not> ok then (False, st)
           else
             let (ok, st) = (if fCheckDuplicateInputs then check_duplicates [] (vin tx) st else (True, st))
             in if \<not> ok then (False, st)
                else if IsCoinBase tx
                then if length (scriptSig (vin tx ! 0)) < 2 \<or> length (scriptSig (vin tx ! 0)) > 100
                     then state_DoS 100 False REJECT_INVALID ''bad-cb-length'' False st
                     else (True, st)
                else check_prevouts (vin tx) st)"

section \<open>Amounts\<close>

abbreviation (input) COINBASE_MATURITY :: int where "COINBASE_MATURITY \<equiv> 36"

text \<open>The loop over the inputs: either a rejection, or the sum of the amounts.\<close>

fun sum_inputs ::
  "CTxIn list \<Rightarrow> int \<Rightarrow> CAmount \<Rightarrow> CCoinsView \<Rightarrow> CValidationState \<Rightarrow> (((bool \<times> CValidationState) + CAmount) \<times> CCoinsView) option" where
  "sum_inputs [] nSpendHeight nValueIn inputs st = Some (Inr nValueIn, inputs)"
| "sum_inputs (txin # ins) nSpendHeight nValueIn inputs st =
     do { (coin, inputs) \<leftarrow> AccessCoin inputs (prevout txin);
          if IsSpent coin then None
          else if fCoinBase coin \<and> nSpendHeight - uint (coin_nHeight coin) < COINBASE_MATURITY
          then Some (Inl (state_Invalid False REJECT_INVALID ''bad-txns-premature-spend-of-coinbase'' st), inputs)
          else
            let nValueIn = int64 (nValueIn + nValue (coin_out coin))
            in if \<not> MoneyRange (nValue (coin_out coin)) \<or> \<not> MoneyRange nValueIn
               then Some (Inl (state_DoS 100 False REJECT_INVALID ''bad-txns-inputvalues-outofrange'' False st), inputs)
               else sum_inputs ins nSpendHeight nValueIn inputs st }"

definition CheckTxInputs ::
  "CTransaction \<Rightarrow> CValidationState \<Rightarrow> CCoinsView \<Rightarrow> int \<Rightarrow> (bool \<times> CValidationState \<times> CCoinsView) option" where
  "CheckTxInputs tx st inputs nSpendHeight =
     (let (have, inputs) = HaveInputs inputs tx
      in if \<not> have then (let (ret, st) = state_Invalid False 0 [] st in Some (ret, st, inputs))
         else
           do { (r, inputs) \<leftarrow> sum_inputs (vin tx) nSpendHeight 0 inputs st;
                case r of
                  Inl (ret, st) \<Rightarrow> Some (ret, st, inputs)
                | Inr nValueIn \<Rightarrow>
                    do { nValueOut \<leftarrow> GetValueOut tx;
                         if nValueIn < nValueOut
                         then (let (ret, st) = state_DoS 100 False REJECT_INVALID ''bad-txns-in-belowout'' False st in Some (ret, st, inputs))
                         else
                           let nTxFee = int64 (nValueIn - nValueOut)
                           in if nTxFee < 0
                              then (let (ret, st) = state_DoS 100 False REJECT_INVALID ''bad-txns-fee-negative'' False st in Some (ret, st, inputs))
                              else
                                let nFees = int64 (0 + nTxFee)
                                in if \<not> MoneyRange nFees
                                   then (let (ret, st) = state_DoS 100 False REJECT_INVALID ''bad-txns-fee-outofrange'' False st in Some (ret, st, inputs))
                                   else Some (True, st, inputs) } })"

section \<open>Lock times\<close>

definition IsFinalTx :: "CTransaction \<Rightarrow> int \<Rightarrow> int \<Rightarrow> bool" where
  "IsFinalTx tx nBlockHeight nBlockTime =
     (if nLockTime tx = 0 then True
      else if uint (nLockTime tx) < (if uint (nLockTime tx) < int LOCKTIME_THRESHOLD then nBlockHeight else nBlockTime) then True
      else list_all (\<lambda>txin. nSequence txin = SEQUENCE_FINAL) (vin tx))"

abbreviation (input) LOCKTIME_VERIFY_SEQUENCE :: int where "LOCKTIME_VERIFY_SEQUENCE \<equiv> 1"
abbreviation (input) LOCKTIME_MEDIAN_TIME_PAST :: int where "LOCKTIME_MEDIAN_TIME_PAST \<equiv> 2"

definition CheckFinalTx :: "BlockMap \<Rightarrow> CChain \<Rightarrow> int \<Rightarrow> CTransaction \<Rightarrow> int \<Rightarrow> bool option" where
  "CheckFinalTx m chainActive adjustedTime tx flgs =
     (let flgs = max flgs 0; nBlockHeight = chain_Height chainActive + 1
      in do { nBlockTime \<leftarrow> if flgs AND LOCKTIME_MEDIAN_TIME_PAST \<noteq> 0
                then do { tip \<leftarrow> chain_Tip chainActive; GetMedianTimePast m tip } else Some adjustedTime;
              Some (IsFinalTx tx nBlockHeight nBlockTime) })"

text \<open>
  The loop of \<open>CalculateSequenceLocks\<close> over the inputs and the heights of their coins, which it updates; it returns the new heights
  and the last height and time at which the transaction is not yet final.
\<close>

fun lock_loop :: "BlockMap \<Rightarrow> uint256 \<Rightarrow> CTxIn list \<Rightarrow> int list \<Rightarrow> int \<Rightarrow> int \<Rightarrow> (int list \<times> int \<times> int) option" where
  "lock_loop m block (txin # ins) (nCoinHeight # heights) nMinHeight nMinTime =
     (if nSequence txin AND 0x80000000 \<noteq> 0
      then do { (hts, r) \<leftarrow> lock_loop m block ins heights nMinHeight nMinTime; Some (0 # hts, r) }
      else if nSequence txin AND 0x400000 \<noteq> 0
      then do { anc \<leftarrow> GetAncestor m block (max (nCoinHeight - 1) 0);
                a \<leftarrow> anc;
                nCoinTime \<leftarrow> GetMedianTimePast m a;
                (hts, r) \<leftarrow> lock_loop m block ins heights nMinHeight
                   (max nMinTime (nCoinTime + uint (push_bit 9 (nSequence txin AND 0xffff)) - 1));
                Some (nCoinHeight # hts, r) }
      else do { (hts, r) \<leftarrow> lock_loop m block ins heights (max nMinHeight (nCoinHeight + uint (nSequence txin AND 0xffff) - 1)) nMinTime;
                Some (nCoinHeight # hts, r) })"
| "lock_loop m block _ _ nMinHeight nMinTime = Some ([], nMinHeight, nMinTime)"

definition CalculateSequenceLocks :: "BlockMap \<Rightarrow> CTransaction \<Rightarrow> int \<Rightarrow> int list \<Rightarrow> uint256 \<Rightarrow> (int list \<times> int \<times> int) option" where
  "CalculateSequenceLocks m tx flgs prevHeights block =
     (if length prevHeights \<noteq> length (vin tx) then None
      else
        let fEnforceBIP68 = (unat (nVersion tx) \<ge> 2 \<and> flgs AND LOCKTIME_VERIFY_SEQUENCE \<noteq> 0)
        in if \<not> fEnforceBIP68 then Some (prevHeights, - 1, - 1)
           else lock_loop m block (vin tx) prevHeights (- 1) (- 1))"

definition EvaluateSequenceLocks :: "BlockMap \<Rightarrow> uint256 \<Rightarrow> int \<times> int \<Rightarrow> bool option" where
  "EvaluateSequenceLocks m block lockPair =
     do { b \<leftarrow> m block;
          q \<leftarrow> pprev b;
          nBlockTime \<leftarrow> GetMedianTimePast m q;
          Some (if fst lockPair \<ge> int (nHeight b) \<or> snd lockPair \<ge> nBlockTime then False else True) }"

definition SequenceLocks :: "BlockMap \<Rightarrow> CTransaction \<Rightarrow> int \<Rightarrow> int list \<Rightarrow> uint256 \<Rightarrow> (bool \<times> int list) option" where
  "SequenceLocks m tx flgs prevHeights block =
     do { (hts, lockPair) \<leftarrow> CalculateSequenceLocks m tx flgs prevHeights block;
          ok \<leftarrow> EvaluateSequenceLocks m block lockPair;
          Some (ok, hts) }"

section \<open>What acceptance means\<close>

definition sum_values :: "CTxOut list \<Rightarrow> int" where
  "sum_values outs = sum_list (map nValue outs)"

lemma state_rejects [simp]: "fst (state_DoS l False c r k st) = False" "fst (state_Invalid False c r st) = False"
  by (simp_all add: state_Invalid_def)

lemma check_values_iff:
  "MoneyRange a \<Longrightarrow> fst (check_values a outs st) \<longleftrightarrow> (\<forall>out\<in>set outs. MoneyRange (nValue out)) \<and> MoneyRange (a + sum_values outs)"
proof (induction outs arbitrary: a)
  case (Cons out outs)
  show ?case
  proof (cases "MoneyRange (nValue out)")
    case True
    then have i: "int64 (a + nValue out) = a + nValue out" using Cons.prems by (intro MoneyRange_int64)
    have "sum_values outs \<ge> 0" if "\<forall>x\<in>set outs. MoneyRange (nValue x)"
      unfolding sum_values_def by (rule sum_list_nonneg) (use that in \<open>auto simp: MoneyRange_def\<close>)
    then show ?thesis using True Cons.IH [of "a + nValue out"] i Cons.prems
      by (auto simp: sum_values_def MoneyRange_def Let_def algebra_simps)
  next
    case False
    then show ?thesis by (auto simp: MoneyRange_def)
  qed
qed (simp add: sum_values_def)

lemma check_duplicates_iff:
  "fst (check_duplicates seen ins st) \<longleftrightarrow> distinct (map prevout ins) \<and> set seen \<inter> set (map prevout ins) = {}"
  by (induction ins arbitrary: seen) auto

lemma check_prevouts_iff: "fst (check_prevouts ins st) \<longleftrightarrow> (\<forall>i\<in>set ins. \<not> COutPoint_IsNull (prevout i))"
  by (induction ins) auto

lemma CheckTransaction_iff:
  "fst (CheckTransaction env tx st True) \<longleftrightarrow>
     vin tx \<noteq> [] \<and> vout tx \<noteq> [] \<and> length (CTransaction_Serialize env SER_NETWORK tx) \<le> MAX_LEGACY_BLOCK_SIZE
     \<and> (\<forall>out\<in>set (vout tx). MoneyRange (nValue out)) \<and> MoneyRange (sum_values (vout tx)) \<and> distinct (map prevout (vin tx))
     \<and> (if IsCoinBase tx then 2 \<le> length (scriptSig (vin tx ! 0)) \<and> length (scriptSig (vin tx ! 0)) \<le> 100
        else \<forall>i\<in>set (vin tx). \<not> COutPoint_IsNull (prevout i))"
proof -
  obtain a s1 where v: "check_values 0 (vout tx) st = (a, s1)" by (cases "check_values 0 (vout tx) st")
  obtain b s2 where d: "check_duplicates [] (vin tx) s1 = (b, s2)" by (cases "check_duplicates [] (vin tx) s1")
  have a: "a \<longleftrightarrow> (\<forall>out\<in>set (vout tx). MoneyRange (nValue out)) \<and> MoneyRange (sum_values (vout tx))"
    using check_values_iff [of 0 "vout tx" st] v by (simp add: MoneyRange_def MAX_MONEY_def COIN_def)
  have b: "b \<longleftrightarrow> distinct (map prevout (vin tx))" using check_duplicates_iff [of "[]" "vin tx" s1] d by simp
  show ?thesis using v d a b check_prevouts_iff [of "vin tx" s2]
    by (auto simp: CheckTransaction_def Let_def not_less not_le)
qed

section \<open>Sums of coins\<close>

definition total_value :: "utxos \<Rightarrow> int" where
  "total_value u = (\<Sum>p\<in>dom u. nValue (coin_out (the (u p))))"

lemma total_add:
  assumes "finite (dom u)" and "finite (dom w)" and "dom u \<inter> dom w = {}"
  shows "total_value (u ++ w) = total_value u + total_value w"
proof -
  have "total_value (u ++ w) = (\<Sum>p\<in>dom u. nValue (coin_out (the ((u ++ w) p)))) + (\<Sum>p\<in>dom w. nValue (coin_out (the ((u ++ w) p))))"
    unfolding total_value_def using assms by (simp add: sum.union_disjoint Un_commute Int_commute)
  moreover have "(u ++ w) p = u p" if "p \<in> dom u" for p using that assms(3) by (metis disjoint_iff domIff map_add_dom_app_simps(3))
  moreover have "(u ++ w) p = w p" if "p \<in> dom w" for p using that by (simp add: map_add_dom_app_simps(1))
  ultimately show ?thesis by (simp add: total_value_def)
qed

lemma total_restrict:
  assumes "finite (dom u)" and "S \<subseteq> dom u"
  shows "total_value (u |` (- S)) + (\<Sum>p\<in>S. nValue (coin_out (the (u p)))) = total_value u"
proof -
  have "dom (u |` (- S)) = dom u - S" by auto
  then have "total_value (u |` (- S)) = (\<Sum>p\<in>dom u - S. nValue (coin_out (the (u p))))" by (simp add: total_value_def restrict_map_def)
  then show ?thesis using sum.subset_diff [OF assms(2,1), of "\<lambda>p. nValue (coin_out (the (u p)))"] by (simp add: total_value_def)
qed

definition spendable_outs :: "CTxOut list \<Rightarrow> CTxOut list" where
  "spendable_outs outs = filter (\<lambda>out. \<not> IsUnspendable (scriptPubKey out)) outs"

lemma finite_outs_map: "finite (dom (outs_map txid i outs h cb))"
  by (induction outs arbitrary: i) auto

lemma total_outs_map:
  "i + length outs < 2 ^ 32 \<Longrightarrow> total_value (outs_map txid i outs h cb) = sum_values (spendable_outs outs)"
proof (induction outs arbitrary: i)
  case (Cons out outs)
  define m where "m = outs_map txid (i + 1) outs h cb"
  define p where "p = (\<lparr>out_hash = txid, out_n = word_of_nat i\<rparr> :: COutPoint)"
  have p: "m p = None" unfolding m_def p_def by (rule outs_map_fresh) (use Cons.prems in simp_all)
  have "total_value (m(p \<mapsto> c)) = nValue (coin_out c) + total_value m" for c
  proof -
    have "dom (m(p \<mapsto> c)) = insert p (dom m)" by auto
    moreover have "p \<notin> dom m" "finite (dom m)" using p finite_outs_map by (auto simp: m_def)
    moreover have "(\<Sum>q\<in>dom m. nValue (coin_out (the ((m(p \<mapsto> c)) q)))) = total_value m"
      unfolding total_value_def by (rule sum.cong) (use p in auto)
    ultimately show ?thesis by (simp add: total_value_def)
  qed
  moreover have "outs_map txid i (out # outs) h cb = (if IsUnspendable (scriptPubKey out) then m else m(p \<mapsto> Coin_of out h cb))"
    by (simp add: m_def p_def)
  moreover have "total_value m = sum_values (spendable_outs outs)" using Cons.IH [of "i + 1"] Cons.prems by (simp add: m_def)
  ultimately show ?case
    by (cases "IsUnspendable (scriptPubKey out)") (simp_all add: spendable_outs_def sum_values_def del: outs_map.simps fun_upd_apply)
qed (simp add: total_value_def spendable_outs_def sum_values_def)

section \<open>Inputs\<close>

lemma have_inputs_cache:
  assumes "cache_on v u us"
  shows "\<exists>v'. have_inputs ins v = ((\<forall>i\<in>set ins. u (prevout i) \<noteq> None), v') \<and> cache_on v' u us"
  using assms
proof (induction ins arbitrary: v)
  case (Cons i ins)
  obtain v1 where v1: "HaveCoin v (prevout i) = (u (prevout i) \<noteq> None, v1)" "cache_on v1 u us" by (rule cache_HaveCoin [OF Cons.prems])
  show ?case
  proof (cases "u (prevout i)")
    case None
    then show ?thesis using v1 by simp
  next
    case (Some c)
    then show ?thesis using v1 Cons.IH [OF v1(2)] by auto
  qed
qed simp

definition value_of :: "utxos \<Rightarrow> CTxIn list \<Rightarrow> int" where
  "value_of u ins = sum_list (map (\<lambda>i. nValue (coin_out (the (u (prevout i))))) ins)"

lemma sum_inputs_cache:
  assumes "cache_on v u us" and "\<forall>i\<in>set ins. u (prevout i) \<noteq> None" and "sum_inputs ins n a v st = Some (r, v')" and "MoneyRange a"
  shows "cache_on v' u us \<and> (case r of Inr s \<Rightarrow> s = a + value_of u ins \<and> MoneyRange s | Inl x \<Rightarrow> \<not> fst x)"
  using assms
proof (induction ins arbitrary: v a)
  case (Cons i ins)
  obtain c where c: "u (prevout i) = Some c" using Cons.prems(2) by auto
  obtain v1 where v1: "AccessCoin v (prevout i) = Some (c, v1)" "cache_on v1 u us"
    using cache_AccessCoin [OF Cons.prems(1), of "prevout i"] c by (metis option.simps(5))
  show ?case
  proof (cases "MoneyRange (nValue (coin_out c)) \<and> MoneyRange (int64 (a + nValue (coin_out c)))
      \<and> \<not> (fCoinBase c \<and> n - uint (coin_nHeight c) < COINBASE_MATURITY)")
    case True
    have i: "int64 (a + nValue (coin_out c)) = a + nValue (coin_out c)" using True Cons.prems(4) by (intro MoneyRange_int64) simp_all
    have "sum_inputs ins n (a + nValue (coin_out c)) v1 st = Some (r, v')"
      using Cons.prems(3) v1(1) True i by (auto simp: Let_def split: if_splits)
    from Cons.IH [OF v1(2) _ this] show ?thesis using Cons.prems(2) True i c
      by (auto simp: value_of_def algebra_simps split: sum.splits)
  next
    case False
    then show ?thesis using Cons.prems(3) v1 by (auto simp: Let_def split: if_splits)
  qed
qed (auto simp: value_of_def)

lemma length_Serialize_vec: "(\<And>x. ser x \<noteq> []) \<Longrightarrow> length xs \<le> length (Serialize_vec ser xs)"
proof -
  assume ne: "\<And>x. ser x \<noteq> []"
  have "length xs \<le> length (concat (map ser xs))"
  proof (induction xs)
    case (Cons x xs)
    have "Suc 0 \<le> length (ser x)" using ne [of x] by (cases "ser x") simp_all
    then show ?case using Cons by (simp del: One_nat_def length_concat)
  qed simp
  then show ?thesis by (simp add: Serialize_vec_def)
qed

lemma length_vout:
  assumes "length (CTransaction_Serialize env SER_NETWORK tx) \<le> MAX_LEGACY_BLOCK_SIZE"
  shows "length (vout tx) < 2 ^ 32"
proof -
  have "CTxOut_Serialize env SER_NETWORK out \<noteq> []" for out
  proof
    assume "CTxOut_Serialize env SER_NETWORK out = []"
    then have "length (ser_writedata64 (word_of_int (nValue out))) = 0" by (simp add: CTxOut_Serialize_def)
    then show False by simp
  qed
  then have "length (vout tx) \<le> length (Serialize_vec (CTxOut_Serialize env SER_NETWORK) (vout tx))" by (rule length_Serialize_vec)
  also have "\<dots> \<le> length (CTransaction_Serialize env SER_NETWORK tx)" by (simp add: CTransaction_Serialize_def)
  finally show ?thesis using assms by simp
qed

lemma CheckTxInputs_accepts:
  assumes "cache_on v u us" and "\<not> IsCoinBase tx" and "CheckTxInputs tx st v n = Some (True, st', v')"
  shows "cache_on v' u us" and "\<forall>i\<in>set (vin tx). u (prevout i) \<noteq> None"
    and "sum_values (vout tx) \<le> value_of u (vin tx)" and "MoneyRange (value_of u (vin tx))"
proof -
  obtain v1 where v1: "HaveInputs v tx = ((\<forall>i\<in>set (vin tx). u (prevout i) \<noteq> None), v1)" "cache_on v1 u us"
    using have_inputs_cache [OF assms(1), of "vin tx"] assms(2) by (auto simp: HaveInputs_def)
  show hv: "\<forall>i\<in>set (vin tx). u (prevout i) \<noteq> None"
    using assms(3) v1(1) state_False(2) by (auto simp: CheckTxInputs_def split: if_splits prod.splits)
  obtain r v2 where r: "sum_inputs (vin tx) n 0 v1 st = Some (r, v2)"
    using assms(3) v1(1) hv by (auto simp: CheckTxInputs_def bind_eq_Some_conv)
  have k: "cache_on v2 u us \<and> (case r of Inr s \<Rightarrow> s = 0 + value_of u (vin tx) \<and> MoneyRange s | Inl x \<Rightarrow> \<not> fst x)"
    by (rule sum_inputs_cache [OF v1(2) hv r]) (simp add: MoneyRange_def MAX_MONEY_def COIN_def)
  have "\<exists>s. r = Inr s"
    using assms(3) v1(1) hv r k by (cases r) (auto simp: CheckTxInputs_def split: prod.splits)
  then obtain s where s: "r = Inr s" ..
  obtain out where out: "GetValueOut tx = Some out" using assms(3) v1(1) hv r s by (auto simp: CheckTxInputs_def bind_eq_Some_conv)
  have "\<not> s < out" and v': "v' = v2"
    using assms(3) v1(1) hv r s out state_False(1)
    by (auto simp: CheckTxInputs_def Let_def split: if_splits prod.splits)
  moreover have "out = sum_values (vout tx)" using out value_out_sum [of 0 "vout tx" out]
    by (simp add: GetValueOut_def MoneyRange_def MAX_MONEY_def COIN_def sum_values_def)
  ultimately show "sum_values (vout tx) \<le> value_of u (vin tx)" "cache_on v' u us" "MoneyRange (value_of u (vin tx))"
    using k s by auto
qed

lemma sum_values_split: "sum_values (spendable_outs outs) + sum_values (filter (\<lambda>out. IsUnspendable (scriptPubKey out)) outs) = sum_values outs"
  by (induction outs) (auto simp: spendable_outs_def sum_values_def)

lemma value_of_set: "distinct (map prevout ins) \<Longrightarrow> value_of u ins = (\<Sum>p\<in>set (map prevout ins). nValue (coin_out (the (u p))))"
  unfolding value_of_def by (metis (no_types, lifting) list.map_comp comp_def sum_list_distinct_conv_sum_set map_eq_conv)

text \<open>
  C5. No transaction creates value. If a transaction that is not a coinbase passes \<open>CheckTransaction\<close> and \<open>CheckTxInputs\<close> over a
  cache, and its hash is not that of an unspent output, then \<open>UpdateCoins\<close> applies it without a failed assertion, and the
  total of the unspent outputs afterwards, the fee and the outputs that cannot be spent add up to the total before; the fee is
  in the money range.
\<close>

theorem tx_conserves_value:
  assumes "cache_on v u us" and "finite (dom u)" and "\<not> IsCoinBase tx"
    and "\<forall>n. u \<lparr>out_hash = ComputeHash fresh_buf env tx, out_n = n\<rparr> = None"
    and "fst (CheckTransaction env tx st True)" and "CheckTxInputs tx st v nSpendHeight = Some (True, st', v')"
  shows "\<exists>undo v'' u'. UpdateCoins env tx v' [] height = Some (undo, v'') \<and> cache_on v'' u' us \<and> finite (dom u')
    \<and> MoneyRange (value_of u (vin tx) - sum_values (vout tx))
    \<and> total_value u' + (value_of u (vin tx) - sum_values (vout tx))
        + sum_values (filter (\<lambda>out. IsUnspendable (scriptPubKey out)) (vout tx)) = total_value u
    \<and> total_value u' \<le> total_value u"
proof -
  note c = assms(5) [unfolded CheckTransaction_iff]
  note a = CheckTxInputs_accepts [OF assms(1,3,6)]
  define S where "S = set (map prevout (vin tx))"
  define u' where "u' = (u |` (- S)) ++ tx_coins env tx height"
  have "\<not> CTxOut_IsNull out" if "out \<in> set (vout tx)" for out using c that by (auto simp: CTxOut_IsNull_def MoneyRange_def)
  then have app: "tx_applies env tx u" using c a(2) assms(4) length_vout by (auto simp: tx_applies_def)
  have S: "tx_spends tx = S" "S \<subseteq> dom u" using assms(3) a(2) by (auto simp: tx_spends_def S_def)
  obtain v'' undo where up: "UpdateCoins env tx v' [] height = Some (undo, v'')" "cache_on v'' u' us"
    using UpdateCoins_applies [OF a(1) app, of height] S(1) u'_def by metis
  have fin: "finite (dom (u |` (- S)))" "finite (dom (tx_coins env tx height))" using assms(2) finite_outs_map by (auto simp: tx_coins_def)
  have "dom (u |` (- S)) \<inter> dom (tx_coins env tx height) = {}"
  proof -
    have "u p = None" if "tx_coins env tx height p \<noteq> None" for p
      using assms(4) outs_map_hash [OF that [unfolded tx_coins_def]] by (cases p) auto
    then show ?thesis by (fastforce simp: restrict_map_def split: if_splits)
  qed
  then have "total_value u' = total_value (u |` (- S)) + sum_values (spendable_outs (vout tx))"
    unfolding u'_def using total_add [OF fin] total_outs_map [of 0 "vout tx"] app by (simp add: tx_coins_def tx_applies_def)
  moreover have "total_value (u |` (- S)) + value_of u (vin tx) = total_value u"
    using total_restrict [OF assms(2) S(2)] value_of_set [of "vin tx" u] c by (simp add: S_def)
  ultimately have eq: "total_value u' + (value_of u (vin tx) - sum_values (vout tx))
        + sum_values (filter (\<lambda>out. IsUnspendable (scriptPubKey out)) (vout tx)) = total_value u"
    using sum_values_split [of "vout tx"] by linarith
  have "0 \<le> sum_values (filter (\<lambda>out. IsUnspendable (scriptPubKey out)) (vout tx))" "0 \<le> sum_values (vout tx)"
    unfolding sum_values_def by (rule sum_list_nonneg; use c in \<open>auto simp: MoneyRange_def\<close>)+
  then have "MoneyRange (value_of u (vin tx) - sum_values (vout tx))" "total_value u' \<le> total_value u"
    using a(3,4) eq by (auto simp: MoneyRange_def)
  moreover have "finite (dom u')" using fin by (simp add: u'_def)
  ultimately show ?thesis using up eq by blast
qed

text \<open>
  A transaction that spends a coin of 50 and creates an output of 30 and an unspendable one of 10. The hash of the outpoint is
  shorter than any hash of a transaction, so that the two differ without computing one.
\<close>

definition coin_point :: COutPoint where
  "coin_point = \<lparr>out_hash = [1], out_n = 0\<rparr>"

definition coin_50 :: Coin where
  "coin_50 = Coin_of \<lparr>nValue = 50, scriptPubKey = [OP_TRUE], nRounds = - 10\<rparr> 7 False"

definition spend_50 :: CTransaction where
  "spend_50 = \<lparr>nVersion = 2, vin = [\<lparr>prevout = coin_point, scriptSig = [], nSequence = 0\<rparr>],
     vout = [\<lparr>nValue = 30, scriptPubKey = [OP_TRUE], nRounds = - 10\<rparr>, \<lparr>nValue = 10, scriptPubKey = [OP_RETURN], nRounds = - 10\<rparr>],
     nLockTime = 0\<rparr>"

definition view_50 :: CCoinsView where
  "view_50 = new_cache (CCoinsViewDB \<lparr>db_coins = [coin_point \<mapsto> coin_50], db_best = None, db_writable = True\<rparr>)"

lemma coin_50_unspent: "\<not> IsSpent coin_50"
  by (simp add: coin_50_def CTxOut_IsNull_def)

lemma view_50_on: "cache_on view_50 [coin_point \<mapsto> coin_50] [[coin_point \<mapsto> coin_50]]"
  using coin_50_unspent by (auto simp: view_50_def new_cache_def cache_on_def entries_ok_def split: if_splits)

lemma spend_50_checked: "fst (CheckTransaction no_services spend_50 st True)"
proof -
  have "length (CTransaction_Serialize no_services SER_NETWORK spend_50) = 40" by code_simp
  moreover have "\<not> IsCoinBase spend_50" by (simp add: spend_50_def IsCoinBase_def coin_point_def COutPoint_IsNull_def)
  ultimately show ?thesis
    by (simp add: CheckTransaction_iff spend_50_def coin_point_def COutPoint_IsNull_def MoneyRange_def MAX_MONEY_def COIN_def sum_values_def)
qed

lemma spend_50_funded: "\<exists>v'. CheckTxInputs spend_50 st view_50 9 = Some (True, st, v')"
proof -
  have i: "int64 50 = 50" "int64 30 = 30" "int64 40 = 40" "int64 10 = 10" by (simp_all add: int64_eq)
  show ?thesis
    using coin_50_unspent
    by (simp add: CheckTxInputs_def HaveInputs_def view_50_def new_cache_def spend_50_def IsCoinBase_def coin_point_def
        COutPoint_IsNull_def FetchCoin.simps CCoinsCacheEntry_of_def Let_def coin_50_def Coin_of_def i MoneyRange_def MAX_MONEY_def COIN_def
        GetValueOut_def)
qed

theorem tx_conserves_value_witness:
  "\<exists>v' undo v'' u'. CheckTxInputs spend_50 CValidationState_init view_50 9 = Some (True, CValidationState_init, v')
     \<and> UpdateCoins no_services spend_50 v' [] 9 = Some (undo, v'') \<and> cache_on v'' u' [[coin_point \<mapsto> coin_50]]
     \<and> total_value u' + 10 + 10 = 50"
proof -
  obtain v' where v': "CheckTxInputs spend_50 CValidationState_init view_50 9 = Some (True, CValidationState_init, v')"
    using spend_50_funded by blast
  have "ComputeHash fresh_buf no_services spend_50 \<noteq> [1]"
  proof
    assume eq: "ComputeHash fresh_buf no_services spend_50 = [1]"
    have "length (ComputeHash fresh_buf no_services spend_50) = 32" by (rule length_ComputeHash)
    then show False unfolding eq by simp
  qed
  then have hash: "\<forall>n. [coin_point \<mapsto> coin_50] \<lparr>out_hash = ComputeHash fresh_buf no_services spend_50, out_n = n\<rparr> = None"
    by (auto simp: coin_point_def)
  have cb: "\<not> IsCoinBase spend_50" by (simp add: spend_50_def IsCoinBase_def coin_point_def COutPoint_IsNull_def)
  have fin: "finite (dom [coin_point \<mapsto> coin_50])" by simp
  have v: "value_of [coin_point \<mapsto> coin_50] (vin spend_50) - sum_values (vout spend_50) = 10"
    "sum_values (filter (\<lambda>out. IsUnspendable (scriptPubKey out)) (vout spend_50)) = 10" "total_value [coin_point \<mapsto> coin_50] = 50"
    by (simp_all add: value_of_def sum_values_def spend_50_def coin_50_def IsUnspendable_def total_value_def)
  show ?thesis
    using tx_conserves_value [OF view_50_on fin cb hash spend_50_checked v', of 9] v' unfolding v by blast
qed

section \<open>Relative lock times\<close>

text \<open>
  BIP 68 in a block: an input whose sequence number is not disabled and counts time is mature when its value, in units of 512
  seconds, has passed between the median time before the block of the coin and that before the block; one that counts blocks, when
  the block is that many blocks after the coin.
\<close>

definition input_mature :: "BlockMap \<Rightarrow> uint256 \<Rightarrow> CBlockIndex \<Rightarrow> uint256 \<Rightarrow> CTxIn \<Rightarrow> int \<Rightarrow> bool" where
  "input_mature m p b q i h \<longleftrightarrow>
     (if nSequence i AND 0x80000000 \<noteq> 0 then True
      else if nSequence i AND 0x400000 \<noteq> 0
      then mtp m (the (nth_prev m p (nHeight b - nat (max (h - 1) 0)))) + 512 * uint (nSequence i AND 0xffff) \<le> mtp m q
      else h + uint (nSequence i AND 0xffff) \<le> int (nHeight b))"

lemma push_bit_mask: "uint (push_bit 9 (x AND 0xffff :: u32)) = 512 * uint (x AND 0xffff)"
proof -
  have "uint (x AND 0xffff) < 2 ^ 16"
  proof -
    have "x AND 0xffff = take_bit 16 x" by (simp add: take_bit_eq_mask mask_eq_exp_minus_1)
    then show ?thesis using take_bit_int_less_exp [of 16 "uint x"] by (simp add: unsigned_take_bit_eq)
  qed
  then show ?thesis by (simp add: push_bit_eq_mult uint_word_ariths uint_mult_lem)
qed

lemma push_bit_mask': "uint (push_bit 9 x AND 33553920 :: u32) = 512 * uint (x AND 0xffff)"
  using push_bit_mask [of x] by simp

lemma lock_loop_mature:
  assumes "index_ok m" and "m p = Some b" and "length hts = length ins" and "\<forall>h\<in>set hts. 0 \<le> h \<and> h \<le> int (nHeight b)"
  shows "\<exists>hts' mh mt. lock_loop m p ins hts a t = Some (hts', mh, mt) \<and>
    (mh < int (nHeight b) \<and> mt < mtp m q \<longleftrightarrow> a < int (nHeight b) \<and> t < mtp m q \<and> list_all2 (input_mature m p b q) ins hts)"
  using assms(3,4)
proof (induction ins hts arbitrary: a t rule: list_induct2')
  case (4 i ins h hts)
  have l: "length hts = length ins" "\<forall>h\<in>set hts. 0 \<le> h \<and> h \<le> int (nHeight b)" using 4(2,3) by simp_all
  note IH = 4(1) [OF l]
  consider (off) "nSequence i AND 0x80000000 \<noteq> 0" | (time) "nSequence i AND 0x80000000 = 0" "nSequence i AND 0x400000 \<noteq> 0"
    | (height) "nSequence i AND 0x80000000 = 0" "nSequence i AND 0x400000 = 0" by blast
  then show ?case
  proof cases
    case off
    then have "input_mature m p b q i h" by (simp add: input_mature_def)
    then show ?thesis using IH [of a t] off by auto
  next
    case time
    have r: "0 \<le> max (h - 1) 0" "max (h - 1) 0 \<le> int (nHeight b)" using 4(3) by auto
    obtain c x where c: "nth_prev m p (nHeight b - nat (max (h - 1) 0)) = Some c" "m c = Some x"
      using back_height [OF assms(1,2), of "nHeight b - nat (max (h - 1) 0)"] by auto
    have g: "GetAncestor m p (max (h - 1) 0) = Some (Some c)" using GetAncestor_back [OF assms(1,2), of "max (h - 1) 0"] r c(1) by simp
    have t: "GetMedianTimePast m c = Some (mtp m c)" by (rule GetMedianTimePast_mtp [OF assms(1) c(2)])
    have "input_mature m p b q i h \<longleftrightarrow> mtp m c + 512 * uint (nSequence i AND 0xffff) \<le> mtp m q"
      using time c(1) by (simp add: input_mature_def)
    then show ?thesis using IH [of a "max t (mtp m c + 512 * uint (nSequence i AND 0xffff) - 1)"] time g t
      by (auto simp: push_bit_mask')
  next
    case height
    then have "input_mature m p b q i h \<longleftrightarrow> h + uint (nSequence i AND 0xffff) \<le> int (nHeight b)" by (simp add: input_mature_def)
    then show ?thesis using IH [of "max a (h + uint (nSequence i AND 0xffff) - 1)" t] height by auto
  qed
qed auto

lemma mtp_nonneg: "index_ok m \<Longrightarrow> m p = Some b \<Longrightarrow> 0 \<le> mtp m p"
proof -
  assume a: "index_ok m" "m p = Some b"
  have ge: "median_times m n x = Some ts \<Longrightarrow> t \<in> set ts \<Longrightarrow> 0 \<le> t" for n x ts t
    by (induction m n x arbitrary: ts rule: median_times.induct) (auto simp: bind_eq_Some_conv idx_GetBlockTime_def)
  obtain ts where ts: "median_times m 11 (Some p) = Some ts" "length ts = min 11 (Suc (nHeight b))" using median_times_returns [OF a, of 11] by blast
  have "sort (rev ts) ! (length (sort (rev ts)) div 2) \<in> set (sort (rev ts))" using ts(2) by (intro nth_mem) auto
  then show ?thesis using ge [OF ts(1)] mtp_median [OF ts(1)] by (simp add: median_def Let_def)
qed

text \<open>
  C18. Relative lock times: for a block of a well-formed index with a predecessor, and coins from blocks not above it, \<open>SequenceLocks\<close>
  returns, and it returns true exactly when the transaction is not subject to BIP 68 (version below 2, or the flag is not set) or
  every input is mature: the maximum that the loop computes decides for all inputs at once.
\<close>

theorem SequenceLocks_iff:
  assumes "index_ok m" and "m p = Some b" and "pprev b = Some q" and "length hts = length (vin tx)"
    and "\<forall>h\<in>set hts. 0 \<le> h \<and> h \<le> int (nHeight b)"
  shows "\<exists>ok hts'. SequenceLocks m tx flgs hts p = Some (ok, hts')
    \<and> (ok \<longleftrightarrow> unat (nVersion tx) < 2 \<or> flgs AND LOCKTIME_VERIFY_SEQUENCE = 0 \<or> list_all2 (input_mature m p b q) (vin tx) hts)"
proof -
  obtain c where c: "m q = Some c" using assms(1-3) by (elim pprev_cases [of m p b]) auto
  have t: "GetMedianTimePast m q = Some (mtp m q)" "0 \<le> mtp m q" using GetMedianTimePast_mtp mtp_nonneg assms(1) c by blast+
  show ?thesis
  proof (cases "unat (nVersion tx) \<ge> 2 \<and> flgs AND LOCKTIME_VERIFY_SEQUENCE \<noteq> 0")
    case True
    then show ?thesis using lock_loop_mature [OF assms(1,2,4,5), of "- 1" "- 1" q] t assms(2-4)
      by (auto simp: SequenceLocks_def CalculateSequenceLocks_def EvaluateSequenceLocks_def Let_def not_le)
  next
    case False
    then show ?thesis using t assms(2-4)
      by (auto simp: SequenceLocks_def CalculateSequenceLocks_def EvaluateSequenceLocks_def Let_def)
  qed
qed

text \<open>In a chain of ten blocks, a coin of block 5 is spent in block 9 with a relative lock of three blocks.\<close>

theorem SequenceLocks_iff_witness:
  "\<exists>hts'. SequenceLocks (line_index 1 1000 0 9)
     \<lparr>nVersion = 2, vin = [\<lparr>prevout = coin_point, scriptSig = [], nSequence = 3\<rparr>], vout = [], nLockTime = 0\<rparr> 1 [5] (line_key 9) = Some (True, hts')"
proof -
  have n: "(9 :: nat) < 256" by simp
  have k: "line_index 1 1000 0 9 (line_key 9) = Some (line_block 1 1000 0 9)" by (rule line_index_key) simp_all
  have b: "nHeight (line_block 1 1000 0 9) = 9" "pprev (line_block 1 1000 0 9) = Some (line_key 8)" by (simp_all add: line_block_def)
  define tx where "tx = (\<lparr>nVersion = 2, vin = [\<lparr>prevout = coin_point, scriptSig = [], nSequence = 3\<rparr>], vout = [], nLockTime = 0\<rparr> :: CTransaction)"
  have len: "length [5 :: int] = length (vin tx)" and r: "\<forall>h\<in>set [5]. 0 \<le> h \<and> h \<le> int (nHeight (line_block 1 1000 0 9))"
    by (simp_all add: tx_def b)
  have "list_all2 (input_mature (line_index 1 1000 0 9) (line_key 9) (line_block 1 1000 0 9) (line_key 8)) (vin tx) [5]"
    by (simp add: tx_def input_mature_def b)
  then show ?thesis using SequenceLocks_iff [OF index_ok_line [OF n] k b(2) len r, of 1] unfolding tx_def by auto
qed

end
