(* ===== verification/Merkle_Mutation.thy ===== *)
theory Merkle_Mutation
  imports Merkle
begin

text \<open>
  The flag \<open>mutated\<close> of \<open>ComputeMerkleRoot\<close> (\<^verbatim>\<open>src/consensus/merkle.cpp\<close>). A Merkle tree repeats the last hash of a level with an odd number
  of nodes, so that different lists of leaves can have the same root (CVE-2012-2459). The flag reports that two equal complete
  subtrees were combined; without it, and without a collision of the hash, a tree of a given height determines its leaves.
\<close>

section \<open>When the flag is set\<close>

definition twin_nodes :: "uint256 list \<Rightarrow> bool" where
  "twin_nodes leaves \<longleftrightarrow> (\<exists>l j. (2 * j + 2) * 2 ^ l \<le> length leaves \<and> node leaves l (2 * j) = node leaves l (2 * j + 1))"

lemma branch_step_mutated [simp]: "m_mutated (merkle_branch_step s) = m_mutated s" "m_h (merkle_branch_step s) = m_h s"
  by (simp_all add: merkle_branch_step_def)

lemma carry_keeps_mutated: "m_mutated s \<Longrightarrow> m_mutated (merkle_carry c s)"
proof (induction c s rule: merkle_carry.induct)
  case (1 c s)
  then show ?case by (subst merkle_carry.simps) (simp add: Let_def)
qed

lemma leaf_keeps_mutated: "m_mutated s \<Longrightarrow> m_mutated (merkle_leaf pos s x)"
  by (cases x) (simp add: merkle_leaf_def Let_def carry_keeps_mutated)

lemma leaves_keep_mutated: "m_mutated s \<Longrightarrow> m_mutated (foldl (merkle_leaf pos) s xs)"
  by (induction xs arbitrary: s) (simp_all add: leaf_keeps_mutated)

lemma up_mutated: "m_mutated (merkle_up c s) = m_mutated s"
proof (induction c s rule: merkle_up.induct)
  case (1 c s)
  then show ?case by (subst merkle_up.simps) (simp add: Let_def)
qed

lemma sweep_mutated: "m_mutated (merkle_sweep c s) = m_mutated s"
proof (induction c s rule: merkle_sweep.induct)
  case (1 c s)
  then show ?case by (subst merkle_sweep.simps) (simp add: Let_def up_mutated)
qed

lemma carry_sees_twins:
  assumes "inner_ok leaves (c - 1) (m_inner s)" and "2 ^ m_level s dvd c" and "0 < c" "c \<le> length leaves" "length leaves \<le> 2 ^ 31"
    and "covers leaves pos (c - 1) (c div 2 ^ m_level s - 1) s"
    and "m_level s \<le> l" and "c = (2 * j + 2) * 2 ^ l" and "node leaves l (2 * j) = node leaves l (2 * j + 1)"
  shows "m_mutated (merkle_carry c s)"
  using assms
proof (induction c s rule: merkle_carry.induct)
  case (1 c s)
  have l32: "m_level s < 32" using dvd_level [OF 1(3,4)] 1(5,6) by simp
  have nb: "\<not> bit c (m_level s)"
  proof -
    have "c = 2 ^ m_level s * (2 * ((j + 1) * 2 ^ (l - m_level s)))"
      using 1(8,9) by (simp add: power_add [symmetric] algebra_simps)
    then have "c div 2 ^ m_level s = 2 * ((j + 1) * 2 ^ (l - m_level s))" by simp
    then show ?thesis by (simp add: bit_iff_odd)
  qed
  let ?b = "merkle_branch_step s"
  let ?t = "?b\<lparr>m_mutated := m_mutated ?b \<or> m_inner ?b ! m_level ?b = m_h ?b,
    m_h := merkle_hash (m_inner ?b ! m_level ?b) (m_h ?b), m_level := m_level ?b + 1\<rparr>"
  have c: "merkle_carry c s = merkle_carry c ?t" using nb l32 by (subst merkle_carry.simps) (simp add: Let_def)
  show ?case
  proof (cases "m_level s = l")
    case True
    have q: "c div 2 ^ l = 2 * j + 2" using 1(9) by simp
    have pr: "(c - 1) div 2 ^ l = 2 * j + 1" using div_pred [of l c] 1(3,4) True q by simp
    then have "bit (c - 1) l" by (simp add: bit_iff_odd)
    then have "m_inner s ! l = node leaves l (2 * j)" using 1(2) pr by (simp add: inner_ok_def)
    moreover have "m_h s = node leaves l (2 * j + 1)" using 1(7) q True by (simp add: covers_def)
    ultimately have "m_mutated ?t" using 1(10) True by simp
    then show ?thesis unfolding c by (rule carry_keeps_mutated)
  next
    case False
    note st = carry_step [OF 1(2,3,4,5) nb 1(7)]
    have cov: "covers leaves pos (c - 1) (c div 2 ^ m_level ?t - 1) ?t" using st(2) by (simp add: covers_def split: if_splits)
    have "m_mutated (merkle_carry c ?t)"
      by (rule 1(1) [OF _ refl]) (use nb l32 1(2,4-6,8-10) st(1) cov False in \<open>simp_all\<close>)
    then show ?thesis by (simp only: c)
  qed
qed

lemma leaves_see_twins:
  assumes "length leaves \<le> 2 ^ 31" and "node leaves l (2 * j) = node leaves l (2 * j + 1)"
    and "k \<le> length leaves" and "(2 * j + 2) * 2 ^ l \<le> k"
  shows "m_mutated (foldl (merkle_leaf pos) merkle_start (enumerate 0 (take k leaves)))"
  using assms(3,4)
proof (induction k)
  case (Suc k)
  define s where "s = foldl (merkle_leaf pos) merkle_start (enumerate 0 (take k leaves))"
  have e: "enumerate 0 (take (Suc k) leaves) = enumerate 0 (take k leaves) @ [(k, leaves ! k)]"
    using Suc.prems by (simp add: take_Suc_conv_app_nth enumerate_append_eq)
  have f: "foldl (merkle_leaf pos) merkle_start (enumerate 0 (take (Suc k) leaves)) = merkle_leaf pos s (k, leaves ! k)"
    by (simp add: e s_def)
  show ?case
  proof (cases "(2 * j + 2) * 2 ^ l \<le> k")
    case True
    then have "m_mutated s" using Suc unfolding s_def by simp
    then show ?thesis unfolding f by (rule leaf_keeps_mutated)
  next
    case False
    then have c: "Suc k = (2 * j + 2) * 2 ^ l" using Suc.prems(2) by linarith
    have "inner_ok leaves k (m_inner s) \<and> match_ok leaves pos k (m_matchlevel s) (m_branch s)"
      using merkle_leaves_ok [of k leaves pos] Suc.prems(1) assms(1) by (simp add: s_def Let_def)
    then have ok: "inner_ok leaves k (m_inner s)" "match_ok leaves pos k (m_matchlevel s) (m_branch s)" by simp_all
    define s0 where "s0 = s\<lparr>m_level := 0, m_h := leaves ! k, m_matchh := (k = pos)\<rparr>"
    have "covers leaves pos k k s0" using ok(2) by (auto simp: covers_def s0_def match_ok_def)
    then have cov: "covers leaves pos (Suc k - 1) (Suc k div 2 ^ m_level s0 - 1) s0" by (simp add: s0_def)
    have "m_mutated (merkle_carry (Suc k) s0)"
      by (rule carry_sees_twins [OF _ _ _ Suc.prems(1) assms(1) cov _ c assms(2)]) (simp_all add: s0_def ok(1))
    then show ?thesis unfolding f by (simp add: merkle_leaf_def s0_def Let_def)
  qed
qed simp

lemma twin_nodes_mutated:
  assumes "twin_nodes leaves" and "length leaves \<le> 2 ^ 31"
  shows "snd (ComputeMerkleRoot leaves)"
proof -
  obtain l j where t: "(2 * j + 2) * 2 ^ l \<le> length leaves" "node leaves l (2 * j) = node leaves l (2 * j + 1)"
    using assms(1) by (auto simp: twin_nodes_def)
  have "0 < length leaves" using t(1) by (cases leaves) auto
  moreover have "m_mutated (foldl (merkle_leaf (2 ^ 32 - 1)) merkle_start (enumerate 0 (take (length leaves) leaves)))"
    by (rule leaves_see_twins [OF assms(2) t(2) order_refl t(1)])
  ultimately show ?thesis by (simp add: ComputeMerkleRoot_def MerkleComputation_def Let_def sweep_mutated)
qed

section \<open>A tree determines its leaves\<close>

text \<open>
  The pairs of hashes that are combined on the way to the root, level by level; a collision among them is two pairs with
  different bytes and the same double SHA-256.
\<close>

definition right_node :: "uint256 list \<Rightarrow> nat \<Rightarrow> nat \<Rightarrow> uint256" where
  "right_node leaves l p = (if 2 * p + 1 < width leaves l then node leaves l (2 * p + 1) else node leaves l (2 * p))"

definition combined :: "uint256 list \<Rightarrow> (uint256 \<times> uint256) list" where
  "combined leaves = concat (map (\<lambda>l. map (\<lambda>p. (node leaves l (2 * p), right_node leaves l p)) [0..<width leaves (Suc l)])
     [0..<tree_height (length leaves) 0])"

definition collision :: "(uint256 \<times> uint256) list \<Rightarrow> bool" where
  "collision pairs \<longleftrightarrow> (\<exists>(a, b)\<in>set pairs. \<exists>(a', b')\<in>set pairs. a @ b \<noteq> a' @ b' \<and> Hash fresh_buf [a, b] = Hash fresh_buf [a', b'])"

lemma width_Suc: "p < width leaves (Suc l) \<longleftrightarrow> 2 * p < width leaves l"
  by (auto simp: CalcTreeWidth_Suc)

lemma length_node: "list_all (\<lambda>h. length h = 32) leaves \<Longrightarrow> p < width leaves l \<Longrightarrow> length (node leaves l p) = 32"
proof (induction l arbitrary: p)
  case 0
  then show ?case by (simp add: CalcTreeWidth_def list_all_length)
next
  case (Suc l)
  show ?case by (simp add: CalcHash.simps(2) Let_def)
qed

lemma node_Suc: "node leaves (Suc l) p = merkle_hash (node leaves l (2 * p)) (right_node leaves l p)"
  using node_pair [of p leaves l] node_single [of leaves l p] by (simp add: right_node_def)

lemma combined_mem:
  "l < tree_height (length leaves) 0 \<Longrightarrow> p < width leaves (Suc l) \<Longrightarrow> (node leaves l (2 * p), right_node leaves l p) \<in> set (combined leaves)"
  by (force simp: combined_def)

lemma node_inj:
  assumes "\<not> collision C" and "set (combined xs) \<subseteq> set C" and "set (combined ys) \<subseteq> set C"
    and "list_all (\<lambda>h. length h = 32) xs" and "list_all (\<lambda>h. length h = 32) ys"
    and "l < tree_height (length xs) 0" and "l < tree_height (length ys) 0"
    and "p < width xs (Suc l)" and "q < width ys (Suc l)" and "node xs (Suc l) p = node ys (Suc l) q"
  shows "node xs l (2 * p) = node ys l (2 * q) \<and> right_node xs l p = right_node ys l q"
proof -
  have "(node xs l (2 * p), right_node xs l p) \<in> set C" "(node ys l (2 * q), right_node ys l q) \<in> set C"
    using combined_mem assms(2,3,6-9) by blast+
  then have "node xs l (2 * p) @ right_node xs l p = node ys l (2 * q) @ right_node ys l q"
    using assms(1,10) by (fastforce simp: collision_def node_Suc merkle_hash_Hash)
  moreover have "length (node xs l (2 * p)) = length (node ys l (2 * q))"
    using assms(4,5,8,9) length_node by (simp add: width_Suc)
  ultimately show ?thesis by simp
qed

lemma width_complete: "p + 1 < width leaves l \<Longrightarrow> (p + 1) * 2 ^ l \<le> length leaves"
proof -
  assume "p + 1 < width leaves l"
  then have "(p + 1) * 2 ^ l + 2 ^ l \<le> width leaves l * 2 ^ l" using mult_le_mono1 [of "p + 2" "width leaves l" "2 ^ l"] by (simp add: algebra_simps)
  then show ?thesis using width_bounds(2) [of leaves l] by linarith
qed

lemma complete_width: "(p + 1) * 2 ^ l \<le> length leaves \<Longrightarrow> p < width leaves l"
proof (rule ccontr)
  assume a: "(p + 1) * 2 ^ l \<le> length leaves" "\<not> p < width leaves l"
  then have "width leaves l * 2 ^ l \<le> p * 2 ^ l" by (intro mult_le_mono1) simp
  moreover have "(p + 1) * 2 ^ l = p * 2 ^ l + 2 ^ l" "0 < (2 :: nat) ^ l" by simp_all
  ultimately show False using a(1) width_bounds(1) [of leaves l] by linarith
qed

lemma tree_height_ge: "h \<le> tree_height n h"
proof (induction n h rule: tree_height.induct)
  case (1 n h)
  then show ?case by (subst tree_height.simps) auto
qed

lemma width_antimono: "h \<le> l \<Longrightarrow> width leaves l \<le> width leaves h"
  by (rule lift_Suc_antimono_le [of "width leaves"]) (simp_all add: CalcTreeWidth_Suc)

lemma height_from: "1 < width leaves l \<Longrightarrow> h \<le> l \<Longrightarrow> l < tree_height (length leaves) h"
proof (induction "l - h" arbitrary: h)
  case 0
  then show ?case using tree_height_ge [of "h + 1" "length leaves"] by (subst tree_height.simps) simp
next
  case (Suc m)
  then have "1 < width leaves h" using width_antimono [of h l leaves] by simp
  then show ?case using Suc(1) [of "h + 1"] Suc(2-4) by (subst tree_height.simps) simp
qed

lemmas height_below = height_from [OF _ le0]

lemma incomplete_twins:
  assumes "\<not> collision C" and "set (combined xs) \<subseteq> set C" and "set (combined ys) \<subseteq> set C"
    and "list_all (\<lambda>h. length h = 32) xs" and "list_all (\<lambda>h. length h = 32) ys"
  shows "l \<le> tree_height (length xs) 0 \<Longrightarrow> l \<le> tree_height (length ys) 0 \<Longrightarrow> (p + 1) * 2 ^ l \<le> length xs \<Longrightarrow> q < width ys l \<Longrightarrow>
    length ys < (q + 1) * 2 ^ l \<Longrightarrow> node xs l p = node ys l q \<Longrightarrow> twin_nodes xs"
proof (induction l arbitrary: p q)
  case 0
  then show ?case by (simp add: CalcTreeWidth_def)
next
  case (Suc l)
  have px: "(2 * p + 2) * 2 ^ l \<le> length xs" using Suc.prems(3) by (simp add: algebra_simps)
  have wx: "2 * p + 1 < width xs l" "p < width xs (Suc l)" using complete_width [of "2 * p + 1" l xs] px by (simp_all add: width_Suc)
  have lr: "node xs l (2 * p) = node ys l (2 * q)" "node xs l (2 * p + 1) = right_node ys l q"
    using node_inj [OF assms _ _ wx(2) Suc.prems(4,6)] Suc.prems(1,2) wx(1) by (simp_all add: right_node_def)
  show ?case
  proof (cases "2 * q + 1 < width ys l")
    case True
    then have "node xs l (2 * p + 1) = node ys l (2 * q + 1)" using lr(2) by (simp add: right_node_def)
    moreover have "length ys < (2 * q + 1 + 1) * 2 ^ l" using Suc.prems(5) by (simp add: algebra_simps)
    moreover have "(2 * p + 1 + 1) * 2 ^ l \<le> length xs" using px by simp
    ultimately show ?thesis using Suc.IH [of "2 * p + 1" "2 * q + 1"] Suc.prems(1,2) True by simp
  next
    case False
    then have "node xs l (2 * p) = node xs l (2 * p + 1)" using lr by (simp add: right_node_def)
    then show ?thesis using px by (auto simp: twin_nodes_def)
  qed
qed

text \<open>The last nodes of a level differ, if they are two and no equal complete nodes are combined.\<close>

lemma last_nodes_differ:
  assumes "\<not> collision C" and "set (combined ys) \<subseteq> set C" and "list_all (\<lambda>h. length h = 32) ys" and "\<not> twin_nodes ys"
    and "width ys l = 2 * w" and "0 < w"
  shows "node ys l (2 * w - 2) \<noteq> node ys l (2 * w - 1)"
proof
  assume eq: "node ys l (2 * w - 2) = node ys l (2 * w - 1)"
  obtain j where w: "w = Suc j" using assms(6) by (cases w) auto
  have e: "2 * w - 2 = 2 * j" "2 * w - 1 = 2 * j + 1" by (simp_all add: w)
  have c: "(2 * j + 1) * 2 ^ l \<le> length ys" using width_complete [of "2 * j" ys l] assms(5) w by simp
  show False
  proof (cases "(2 * j + 1 + 1) * 2 ^ l \<le> length ys")
    case True
    then show ?thesis using eq assms(4) e by (auto simp: twin_nodes_def)
  next
    case False
    have "l < tree_height (length ys) 0" using assms(5) w by (intro height_below) simp
    then show ?thesis using incomplete_twins [OF assms(1,2,2,3,3) _ _ c, of "2 * j + 1"] False eq assms(4,5) e w by simp
  qed
qed

lemma level_down:
  assumes "\<not> collision C" and "set (combined xs) \<subseteq> set C" and "set (combined ys) \<subseteq> set C"
    and "list_all (\<lambda>h. length h = 32) xs" and "list_all (\<lambda>h. length h = 32) ys" and "\<not> twin_nodes xs" and "\<not> twin_nodes ys"
    and "0 < length xs" and "l < tree_height (length xs) 0" and "l < tree_height (length ys) 0" and w: "width xs (Suc l) = width ys (Suc l)" and nodes: "\<And>p. p < width xs (Suc l) \<Longrightarrow> node xs (Suc l) p = node ys (Suc l) p"
  shows "width xs l = width ys l \<and> (\<forall>p<width xs l. node xs l p = node ys l p)"
proof -
  define k where "k = width xs (Suc l)"
  have k: "0 < k" "width xs l = 2 * k - 1 \<or> width xs l = 2 * k" "width ys l = 2 * k - 1 \<or> width ys l = 2 * k"
    using width_pos [OF assms(8), of "Suc l"] w by (auto simp: k_def CalcTreeWidth_Suc)
  have left: "node xs l (2 * p) = node ys l (2 * p)"
    and right: "2 * p + 1 < width xs l \<Longrightarrow> 2 * p + 1 < width ys l \<Longrightarrow> node xs l (2 * p + 1) = node ys l (2 * p + 1)"
    and mixed: "2 * p + 1 < width xs l \<Longrightarrow> \<not> 2 * p + 1 < width ys l \<Longrightarrow> node xs l (2 * p) = node xs l (2 * p + 1)"
    and mixed': "\<not> 2 * p + 1 < width xs l \<Longrightarrow> 2 * p + 1 < width ys l \<Longrightarrow> node ys l (2 * p) = node ys l (2 * p + 1)"
    if "p < k" for p
  proof -
    have eq: "node xs l (2 * p) = node ys l (2 * p)" "right_node xs l p = right_node ys l p"
      using node_inj [OF assms(1-5,9,10), of p p] nodes that w by (simp_all add: k_def)
    show "node xs l (2 * p) = node ys l (2 * p)" by (rule eq)
    show "2 * p + 1 < width xs l \<Longrightarrow> 2 * p + 1 < width ys l \<Longrightarrow> node xs l (2 * p + 1) = node ys l (2 * p + 1)"
      "2 * p + 1 < width xs l \<Longrightarrow> \<not> 2 * p + 1 < width ys l \<Longrightarrow> node xs l (2 * p) = node xs l (2 * p + 1)"
      "\<not> 2 * p + 1 < width xs l \<Longrightarrow> 2 * p + 1 < width ys l \<Longrightarrow> node ys l (2 * p) = node ys l (2 * p + 1)"
      using eq by (auto simp: right_node_def)
  qed
  obtain j where j: "k = Suc j" using k(1) by (cases k) auto
  have same: "width xs l = width ys l"
  proof (rule ccontr)
    assume ne: "width xs l \<noteq> width ys l"
    then consider "width xs l = 2 * k" "width ys l = 2 * k - 1" | "width xs l = 2 * k - 1" "width ys l = 2 * k" using k by auto
    then show False
    proof cases
      case 1
      then show ?thesis using last_nodes_differ [OF assms(1,2,4,6) 1(1) k(1)] mixed [of j] j by simp
    next
      case 2
      then show ?thesis using last_nodes_differ [OF assms(1,3,5,7) 2(2) k(1)] mixed' [of j] j by simp
    qed
  qed
  have "node xs l p = node ys l p" if "p < width xs l" for p
  proof (cases "even p")
    case True
    then obtain q where q: "p = 2 * q" by (rule evenE)
    then show ?thesis using left [of q] that by (simp add: k_def width_Suc)
  next
    case False
    then obtain q where q: "p = 2 * q + 1" by (rule oddE)
    then show ?thesis using right [of q] that same by (simp add: k_def width_Suc)
  qed
  then show ?thesis using same by blast
qed

lemma leaves_determined:
  assumes "\<not> collision C" and "set (combined xs) \<subseteq> set C" and "set (combined ys) \<subseteq> set C"
    and "list_all (\<lambda>h. length h = 32) xs" and "list_all (\<lambda>h. length h = 32) ys" and "\<not> twin_nodes xs" and "\<not> twin_nodes ys"
    and "0 < length xs" and "l \<le> tree_height (length xs) 0" and "l \<le> tree_height (length ys) 0"
    and "width xs l = width ys l" and "\<And>p. p < width xs l \<Longrightarrow> node xs l p = node ys l p"
  shows "xs = ys"
  using assms(9-12)
proof (induction l)
  case 0
  then show ?case by (intro nth_equalityI) (simp_all add: CalcTreeWidth_def)
next
  case (Suc l)
  then show ?case using level_down [OF assms(1-8) _ _ Suc.prems(3,4)] by simp
qed

section \<open>Properties\<close>

text \<open>
  C9. The protection against CVE-2012-2459: if \<open>ComputeMerkleRoot\<close> returns the same root for two lists of up to \<open>2 ^ 31\<close> hashes whose
  trees have the same height, and does not report a mutation for either, then the lists are equal, or two of the pairs of
  hashes that were combined on the way to the two roots are a collision of the double SHA-256.
\<close>

theorem ComputeMerkleRoot_binding:
  assumes "ComputeMerkleRoot xs = (root, False)" and "ComputeMerkleRoot ys = (root, False)"
    and "list_all (\<lambda>h. length h = 32) xs" and "list_all (\<lambda>h. length h = 32) ys" and "0 < length xs" and "0 < length ys"
    and "length xs \<le> 2 ^ 31" and "length ys \<le> 2 ^ 31" and "tree_height (length xs) 0 = tree_height (length ys) 0"
  shows "xs = ys \<or> collision (combined xs @ combined ys)"
proof (rule disjCI)
  assume no: "\<not> collision (combined xs @ combined ys)"
  have t: "\<not> twin_nodes xs" "\<not> twin_nodes ys" using twin_nodes_mutated assms(1,2,7,8) by fastforce+
  obtain b1 b2 where m: "MerkleComputation xs (2 ^ 32 - 1) = (root, False, b1)" "MerkleComputation ys (2 ^ 32 - 1) = (root, False, b2)"
    using assms(1,2) by (auto simp: ComputeMerkleRoot_def split: prod.splits)
  define h where "h = tree_height (length xs) 0"
  have "root = node xs h 0" "width xs h = 1" "root = node ys h 0" "width ys h = 1"
    using MerkleComputation_tree [OF assms(5,7) m(1)] MerkleComputation_tree [OF assms(6,8) m(2)] assms(9) by (simp_all add: h_def)
  then show "xs = ys" using leaves_determined [OF no _ _ assms(3,4) t assms(5), of h] assms(9) by (simp add: h_def)
qed

lemma ComputeMerkleRoot_two: "a \<noteq> b \<Longrightarrow> ComputeMerkleRoot [a, b] = (merkle_hash a b, False)"
  by (simp add: ComputeMerkleRoot_def MerkleComputation_def merkle_leaf_def merkle_start_def merkle_carry.simps merkle_branch_step_def
      lowest_bit.simps merkle_sweep.simps Let_def bit_iff_odd)

theorem ComputeMerkleRoot_binding_witness:
  "\<exists>root. ComputeMerkleRoot [replicate 32 1, replicate 32 2] = (root, False)
     \<and> ([replicate 32 1, replicate 32 2] = [replicate 32 1, replicate 32 (2 :: byte)]
        \<or> collision (combined [replicate 32 1, replicate 32 2] @ combined [replicate 32 1, replicate 32 2]))"
proof -
  define xs where "xs = [replicate 32 1, replicate 32 (2 :: byte)]"
  have r: "ComputeMerkleRoot xs = (merkle_hash (replicate 32 1) (replicate 32 2), False)"
    unfolding xs_def by (rule ComputeMerkleRoot_two) simp
  have "xs = xs \<or> collision (combined xs @ combined xs)"
    by (rule ComputeMerkleRoot_binding [OF r r]) (simp_all add: xs_def)
  then show ?thesis using r unfolding xs_def by blast
qed

end
