(* ===== verification/Spec2Isabelle.thy ===== *)
theory Spec2Isabelle
  imports Hashes SipHash Serialize Verify MerkleBlock AuxPow Arith_Uint256 Chain Pow VersionBits Headers Coins Tx_Checks
    Merkle_Mutation
begin

text \<open>
  \<^bold>\<open>The program.\<close> Minerium is a Bitcoin node with merge mining, masternodes and services in scripts (aliases, offers,
  certificates, escrows, assets). This development models its consensus core: from bytes and hashes over scripts,
  transactions and blocks to the block index and the set of unspent outputs. File names below are relative to the source
  directory \<^verbatim>\<open>src/src\<close>.

  \<^bold>\<open>How the parts interact.\<close> A peer sends headers and transactions as byte strings (theories \<open>Serialize\<close>, \<open>Transaction\<close>, \<open>Block\<close>).
  A header is hashed, its own work or the work of its merge-mining parent is checked against the target that the chain
  requires (\<open>AuxPow\<close>, \<open>Pow\<close>, \<open>Arith_Uint256\<close>), and it is entered in the block index (\<open>Headers\<close>, \<open>Chain\<close>), on which the deployments
  of rule changes (\<open>VersionBits\<close>) and the median time (\<open>Median_Time\<close>) are computed. The transactions of a block are tied to its
  header by a Merkle tree (\<open>Merkle\<close>, \<open>Merkle_Mutation\<close>, \<open>MerkleBlock\<close>). A transaction is checked alone, against the coins it spends and
  against its lock times (\<open>Tx_Checks\<close>), the script of every input is run (\<open>Script\<close>, \<open>Script_Checks\<close>, \<open>Interpreter\<close>, \<open>Verify\<close>, over the
  hashes of \<open>Hashes\<close>), and the coin views are updated (\<open>Coins\<close>).

  \<^bold>\<open>Conventions.\<close> A class is a record or a datatype with the fields of the source, a method is a function that returns the
  changed object, and a loop is a recursive function of its own. Machine integers are words, or integers with the
  wrap-around written out (\<open>int64\<close>). A pointer into the block index is the hash of the block, and the index is a map passed to
  every method. \<open>None\<close> stands for an exception, a failed assertion or undefined behaviour; rejections are values
  (\<open>Refused\<close>, \<open>ScriptError\<close>, \<open>CValidationState\<close>). A loop whose end is not evident is a \<open>partial_function\<close> in \<open>option\<close>, and that it returns
  is proved; no definition uses fuel. Uninitialised buffers and code outside the sources (the verification of an elliptic
  curve signature, the hash that identifies a block) are arguments of the definitions that use them.

  \<^bold>\<open>The theories and what they show.\<close>

  \<^item> \<open>Prelude\<close>, \<open>Endian\<close> (\<^verbatim>\<open>crypto/common.h\<close>): machine types, byte strings, reading and writing integers.

  \<^item> \<open>Hash_Stream\<close>, \<open>Sha2_Rounds\<close>, \<open>Registers5\<close>, \<open>Sha256\<close>, \<open>Sha512\<close>, \<open>Sha1\<close>, \<open>Ripemd160\<close> (\<^verbatim>\<open>crypto/*.cpp\<close>): the unrolled rounds over registers in place
    compute the textbook rounds, and the classes return the hash of the whole message for every cut into writes.
    The locales \<open>md_hash\<close> (buffering of blocks) and \<open>sha2_rounds\<close> (schedule and rounds) hold the shared proofs and are interpreted for
    each class.

  \<^item> \<open>Hashes\<close> (\<^verbatim>\<open>hash.h\<close>, \<^verbatim>\<open>crypto/hmac_*.cpp\<close>), \<open>SipHash\<close> (\<^verbatim>\<open>hash.cpp\<close>): double hashes and HMAC over the contract \<open>stream_hash\<close>; the unrolled
    \<open>SipHashUint256\<close> agrees with the incremental class.

  \<^item> \<open>Serialize\<close> (\<^verbatim>\<open>serialize.h\<close>): the locale \<open>codec\<close> states that reading inverts writing and leaves the rest of the stream, and is
    interpreted for integers, compact sizes, byte vectors and the classes of transactions and headers; compact sizes are canonical.

  \<^item> \<open>Opcodes\<close>, \<open>Script\<close> (\<^verbatim>\<open>script/script.h\<close>, \<^verbatim>\<open>script/script.cpp\<close>), \<open>Services\<close> (\<^verbatim>\<open>alias.cpp\<close> and the other services): script numbers and their
    minimal form, decoding of operations, \<open>FindAndDelete\<close>, templates, and the prefixes of services with their defects.

  \<^item> \<open>Script_Checks\<close>, \<open>Interpreter\<close>, \<open>Verify\<close> (\<^verbatim>\<open>script/interpreter.cpp\<close>): the encoding checks are equivalent to the published grammar of
    signatures; every run of \<open>EvalScript\<close> respects the limits on stack, elements and operations; \<open>OP_CHECKMULTISIG\<close> accepts exactly
    when the signatures match keys in order; the signature hash commits to what its type says; \<open>VerifyScript\<close> accepts the payment to
    a key hash exactly with the right key and signature, and its assertions fail only for output scripts with two service prefixes.

  \<^item> \<open>Transaction\<close> (\<^verbatim>\<open>primitives/transaction.*\<close>, \<^verbatim>\<open>amount.*\<close>), \<open>Block\<close> (\<^verbatim>\<open>primitives/block.*\<close>, \<^verbatim>\<open>primitives/pureheader.*\<close>): round trips of the wire
    format, and amounts without wrap-around.

  \<^item> \<open>Merkle\<close>, \<open>Merkle_Mutation\<close> (\<^verbatim>\<open>consensus/merkle.cpp\<close>), \<open>MerkleBlock\<close> (\<^verbatim>\<open>merkleblock.cpp\<close>): the constant-space computation returns the root and
    branches of the recursive tree, for up to \<open>2 ^ 31\<close> leaves (the count is a 32-bit integer); without the mutation flag
    equal roots mean equal lists or an explicit collision; a partial tree proves exactly the transactions it was built for.

  \<^item> \<open>AuxPow\<close> (\<^verbatim>\<open>auxpow.cpp\<close>): one parent coinbase that carries the merged-mining header proves work for at most one block of a chain,
    unless the branches exhibit a collision; the data that \<open>initAuxPow\<close> creates are accepted.

  \<^item> \<open>Arith_Uint256\<close> (\<^verbatim>\<open>arith_uint256.*\<close>), \<open>Pow\<close> (\<^verbatim>\<open>pow.cpp\<close>, parameters from \<^verbatim>\<open>chainparams.cpp\<close>): the operations on limbs compute modulo \<open>2 ^ 256\<close>; the
    retargeting rules return and stay within their limits; what \<open>CheckProofOfWork\<close> accepts. The decisions of
    \<open>KimotoGravityWell\<close> in floating point are arguments.

  \<^item> \<open>Chain\<close>, \<open>Median_Time\<close> (\<^verbatim>\<open>chain.*\<close>), \<open>VersionBits\<close> (\<^verbatim>\<open>versionbits.*\<close>): the skip list finds the ancestors that walking back finds; the active chain,
    forks and locators; the cached state of a deployment is the one that recursion over the periods defines (locale \<open>memo_table\<close>), and
    deployments progress.

  \<^item> \<open>Headers\<close> (\<^verbatim>\<open>validation.cpp\<close>, \<^verbatim>\<open>checkpoints.cpp\<close>, \<^verbatim>\<open>consensus/validation.h\<close>): the invariant of every block index that a node reaches by accepting
    headers, and the outcome of a header on every branch.

  \<^item> \<open>Coins\<close> (\<^verbatim>\<open>coins.*\<close>, \<^verbatim>\<open>txdb.cpp\<close>, \<open>UpdateCoins\<close> of \<^verbatim>\<open>validation.cpp\<close>): a stack of caches refines a stack of sets of unspent outputs (locale
    \<open>forward_simulation\<close>, lifted from single operations to programs).

  \<^item> \<open>Tx_Checks\<close> (\<^verbatim>\<open>validation.cpp\<close>): accepted transactions create no value, and relative lock times decide input by input.

  \<^bold>\<open>Not modelled.\<close> Connecting and disconnecting of blocks, the block files, the memory pool and the fee estimates: they
  combine the checks above with the rules of services, masternodes and governance, with floating point, files and locks. The
  block reward is a table over the height with a share in floating point. The rules of the services, masternodes, governance,
  InstantSend and PrivateSend, the network, the wallet, RPC and the user interface are protocols over threads, sockets, databases
  and the clock. The elliptic curve and the key-value store are bundled libraries. Of the modelled files, text forms, debug
  messages, memory statistics and code in floating point are left out.
\<close>

end
